(* ===== verification/VDB_Prelude.thy ===== *)
theory VDB_Prelude
  imports Main "HOL-Library.Word" "HOL-Library.Multiset"
begin

unbundle bit_operations_syntax

text \<open>
  Shared vocabulary of the development: the machine integer types the C++ sources use, the
  ways an operation can fail, the sequencing combinator for fallible operations, the
  ownership discipline of the standard mutexes, checked vector access, and the generic
  lemmas on lists, sums and words that the component theories use.
\<close>

section \<open>Machine integers\<close>

type_synonym u8 = "8 word"
type_synonym u16 = "16 word"
type_synonym u32 = "32 word"
type_synonym u64 = "64 word"

text \<open>The value \<^verbatim>\<open>static_cast<size_t>(-1)\<close>, used by the sources as an absent index.\<close>

definition npos :: u64 where
  "npos = - 1"

section \<open>Failures\<close>

text \<open>
  \<^item> \<open>Relock\<close>: a thread acquires a \<^verbatim>\<open>std::shared_mutex\<close> it already owns.  The C++ standard
    makes this undefined; the implementations block for ever or raise a deadlock error.  In
    either case the call does not return normally.
  \<^item> \<open>AssertFail\<close>: a failed \<^verbatim>\<open>assert\<close>, which aborts the process.
  \<^item> \<open>OutOfRange\<close>: a thrown \<^verbatim>\<open>std::out_of_range\<close>.
  \<^item> \<open>OutOfBounds\<close>: an unchecked access outside an array.
  \<^item> \<open>Dangling\<close>: an access through a pointer to a destroyed object.
  \<^item> \<open>NullDeref\<close>: an access through a null pointer.
  \<^item> \<open>Diverges\<close>: a loop that never ends.
  \<^item> \<open>SignedOverflow\<close>: a signed addition whose result does not fit its type.
  \<^item> \<open>RuntimeError\<close>: a thrown \<^verbatim>\<open>std::runtime_error\<close> with its message.
\<close>

datatype cpp_error =
    Relock | AssertFail | OutOfRange | OutOfBounds | Dangling | NullDeref | Diverges
  | SignedOverflow
  | RuntimeError string

type_synonym 'a result = "cpp_error + 'a"

text \<open>Sequencing of fallible operations: the first failure is the result.\<close>

definition bindR :: "'a result \<Rightarrow> ('a \<Rightarrow> 'b result) \<Rightarrow> 'b result" where
  "bindR r f = (case r of Inl e \<Rightarrow> Inl e | Inr x \<Rightarrow> f x)"

named_theorems result_simps \<open>rewriting of sequenced fallible operations\<close>

lemma bindR_Inr [simp]: "bindR (Inr x) f = f x"
  by (simp add: bindR_def)

lemma bindR_Inl [simp]: "bindR (Inl e) f = Inl e"
  by (simp add: bindR_def)

lemma bindR_eq_Inr [result_simps]: "bindR r f = Inr y \<longleftrightarrow> (\<exists>x. r = Inr x \<and> f x = Inr y)"
  by (cases r) auto

lemma bindR_eq_Inl [result_simps]:
  "bindR r f = Inl e \<longleftrightarrow> r = Inl e \<or> (\<exists>x. r = Inr x \<and> f x = Inl e)"
  by (cases r) auto

lemma bindR_InrE:
  assumes "bindR r f = Inr y"
  obtains x where "r = Inr x" and "f x = Inr y"
  using assms by (cases r) auto

lemma bindR_assoc: "bindR (bindR r f) g = bindR r (\<lambda>x. bindR (f x) g)"
  by (cases r) auto

section \<open>Mutex ownership\<close>

text \<open>
  The state of a \<^verbatim>\<open>std::shared_mutex\<close> as the running thread sees it.  The server executes
  every command on its main thread (the thread pools never receive a task), so ownership by
  that thread is the whole state; a second acquisition by the owner, shared or exclusive, is
  outside the contract of the class.
\<close>

datatype mutex = Unlocked | SharedLock | UniqueLock

definition lock_unique :: "mutex \<Rightarrow> mutex result" where
  "lock_unique m = (if m = Unlocked then Inr UniqueLock else Inl Relock)"

definition lock_shared :: "mutex \<Rightarrow> mutex result" where
  "lock_shared m = (if m = Unlocked then Inr SharedLock else Inl Relock)"

lemma lock_simps [simp]:
  "lock_unique Unlocked = Inr UniqueLock"
  "lock_shared Unlocked = Inr SharedLock"
  "lock_unique UniqueLock = Inl Relock"
  "lock_shared UniqueLock = Inl Relock"
  "lock_unique SharedLock = Inl Relock"
  "lock_shared SharedLock = Inl Relock"
  by (simp_all add: lock_unique_def lock_shared_def)

section \<open>Vectors\<close>

text \<open>An access \<^verbatim>\<open>v[i]\<close>, whose result is defined inside the vector only.\<close>

definition vec_at :: "'a list \<Rightarrow> nat \<Rightarrow> 'a result" where
  "vec_at xs i = (if i < length xs then Inr (xs ! i) else Inl OutOfBounds)"

lemma vec_at_in [simp]: "i < length xs \<Longrightarrow> vec_at xs i = Inr (xs ! i)"
  by (simp add: vec_at_def)

lemma vec_at_eq_Inr [result_simps]: "vec_at xs i = Inr x \<longleftrightarrow> i < length xs \<and> x = xs ! i"
  by (auto simp: vec_at_def)

text \<open>\<^verbatim>\<open>v.resize(n)\<close>, new slots value-initialised.\<close>

definition vec_resize :: "'a \<Rightarrow> 'a list \<Rightarrow> nat \<Rightarrow> 'a list" where
  "vec_resize d xs n = take n xs @ replicate (n - length xs) d"

lemma length_vec_resize [simp]: "length (vec_resize d xs n) = n"
  by (simp add: vec_resize_def)

section \<open>Lists\<close>

lemma concat_list_update:
  assumes "i < length xs"
  shows "concat (xs[i := ys]) = concat (take i xs) @ ys @ concat (drop (Suc i) xs)"
  using assms by (simp add: upd_conv_take_nth_drop)

lemma concat_split_at:
  assumes "i < length xs"
  shows "concat xs = concat (take i xs) @ xs ! i @ concat (drop (Suc i) xs)"
  using concat_list_update [OF assms, of "xs ! i"] by simp

lemma concat_replicate_Nil [simp]: "concat (replicate n []) = []"
  by (induction n) auto

lemma filter_concat_empty:
  assumes "\<And>i x. i < length xs \<Longrightarrow> x \<in> set (xs ! i) \<Longrightarrow> \<not> P x"
  shows "filter P (concat xs) = []"
proof -
  have "\<not> P x" if "x \<in> set (concat xs)" for x
    using that assms by (fastforce simp: in_set_conv_nth)
  then show ?thesis
    by (simp add: filter_empty_conv)
qed

text \<open>
  When the elements that satisfy \<open>P\<close> all sit in the list number \<open>i\<close>, filtering the
  concatenation is filtering that list.
\<close>

lemma filter_concat_only:
  assumes "i < length xs"
    and "\<And>j x. j < length xs \<Longrightarrow> j \<noteq> i \<Longrightarrow> x \<in> set (xs ! j) \<Longrightarrow> \<not> P x"
  shows "filter P (concat xs) = filter P (xs ! i)"
proof -
  have "filter P (concat (take i xs)) = []"
  proof (rule filter_concat_empty)
    fix j x
    assume "j < length (take i xs)" and "x \<in> set (take i xs ! j)"
    then show "\<not> P x" using assms(1) assms(2) [of j x] by simp
  qed
  moreover have "filter P (concat (drop (Suc i) xs)) = []"
  proof (rule filter_concat_empty)
    fix j x
    assume "j < length (drop (Suc i) xs)" and "x \<in> set (drop (Suc i) xs ! j)"
    then show "\<not> P x" using assms(1) assms(2) [of "Suc i + j" x] by simp
  qed
  ultimately show ?thesis
    using concat_split_at [OF assms(1)] by simp
qed

text \<open>The first element, if there is one.\<close>

definition hd_opt :: "'a list \<Rightarrow> 'a option" where
  "hd_opt xs = (case xs of [] \<Rightarrow> None | x # _ \<Rightarrow> Some x)"

lemma hd_opt_simps [simp]: "hd_opt [] = None" "hd_opt (x # xs) = Some x"
  by (simp_all add: hd_opt_def)

section \<open>Words\<close>

lemma unat_and_le: "unat ((a :: 'a::len word) AND b) \<le> unat b"
  by (rule word_and_le1 [THEN word_le_nat_alt [THEN iffD1]])

lemma unat_of_nat_small: "n < 2 ^ LENGTH('a) \<Longrightarrow> unat (of_nat n :: 'a::len word) = n"
  by (simp add: unsigned_of_nat take_bit_nat_eq_self)

lemma unat_add_one: "(w :: 'a::len word) + 1 \<noteq> 0 \<Longrightarrow> unat (w + 1) = Suc (unat w)"
  by (metis add.commute unatSuc)

lemma npos_unat: "unat npos = 18446744073709551615"
  by (simp add: npos_def unsigned_minus_1_eq_mask mask_eq_exp_minus_1)

lemma sint_small:
  fixes w :: "'a::len word"
  assumes "unat w < 2 ^ (LENGTH('a) - 1)"
  shows "sint w = int (unat w)"
proof -
  have u: "uint w = int (unat w)" by simp
  have lt: "int (unat w) < 2 ^ (LENGTH('a) - 1)"
    using assms by (metis of_nat_less_iff of_nat_numeral of_nat_power)
  have "sint w = signed_take_bit (LENGTH('a) - 1) (int (unat w))"
    unfolding sint_uint u One_nat_def ..
  also have "\<dots> = int (unat w)"
    using lt by (intro signed_take_bit_int_eq_self) (auto intro: order_trans [of _ 0])
  finally show ?thesis .
qed

end
