(* ===== verification/Interfaces.thy ===== *)
theory Interfaces
  imports VDB_Prelude
begin

text \<open>
  The contracts between components, as locales: the operations a client calls and the laws the
  provider promises.  Each is interpreted on the model of the component that provides it.
\<close>

section \<open>Maps that shadow\<close>

text \<open>
  The contract of \<^verbatim>\<open>HMap\<close> towards the entry manager and the sorted set: a stack of values for
  every key, and a bound on the number of bindings past which an insertion does not return.
\<close>

locale stack_map =
  fixes new_map :: 'm
    and put :: "'k \<Rightarrow> 'v \<Rightarrow> 'm \<Rightarrow> 'm result"
    and get :: "'k \<Rightarrow> 'm \<Rightarrow> ('v option \<times> 'm) result"
    and del :: "'k \<Rightarrow> 'm \<Rightarrow> ('v option \<times> 'm) result"
    and wipe :: "'m \<Rightarrow> 'm"
    and count :: "'m \<Rightarrow> nat"
    and inv :: "'m \<Rightarrow> bool"
    and stack :: "'m \<Rightarrow> 'k \<Rightarrow> 'v list"
    and limit :: nat
  assumes inv_new: "inv new_map" and stack_new: "stack new_map k = []"
    and count_new: "count new_map = 0"
    and put_room: "inv m \<Longrightarrow> count m < limit \<Longrightarrow> \<exists>m'. put k v m = Inr m' \<and> inv m' \<and>
      stack m' = (stack m)(k := v # stack m k) \<and> count m' = Suc (count m)"
    and put_full: "inv m \<Longrightarrow> limit \<le> count m \<Longrightarrow> put k v m = Inl Relock"
    and get_top: "inv m \<Longrightarrow> get k m = Inr (hd_opt (stack m k), m)"
    and del_top: "inv m \<Longrightarrow> \<exists>m'. del k m = Inr (hd_opt (stack m k), m') \<and> inv m' \<and>
      stack m' = (stack m)(k := tl (stack m k)) \<and>
      count m' = count m - (if stack m k = [] then 0 else 1)"
    and values_le: "inv m \<Longrightarrow> finite (\<Union>k. set (stack m k)) \<and> card (\<Union>k. set (stack m k)) \<le> count m"
    and wipe_all: "inv m \<Longrightarrow> inv (wipe m) \<and> stack (wipe m) = (\<lambda>_. []) \<and> count (wipe m) = 0"
begin

lemma put_InrD:
  assumes "inv m" and "put k v m = Inr m'"
  shows "inv m' \<and> stack m' = (stack m)(k := v # stack m k) \<and> count m' = Suc (count m) \<and>
    count m < limit"
  using assms put_full [of m k v] put_room [of m k v] by (cases "count m < limit") auto

lemma put_returns: "inv m \<Longrightarrow> (\<exists>m'. put k v m = Inr m') \<longleftrightarrow> count m < limit"
  using put_full [of m k v] put_room [of m k v] by (cases "count m < limit") auto

lemma put_cases:
  assumes "inv m"
  obtains (room) m' where "put k v m = Inr m'" and "inv m'"
      and "stack m' = (stack m)(k := v # stack m k)" and "count m' = Suc (count m)"
      and "count m < limit"
    | (full) "put k v m = Inl Relock" and "limit \<le> count m"
  using put_full [OF assms, of k v] put_room [OF assms, of k v]
  by (cases "count m < limit") auto

lemma get_put:
  assumes "inv m" and "put k v m = Inr m'"
  shows "get k' m' = Inr (if k' = k then Some v else hd_opt (stack m k'), m')"
  using put_InrD [OF assms] get_top [of m' k'] by simp

lemma del_InrD:
  assumes "inv m" and "del k m = Inr (r, m')"
  shows "r = hd_opt (stack m k) \<and> inv m' \<and> stack m' = (stack m)(k := tl (stack m k)) \<and>
    count m' = count m - (if stack m k = [] then 0 else 1)"
  using assms del_top [of m k] by auto

text \<open>A removal after two insertions of the same key brings the first value back.\<close>

lemma del_uncovers:
  assumes "inv m" and "put k v m = Inr m1" and "put k w m1 = Inr m2"
    and "del k m2 = Inr (r, m3)"
  shows "r = Some w \<and> get k m3 = Inr (Some v, m3)"
proof -
  have m1: "inv m1" "stack m1 = (stack m)(k := v # stack m k)"
    using put_InrD [OF assms(1,2)] by auto
  have m2: "inv m2" "stack m2 = (stack m1)(k := w # stack m1 k)"
    using put_InrD [OF m1(1) assms(3)] by auto
  have "inv m3" "stack m3 = (stack m2)(k := tl (stack m2 k))" "r = hd_opt (stack m2 k)"
    using del_InrD [OF m2(1) assms(4)] by auto
  then show ?thesis
    using get_top [of m3 k] m1(2) m2(2) by simp
qed

end

section \<open>Comparators\<close>

text \<open>
  What the heap asks of its \<^verbatim>\<open>Compare\<close> parameter: a strict weak order.  The negation of
  the reversed comparison is then a total preorder.
\<close>

locale weak_order =
  fixes cmp :: "'v \<Rightarrow> 'v \<Rightarrow> bool"
  assumes cmp_asym: "cmp a b \<Longrightarrow> \<not> cmp b a"
    and cmp_ntrans: "\<not> cmp b a \<Longrightarrow> \<not> cmp c b \<Longrightarrow> \<not> cmp c a"
begin

lemma cmp_irrefl [simp]: "\<not> cmp a a"
  using cmp_asym by blast

lemma cmp_trans_le: "cmp a b \<Longrightarrow> \<not> cmp c b \<Longrightarrow> \<not> cmp c a"
  using cmp_asym cmp_ntrans by blast

end

interpretation less_order: weak_order "(<) :: 'v::linorder \<Rightarrow> 'v \<Rightarrow> bool"
  by unfold_locales auto

section \<open>Queues that give back a least element\<close>

text \<open>The elements that \<open>n\<close> successive removals give.\<close>

primrec drain :: "('q \<Rightarrow> 'x \<times> 'q) \<Rightarrow> nat \<Rightarrow> 'q \<Rightarrow> 'x list" where
  "drain pull 0 q = []"
| "drain pull (Suc n) q = (case pull q of (x, q') \<Rightarrow> x # drain pull n q')"

text \<open>
  The contract of a priority queue whose elements carry a key: \<open>bag\<close> is the multiset of the
  elements, \<open>fresh\<close> the condition under which an element may be added.
\<close>

locale min_queue =
  fixes add :: "'x \<Rightarrow> 'q \<Rightarrow> 'q"
    and pull :: "'q \<Rightarrow> 'x \<times> 'q"
    and inv :: "'q \<Rightarrow> bool"
    and bag :: "'q \<Rightarrow> 'x multiset"
    and fresh :: "'x \<Rightarrow> 'q \<Rightarrow> bool"
    and key :: "'x \<Rightarrow> 'v::linorder"
  assumes add_ok: "inv q \<Longrightarrow> fresh x q \<Longrightarrow> inv (add x q) \<and> bag (add x q) = add_mset x (bag q)"
    and pull_ok: "inv q \<Longrightarrow> bag q \<noteq> {#} \<Longrightarrow> pull q = (x, q') \<Longrightarrow>
      inv q' \<and> bag q = add_mset x (bag q') \<and> (\<forall>y \<in># bag q. key x \<le> key y)"
begin

lemma drain_sorted:
  assumes "inv q" and "size (bag q) = n"
  shows "mset (drain pull n q) = bag q \<and> sorted (map key (drain pull n q))"
  using assms
proof (induction n arbitrary: q)
  case (Suc n)
  obtain x q' where q': "pull q = (x, q')" by (cases "pull q")
  have "bag q \<noteq> {#}" using Suc.prems(2) by auto
  then have ok: "inv q'" "bag q = add_mset x (bag q')" "\<forall>y \<in># bag q. key x \<le> key y"
    using pull_ok [OF Suc.prems(1) _ q'] by auto
  then have IH: "mset (drain pull n q') = bag q'" "sorted (map key (drain pull n q'))"
    using Suc.IH [of q'] Suc.prems(2) by auto
  have "key x \<le> key y" if "y \<in> set (drain pull n q')" for y
  proof -
    have "y \<in># mset (drain pull n q')" using that by simp
    then show ?thesis using ok IH(1) by simp
  qed
  then show ?case using q' ok IH by simp
qed simp

text \<open>Adding an element and then removing one gives the least of all, the new one included.\<close>

lemma pull_add:
  assumes "inv q" and "fresh x q" and "pull (add x q) = (y, q')"
  shows "key y \<le> key x \<and> add_mset x (bag q) = add_mset y (bag q')"
  using add_ok [OF assms(1,2)] pull_ok [OF _ _ assms(3)] by auto

end

section \<open>Maps that overwrite\<close>

text \<open>
  The contract of the tree towards its users: a partial map, with a bound on its number of
  keys below which an insertion is guaranteed to keep the invariant.
\<close>

locale overwriting_map =
  fixes new_map :: 'm
    and put :: "'k \<Rightarrow> 'v \<Rightarrow> 'm \<Rightarrow> 'm result"
    and get :: "'k \<Rightarrow> 'm \<Rightarrow> 'v option"
    and del :: "'k \<Rightarrow> 'm \<Rightarrow> 'm result"
    and has :: "'k \<Rightarrow> 'm \<Rightarrow> bool result"
    and inv :: "'m \<Rightarrow> bool"
    and abs :: "'m \<Rightarrow> 'k \<rightharpoonup> 'v"
    and limit :: nat
  assumes new_ok: "inv new_map \<and> abs new_map = Map.empty"
    and put_ok: "inv m \<Longrightarrow> card (dom (abs m)) < limit \<Longrightarrow>
      \<exists>m'. put k v m = Inr m' \<and> inv m' \<and> abs m' = (abs m)(k \<mapsto> v)"
    and get_ok: "inv m \<Longrightarrow> get k m = abs m k"
    and del_ok: "inv m \<Longrightarrow> \<exists>m'. del k m = Inr m' \<and> inv m' \<and> abs m' = (abs m)(k := None)"
    and has_ok: "inv m \<Longrightarrow> has k m = Inr (k \<in> dom (abs m))"
    and finite_dom: "inv m \<Longrightarrow> finite (dom (abs m))"
begin

lemma get_put:
  assumes "inv m" and "card (dom (abs m)) < limit" and "put k v m = Inr m'"
  shows "get k' m' = (if k' = k then Some v else get k' m)"
  using put_ok [OF assms(1,2), of k v] assms get_ok by auto

lemma get_del:
  assumes "inv m" and "del k m = Inr m'"
  shows "get k' m' = (if k' = k then None else get k' m)"
  using del_ok [OF assms(1), of k] assms get_ok by auto

lemma has_iff_get: "inv m \<Longrightarrow> has k m = Inr (get k m \<noteq> None)"
  using has_ok [of m k] get_ok [of m k] by auto

text \<open>
  A sequence of insertions and removals, an update to a value or to nothing each, applied in
  order: with fewer steps than the bound it returns, and the map is that of the updates.
\<close>

lemma run_ok:
  assumes "inv m" and "card (dom (abs m)) + length us \<le> limit"
  shows "\<exists>m'. fold (\<lambda>(k, u) r. bindR r (case u of Some v \<Rightarrow> put k v | None \<Rightarrow> del k)) us (Inr m) = Inr m' \<and>
    inv m' \<and> abs m' = fold (\<lambda>(k, u) f. f(k := u)) us (abs m)"
  using assms
proof (induction us arbitrary: m)
  case (Cons x us)
  obtain k u where x: "x = (k, u)" by (cases x)
  obtain m1 where m1: "(case u of Some v \<Rightarrow> put k v | None \<Rightarrow> del k) m = Inr m1" "inv m1"
      "abs m1 = (abs m)(k := u)"
    using put_ok [OF Cons.prems(1), of k] del_ok [OF Cons.prems(1), of k] Cons.prems(2)
    by (cases u) auto
  have "dom (abs m1) \<subseteq> insert k (dom (abs m))" using m1(3) by (auto split: if_splits)
  then have "card (dom (abs m1)) \<le> card (insert k (dom (abs m)))"
    using finite_dom [OF Cons.prems(1)] by (intro card_mono) auto
  then have "card (dom (abs m1)) \<le> Suc (card (dom (abs m)))"
    using finite_dom [OF Cons.prems(1)] by (simp add: card_insert_if split: if_splits)
  then have "card (dom (abs m1)) + length us \<le> limit" using Cons.prems(2) by simp
  from Cons.IH [OF m1(2) this] show ?case
    by (simp add: x m1(1) m1(3) [symmetric] del: fun_upd_apply)
qed simp

end

section \<open>Logs\<close>

text \<open>
  The contract of the entry log towards the Raft server: a list of entries with indices from 1,
  extended at its end and cut at an index.
\<close>

locale indexed_log =
  fixes new_log :: 'l
    and ok :: "'l \<Rightarrow> bool"
    and contents :: "'l \<Rightarrow> 'e list"
    and valid :: "'e \<Rightarrow> bool"
    and append :: "'e \<Rightarrow> 'l \<Rightarrow> (int \<times> 'v list \<times> 'l) result"
    and delete :: "int \<Rightarrow> 'l \<Rightarrow> ('v list \<times> 'l) result"
    and get :: "int \<Rightarrow> 'l \<Rightarrow> 'e option result"
    and current :: "'l \<Rightarrow> int"
  assumes new_ok: "ok new_log" and contents_new: "contents new_log = []"
    and append_valid: "ok l \<Longrightarrow> valid e \<Longrightarrow> \<exists>v l'. append e l = Inr (0, v, l') \<and> ok l' \<and>
      contents l' = contents l @ [e]"
    and append_invalid: "\<not> valid e \<Longrightarrow> append e l = Inr (- 1, [], l)"
    and delete_from: "ok l \<Longrightarrow> 1 \<le> i \<Longrightarrow> \<exists>v l'. delete i l = Inr (v, l') \<and> ok l' \<and>
      contents l' = take (nat (i - 1)) (contents l)"
    and get_at: "ok l \<Longrightarrow> 1 \<le> i \<Longrightarrow>
      get i l = Inr (if i \<le> int (length (contents l)) then Some (contents l ! nat (i - 1)) else None)"
    and current_length: "ok l \<Longrightarrow> current l = int (length (contents l))"
begin

lemma append_cases:
  assumes "ok l"
  obtains (appended) v l' where "append e l = Inr (0, v, l')" "valid e" "ok l'" "contents l' = contents l @ [e]"
    | (refused) "append e l = Inr (- 1, [], l)" "\<not> valid e"
proof (cases "valid e")
  case True
  then show ?thesis using append_valid [OF assms, of e] appended by blast
next
  case False
  then show ?thesis using append_invalid [of e l] refused by blast
qed

lemma append_InrD:
  assumes "ok l" "append e l = Inr (r, v, l')"
  shows "ok l' \<and> (r = 0 \<and> valid e \<and> contents l' = contents l @ [e] \<or> r = - 1 \<and> \<not> valid e \<and> l' = l)"
  using append_valid [OF assms(1), of e] append_invalid [of e l] assms by (cases "valid e") auto

lemma delete_InrD:
  assumes "ok l" "1 \<le> i" "delete i l = Inr (v, l')"
  shows "ok l' \<and> contents l' = take (nat (i - 1)) (contents l)"
  using delete_from [OF assms(1,2)] assms(3) by auto

text \<open>Cutting behind the first \<open>k\<close> entries and appending keep these entries.\<close>

lemma delete_keeps:
  assumes "ok l" "int k < i" "delete i l = Inr (v, l')"
  shows "take k (contents l') = take k (contents l)"
proof -
  have "k \<le> nat (i - 1)" using assms(2) by simp
  then show ?thesis using delete_InrD [OF assms(1) _ assms(3)] assms(2) by (simp add: min_absorb1)
qed

lemma append_keeps:
  assumes "ok l" "append e l = Inr (r, v, l')" "k \<le> length (contents l)"
  shows "take k (contents l') = take k (contents l)"
  using append_InrD [OF assms(1,2)] assms(3) by auto

lemma get_append:
  assumes "ok l" "append e l = Inr (0, v, l')"
  shows "get (current l') l' = Inr (Some e)"
  using append_InrD [OF assms] get_at [of l' "current l'"] by (auto simp: current_length nat_add_distrib)

lemma get_SomeD:
  assumes "ok l" "1 \<le> i" "get i l = Inr (Some e)"
  shows "i \<le> current l" "nat (i - 1) < length (contents l)" "e = contents l ! nat (i - 1)"
  using get_at [OF assms(1,2)] assms by (auto simp: current_length split: if_splits)

end

section \<open>Simulation of a partial specification\<close>

text \<open>
  Several components are objects whose client respects a contract: the specification of a
  command is a partial function on the abstract state, undefined where the client breaks the
  contract.  The provider shows that a single command that the contract allows returns and
  leads to a state that represents the specified one; the locale gives the same for every
  sequence of commands.
\<close>

primrec run_calls :: "('c \<Rightarrow> 's \<Rightarrow> 's result) \<Rightarrow> 'c list \<Rightarrow> 's \<Rightarrow> 's result" where
  "run_calls step [] s = Inr s"
| "run_calls step (c # cs) s = bindR (step c s) (run_calls step cs)"

lemma run_calls_append:
  "run_calls step (cs @ ds) s = bindR (run_calls step cs s) (run_calls step ds)"
proof (induction cs arbitrary: s)
  case (Cons c cs)
  then show ?case by (cases "step c s") auto
qed simp

primrec run_contract :: "('c \<Rightarrow> 'q \<Rightarrow> 'q option) \<Rightarrow> 'c list \<Rightarrow> 'q \<Rightarrow> 'q option" where
  "run_contract spec [] q = Some q"
| "run_contract spec (c # cs) q = Option.bind (spec c q) (run_contract spec cs)"

locale contract_simulation =
  fixes step :: "'c \<Rightarrow> 's \<Rightarrow> 's result"
    and spec :: "'c \<Rightarrow> 'q \<Rightarrow> 'q option"
    and repr :: "'s \<Rightarrow> 'q \<Rightarrow> bool"
  assumes step_ok: "repr s q \<Longrightarrow> spec c q = Some q' \<Longrightarrow> \<exists>s'. step c s = Inr s' \<and> repr s' q'"
begin

lemma calls_simulate:
  assumes "repr s q" "run_contract spec cs q = Some q'"
  shows "\<exists>s'. run_calls step cs s = Inr s' \<and> repr s' q'"
  using assms
proof (induction cs arbitrary: s q)
  case (Cons c cs)
  obtain q1 where q1: "spec c q = Some q1" "run_contract spec cs q1 = Some q'"
    using Cons.prems(2) by (auto simp: Option.bind_eq_Some_conv)
  obtain s1 where "step c s = Inr s1" "repr s1 q1"
    using step_ok [OF Cons.prems(1) q1(1)] by blast
  then show ?case using Cons.IH [OF _ q1(2)] by auto
qed simp

text \<open>A run that stops has left the contract.\<close>

lemma failure_breaks_contract:
  assumes "repr s q" "run_calls step cs s = Inl e"
  shows "run_contract spec cs q = None"
proof (rule ccontr)
  assume "run_contract spec cs q \<noteq> None"
  then obtain q' where q': "run_contract spec cs q = Some q'" by blast
  show False using calls_simulate [OF assms(1) q'] assms(2) by auto
qed

end

section \<open>Systems that come to rest\<close>

text \<open>
  A component of several threads, whose own actions are \<open>step\<close> and which is disturbed by actions
  \<open>env\<close>: every action uses up some of \<open>weight\<close>, and as long as the system is not \<open>settled\<close> one of
  its own actions is possible.
\<close>

locale settling =
  fixes step :: "'s \<Rightarrow> 's \<Rightarrow> bool"
    and env :: "'s \<Rightarrow> 's \<Rightarrow> bool"
    and ok :: "'s \<Rightarrow> bool"
    and settled :: "'s \<Rightarrow> bool"
    and weight :: "'s \<Rightarrow> nat"
  assumes step_ok: "ok s \<Longrightarrow> step s s' \<Longrightarrow> ok s' \<and> weight s' < weight s"
    and env_ok: "ok s \<Longrightarrow> env s s' \<Longrightarrow> ok s' \<and> weight s' < weight s"
    and progress: "ok s \<Longrightarrow> \<not> settled s \<Longrightarrow> \<exists>s'. step s s'"
begin

lemma act_ok: "ok s \<Longrightarrow> sup step env s s' \<Longrightarrow> ok s' \<and> weight s' < weight s"
  using step_ok [of s s'] env_ok [of s s'] by auto

lemma acts_ok: "(sup step env)\<^sup>*\<^sup>* s s' \<Longrightarrow> ok s \<Longrightarrow> ok s'"
  by (induction rule: rtranclp_induct) (use act_ok in blast)+

text \<open>A run of \<open>k\<close> actions uses up at least \<open>k\<close>.\<close>

lemma run_bounded:
  assumes "ok (f 0)" "\<And>i. i < k \<Longrightarrow> sup step env (f i) (f (Suc i))"
  shows "ok (f k) \<and> weight (f k) + k \<le> weight (f 0)"
  using assms(2)
proof (induction k)
  case (Suc k)
  then have "ok (f k)" "weight (f k) + k \<le> weight (f 0)" "sup step env (f k) (f (Suc k))" by auto
  then show ?case using act_ok [of "f k" "f (Suc k)"] by simp
qed (use assms(1) in simp)

lemma stuck_settled: "(sup step env)\<^sup>*\<^sup>* s s' \<Longrightarrow> ok s \<Longrightarrow> \<not> (\<exists>t. step s' t) \<Longrightarrow> settled s'"
  using acts_ok progress by blast

lemma reaches_settled:
  assumes "ok s"
  shows "\<exists>s'. step\<^sup>*\<^sup>* s s' \<and> settled s'"
  using assms
proof (induction "weight s" arbitrary: s rule: less_induct)
  case less
  show ?case
  proof (cases "settled s")
    case False
    then obtain t where t: "step s t" using progress less.prems by blast
    then show ?thesis using less.hyps [of t] step_ok [OF less.prems t]
      by (meson converse_rtranclp_into_rtranclp)
  qed auto
qed

end

end
