(* ===== verification/Hash_Table.thy ===== *)
theory Hash_Table
  imports Interfaces
begin

text \<open>
  The chained hash table \<^verbatim>\<open>HTable\<close>, the incrementally resized map \<^verbatim>\<open>HMap\<close> built from two of
  them, and the FNV-1a hash of \<^verbatim>\<open>src/src/dsa/hashtable.hpp\<close>.  The specification of the map is
  a stack of values for every key: an insertion never looks for an existing binding, so it
  shadows it, and a removal uncovers it again.
\<close>

section \<open>The FNV-1a hash\<close>

definition FNV_INITIAL :: u64 where
  "FNV_INITIAL = 0xCBF29CE484222325"

definition FNV_MULTIPLIER :: u64 where
  "FNV_MULTIPLIER = 0x100000001B3"

text \<open>One byte: \<^verbatim>\<open>hash = (hash ^ bytes[i]) * MULTIPLIER\<close>.\<close>

definition fnv_byte :: "u64 \<Rightarrow> u8 \<Rightarrow> u64" where
  "fnv_byte h b = (h XOR ucast b) * FNV_MULTIPLIER"

text \<open>The second loop of \<^verbatim>\<open>hash_key\<close>, one byte at a time.\<close>

fun hash_tail_loop :: "u64 \<Rightarrow> u8 list \<Rightarrow> u64" where
  "hash_tail_loop h [] = h"
| "hash_tail_loop h (b # bs) = hash_tail_loop (fnv_byte h b) bs"

text \<open>The first loop, four bytes at a time while four are left, then the second.\<close>

fun hash_unrolled_loop :: "u64 \<Rightarrow> u8 list \<Rightarrow> u64" where
  "hash_unrolled_loop h (b0 # b1 # b2 # b3 # bs) =
     hash_unrolled_loop (fnv_byte (fnv_byte (fnv_byte (fnv_byte h b0) b1) b2) b3) bs"
| "hash_unrolled_loop h bs = hash_tail_loop h bs"

definition hash_key :: "u8 list \<Rightarrow> u64" where
  "hash_key bytes = hash_unrolled_loop FNV_INITIAL bytes"

text \<open>The bytes of a string, and the overload of \<^verbatim>\<open>hash_key\<close> for strings.\<close>

definition string_bytes :: "string \<Rightarrow> u8 list" where
  "string_bytes s = map of_char s"

definition hash_key_string :: "string \<Rightarrow> u64" where
  "hash_key_string s = hash_key (string_bytes s)"

text \<open>The overload for integral keys: the bytes of a 64-bit key in memory order.\<close>

definition hash_key_u64 :: "u64 \<Rightarrow> u64" where
  "hash_key_u64 n = hash_key (map (\<lambda>i. ucast (drop_bit (8 * i) n)) [0..<8])"

section \<open>HTable\<close>

record ('k, 'v) hnode =
  hn_key :: 'k
  hn_value :: 'v
  hn_hcode :: u64

text \<open>
  A bucket owns its chain through \<^verbatim>\<open>unique_ptr\<close> links, so a chain is a list, head first.
  Every bucket lock is taken and released inside one call and no call nests two of them, so
  the bucket locks have no effect on a single thread and are left out.
\<close>

record ('k, 'v) htable =
  ht_buckets :: "('k, 'v) hnode list list"
  ht_mask :: u64
  ht_size :: nat

definition k_min_cap :: nat where
  "k_min_cap = 4"

text \<open>\<^verbatim>\<open>std::has_single_bit\<close> and \<^verbatim>\<open>std::bit_ceil\<close>.\<close>

fun has_single_bit :: "nat \<Rightarrow> bool" where
  "has_single_bit n = (if n = 0 then False else if n = 1 then True
     else even n \<and> has_single_bit (n div 2))"

declare has_single_bit.simps [simp del]

fun bit_ceil :: "nat \<Rightarrow> nat" where
  "bit_ceil n = (if n \<le> 1 then 1 else 2 * bit_ceil ((n + 1) div 2))"

declare bit_ceil.simps [simp del]

definition htable_default :: "('k, 'v) htable" where
  "htable_default = \<lparr>ht_buckets = [], ht_mask = 0, ht_size = 0\<rparr>"

definition htable_initialize :: "nat \<Rightarrow> ('k, 'v) htable \<Rightarrow> ('k, 'v) htable result" where
  "htable_initialize capacity t =
     (if \<not> has_single_bit capacity then Inl AssertFail
      else let capacity = max capacity k_min_cap
           in Inr (t\<lparr>ht_buckets := vec_resize [] (ht_buckets t) capacity,
                     ht_mask := of_nat capacity - 1, ht_size := 0\<rparr>))"

definition htable_new :: "nat \<Rightarrow> ('k, 'v) htable result" where
  "htable_new initial_size =
     (if initial_size > 0 then htable_initialize (bit_ceil initial_size) htable_default
      else Inr htable_default)"

definition htable_pos :: "('k \<Rightarrow> u64) \<Rightarrow> 'k \<Rightarrow> ('k, 'v) htable \<Rightarrow> nat" where
  "htable_pos hash key t = unat (hash key AND ht_mask t)"

definition htable_insert ::
    "('k \<Rightarrow> u64) \<Rightarrow> 'k \<Rightarrow> 'v \<Rightarrow> ('k, 'v) htable \<Rightarrow> ('k, 'v) htable result" where
  "htable_insert hash key value t =
     bindR (if ht_buckets t = [] then htable_initialize k_min_cap t else Inr t) (\<lambda>t.
       let pos = htable_pos hash key t;
           node = \<lparr>hn_key = key, hn_value = value, hn_hcode = hash key\<rparr>
       in bindR (vec_at (ht_buckets t) pos) (\<lambda>chain.
            Inr (t\<lparr>ht_buckets := (ht_buckets t)[pos := node # chain],
                   ht_size := ht_size t + 1\<rparr>)))"

fun chain_lookup :: "'k \<Rightarrow> ('k, 'v) hnode list \<Rightarrow> ('k, 'v) hnode option" where
  "chain_lookup key [] = None"
| "chain_lookup key (current # rest) =
     (if hn_key current = key then Some current else chain_lookup key rest)"

definition htable_lookup ::
    "('k \<Rightarrow> u64) \<Rightarrow> 'k \<Rightarrow> ('k, 'v) htable \<Rightarrow> ('k, 'v) hnode option result" where
  "htable_lookup hash key t =
     (if ht_buckets t = [] then Inr None
      else bindR (vec_at (ht_buckets t) (htable_pos hash key t))
             (\<lambda>chain. Inr (chain_lookup key chain)))"

text \<open>The unlinking loop of \<^verbatim>\<open>remove\<close>: the removed value and the chain without its node.\<close>

fun chain_remove :: "'k \<Rightarrow> ('k, 'v) hnode list \<Rightarrow> ('v \<times> ('k, 'v) hnode list) option" where
  "chain_remove key [] = None"
| "chain_remove key (current # rest) =
     (if hn_key current = key then Some (hn_value current, rest)
      else map_option (\<lambda>(v, rest'). (v, current # rest')) (chain_remove key rest))"

definition htable_remove ::
    "('k \<Rightarrow> u64) \<Rightarrow> 'k \<Rightarrow> ('k, 'v) htable \<Rightarrow> ('v option \<times> ('k, 'v) htable) result" where
  "htable_remove hash key t =
     (if ht_buckets t = [] then Inr (None, t)
      else let pos = htable_pos hash key t
           in bindR (vec_at (ht_buckets t) pos) (\<lambda>chain.
                case chain_remove key chain of
                  None \<Rightarrow> Inr (None, t)
                | Some (v, chain') \<Rightarrow>
                    Inr (Some v, t\<lparr>ht_buckets := (ht_buckets t)[pos := chain'],
                                   ht_size := ht_size t - 1\<rparr>)))"

text \<open>The scan \<^verbatim>\<open>while (pos < buckets_.size() && !buckets_[pos]) pos++\<close>.\<close>

function skip_empty :: "'a list list \<Rightarrow> nat \<Rightarrow> nat" where
  "skip_empty bs pos =
     (if pos < length bs \<and> bs ! pos = [] then skip_empty bs (Suc pos) else pos)"
  by pat_completeness auto
termination
  by (relation "measure (\<lambda>(bs, pos). length bs - pos)") auto

declare skip_empty.simps [simp del]

definition htable_steal_first_node ::
    "nat \<Rightarrow> ('k, 'v) htable \<Rightarrow> ('k, 'v) hnode option \<times> nat \<times> ('k, 'v) htable" where
  "htable_steal_first_node pos t =
     (let pos = skip_empty (ht_buckets t) pos
      in if pos \<ge> length (ht_buckets t) then (None, pos, t)
         else (Some (hd (ht_buckets t ! pos)), pos,
               t\<lparr>ht_buckets := (ht_buckets t)[pos := tl (ht_buckets t ! pos)],
                 ht_size := ht_size t - 1\<rparr>))"

definition htable_capacity :: "('k, 'v) htable \<Rightarrow> nat" where
  "htable_capacity t = unat (ht_mask t + 1)"

definition htable_empty :: "('k, 'v) htable \<Rightarrow> bool" where
  "htable_empty t \<longleftrightarrow> ht_size t = 0"

definition htable_clear :: "('k, 'v) htable \<Rightarrow> ('k, 'v) htable" where
  "htable_clear t = t\<lparr>ht_buckets := [], ht_size := 0, ht_mask := 0\<rparr>"

section \<open>HMap\<close>

record ('k, 'v) hmap =
  hm_primary :: "('k, 'v) htable"
  hm_temporary :: "('k, 'v) htable option"
  hm_resizing_pos :: nat
  hm_mutex :: mutex

definition max_work :: nat where
  "max_work = 15"

definition k_max_load_factor :: nat where
  "k_max_load_factor = 8"

definition hmap_default :: "('k, 'v) hmap" where
  "hmap_default = \<lparr>hm_primary = htable_default, hm_temporary = None, hm_resizing_pos = 0,
     hm_mutex = Unlocked\<rparr>"

text \<open>
  One round of the migration loop of \<^verbatim>\<open>help_resize\<close> on the temporary table \<open>tt\<close>; the flag
  says whether a node was moved.
\<close>

definition help_resize_round ::
    "('k \<Rightarrow> u64) \<Rightarrow> ('k, 'v) htable \<Rightarrow> ('k, 'v) hmap \<Rightarrow> (bool \<times> ('k, 'v) hmap) result" where
  "help_resize_round hash tt m =
     (case htable_steal_first_node (hm_resizing_pos m) tt of
        (node, pos, tt') \<Rightarrow>
          bindR (case node of
                   Some n \<Rightarrow> bindR (htable_insert hash (hn_key n) (hn_value n) (hm_primary m))
                               (\<lambda>p. Inr (True, p, pos))
                 | None \<Rightarrow> Inr (False, hm_primary m, pos + 1))
            (\<lambda>(moved, p, pos).
               Inr (moved,
                 m\<lparr>hm_primary := p, hm_temporary := Some tt',
                   hm_resizing_pos := (if pos \<ge> htable_capacity tt' then 0 else pos)\<rparr>)))"

partial_function (option) help_resize_loop ::
    "('k \<Rightarrow> u64) \<Rightarrow> nat \<Rightarrow> ('k, 'v) hmap \<Rightarrow> ('k, 'v) hmap result option" where
  "help_resize_loop hash work_done m =
     (case hm_temporary m of
        None \<Rightarrow> Some (Inl NullDeref)
      | Some tt \<Rightarrow>
          if work_done < max_work \<and> \<not> htable_empty tt then
            (case help_resize_round hash tt m of
               Inl e \<Rightarrow> Some (Inl e)
             | Inr (moved, m') \<Rightarrow>
                 help_resize_loop hash (if moved then work_done + 1 else work_done) m')
          else Some (Inr m))"

text \<open>The end of \<^verbatim>\<open>help_resize\<close>: drop the temporary table once it is empty, and unlock.\<close>

definition help_resize_finish :: "('k, 'v) hmap \<Rightarrow> ('k, 'v) hmap" where
  "help_resize_finish m =
     (case hm_temporary m of
        Some tt \<Rightarrow> if htable_empty tt
                  then m\<lparr>hm_temporary := None, hm_resizing_pos := 0, hm_mutex := Unlocked\<rparr>
                  else m\<lparr>hm_mutex := Unlocked\<rparr>
      | None \<Rightarrow> m\<lparr>hm_mutex := Unlocked\<rparr>)"

definition help_resize :: "('k \<Rightarrow> u64) \<Rightarrow> ('k, 'v) hmap \<Rightarrow> ('k, 'v) hmap result" where
  "help_resize hash m =
     (if hm_temporary m = None then Inr m
      else bindR (lock_unique (hm_mutex m)) (\<lambda>l.
             bindR (case help_resize_loop hash 0 (m\<lparr>hm_mutex := l\<rparr>) of
                      None \<Rightarrow> Inl Diverges | Some r \<Rightarrow> r)
               (\<lambda>m. Inr (help_resize_finish m))))"

text \<open>
  \<^verbatim>\<open>start_resize\<close> takes the map mutex itself.  The moved-from primary table is replaced at
  once, so its state in between does not matter.
\<close>

definition start_resize :: "('k, 'v) hmap \<Rightarrow> ('k, 'v) hmap result" where
  "start_resize m =
     bindR (lock_unique (hm_mutex m)) (\<lambda>l.
       if hm_temporary m \<noteq> None then Inl AssertFail
       else bindR (htable_new (htable_capacity (hm_primary m) * 2)) (\<lambda>p.
              Inr (m\<lparr>hm_primary := p, hm_temporary := Some (hm_primary m),
                     hm_resizing_pos := 0, hm_mutex := Unlocked\<rparr>)))"

text \<open>
  The load factor is a quotient of two \<^verbatim>\<open>size_t\<close> values computed in \<^verbatim>\<open>double\<close>; the capacity is
  a power of two, so the comparison with 8 is exact and is written without the division.
\<close>

definition load_exceeded :: "('k, 'v) htable \<Rightarrow> bool" where
  "load_exceeded t \<longleftrightarrow> k_max_load_factor * htable_capacity t \<le> ht_size t"

definition hmap_insert ::
    "('k \<Rightarrow> u64) \<Rightarrow> 'k \<Rightarrow> 'v \<Rightarrow> ('k, 'v) hmap \<Rightarrow> ('k, 'v) hmap result" where
  "hmap_insert hash key value m =
     bindR (lock_unique (hm_mutex m)) (\<lambda>l.
       bindR (if htable_empty (hm_primary m) then htable_new k_min_cap
              else Inr (hm_primary m)) (\<lambda>p.
         let m = m\<lparr>hm_mutex := l, hm_primary := p\<rparr>
         in bindR (if load_exceeded (hm_primary m) then start_resize m else Inr m) (\<lambda>m.
              bindR (htable_insert hash key value (hm_primary m)) (\<lambda>p.
                help_resize hash (m\<lparr>hm_primary := p, hm_mutex := Unlocked\<rparr>)))))"

definition hmap_find ::
    "('k \<Rightarrow> u64) \<Rightarrow> 'k \<Rightarrow> ('k, 'v) hmap \<Rightarrow> ('v option \<times> ('k, 'v) hmap) result" where
  "hmap_find hash key m =
     bindR (help_resize hash m) (\<lambda>m.
       bindR (lock_shared (hm_mutex m)) (\<lambda>l.
         bindR (htable_lookup hash key (hm_primary m)) (\<lambda>node.
           case node of
             Some n \<Rightarrow> Inr (Some (hn_value n), m)
           | None \<Rightarrow>
               (case hm_temporary m of
                  None \<Rightarrow> Inr (None, m)
                | Some tt \<Rightarrow> bindR (htable_lookup hash key tt)
                    (\<lambda>node. Inr (map_option hn_value node, m))))))"

definition hmap_remove ::
    "('k \<Rightarrow> u64) \<Rightarrow> 'k \<Rightarrow> ('k, 'v) hmap \<Rightarrow> ('v option \<times> ('k, 'v) hmap) result" where
  "hmap_remove hash key m =
     bindR (help_resize hash m) (\<lambda>m.
       bindR (lock_unique (hm_mutex m)) (\<lambda>l.
         bindR (htable_remove hash key (hm_primary m)) (\<lambda>(v, p).
           case v of
             Some x \<Rightarrow> Inr (Some x, m\<lparr>hm_primary := p\<rparr>)
           | None \<Rightarrow>
               (case hm_temporary m of
                  None \<Rightarrow> Inr (None, m)
                | Some tt \<Rightarrow> bindR (htable_remove hash key tt)
                    (\<lambda>(v, tt). Inr (v, m\<lparr>hm_temporary := Some tt\<rparr>))))))"

definition hmap_steal_first_node ::
    "nat \<Rightarrow> ('k, 'v) hmap \<Rightarrow> (('k, 'v) hnode option \<times> nat \<times> ('k, 'v) hmap) result" where
  "hmap_steal_first_node pos m =
     bindR (lock_unique (hm_mutex m)) (\<lambda>l.
       case hm_temporary m of
         None \<Rightarrow> Inr (None, pos, m)
       | Some tt \<Rightarrow>
           (case htable_steal_first_node pos tt of
              (node, pos, tt) \<Rightarrow> Inr (node, pos, m\<lparr>hm_temporary := Some tt\<rparr>)))"

definition hmap_size :: "('k, 'v) hmap \<Rightarrow> nat" where
  "hmap_size m = ht_size (hm_primary m)
     + (case hm_temporary m of Some tt \<Rightarrow> ht_size tt | None \<Rightarrow> 0)"

definition hmap_empty :: "('k, 'v) hmap \<Rightarrow> bool" where
  "hmap_empty m \<longleftrightarrow> hmap_size m = 0"

definition hmap_clear :: "('k, 'v) hmap \<Rightarrow> ('k, 'v) hmap" where
  "hmap_clear m = m\<lparr>hm_primary := htable_clear (hm_primary m), hm_temporary := None,
     hm_resizing_pos := 0\<rparr>"

section \<open>Bits\<close>

lemma hash_unrolled_eq_tail: "hash_unrolled_loop h bs = hash_tail_loop h bs"
  by (induction h bs rule: hash_unrolled_loop.induct) simp_all

lemma hash_tail_loop_fold: "hash_tail_loop h bs = fold (\<lambda>b h. fnv_byte h b) bs h"
  by (induction bs arbitrary: h) simp_all

lemma has_single_bit_pow: "has_single_bit (2 ^ k)"
proof (induction k)
  case 0
  show ?case by (simp add: has_single_bit.simps)
next
  case (Suc k)
  then show ?case by (subst has_single_bit.simps) simp
qed

lemma has_single_bit_iff: "has_single_bit n \<longleftrightarrow> (\<exists>k. n = 2 ^ k)"
proof
  show "has_single_bit n \<Longrightarrow> \<exists>k. n = 2 ^ k"
  proof (induction n rule: has_single_bit.induct)
    case (1 n)
    show ?case
    proof (cases "n \<le> 1")
      case True
      with "1.prems" have "n = 2 ^ 0"
        by (auto simp: has_single_bit.simps [of n] le_Suc_eq)
      then show ?thesis ..
    next
      case False
      with "1.prems" have "even n" and "has_single_bit (n div 2)"
        by (auto simp: has_single_bit.simps [of n])
      with "1.IH" False obtain k where "n div 2 = 2 ^ k" by auto
      with \<open>even n\<close> have "n = 2 ^ Suc k" by auto
      then show ?thesis ..
    qed
  qed
qed (auto simp: has_single_bit_pow)

lemma bit_ceil_single: "has_single_bit (bit_ceil n)"
proof (induction n rule: bit_ceil.induct)
  case (1 n)
  show ?case
  proof (cases "n \<le> 1")
    case True
    then show ?thesis by (simp add: bit_ceil.simps [of n] has_single_bit.simps)
  next
    case False
    with "1.IH" obtain k where "bit_ceil ((n + 1) div 2) = 2 ^ k"
      by (auto simp: has_single_bit_iff)
    with False have "bit_ceil n = 2 ^ Suc k" by (simp add: bit_ceil.simps [of n])
    then show ?thesis by (metis has_single_bit_pow)
  qed
qed

lemma bit_ceil_pow: "bit_ceil (2 ^ k) = 2 ^ k"
proof (induction k)
  case 0
  show ?case by (simp add: bit_ceil.simps)
next
  case (Suc k)
  have "(1 :: nat) \<le> 2 ^ k" by simp
  then have "\<not> 2 * 2 ^ k \<le> (1 :: nat)" by linarith
  with Suc show ?case
    unfolding power_Suc by (subst bit_ceil.simps) simp
qed

lemma bit_ceil_of_single: "has_single_bit n \<Longrightarrow> bit_ceil n = n"
  by (auto simp: has_single_bit_iff bit_ceil_pow)

lemma bit_ceil_ge: "n \<le> bit_ceil n"
proof (induction n rule: bit_ceil.induct)
  case (1 n)
  then show ?case by (cases "n \<le> 1") (auto simp: bit_ceil.simps [of n])
qed

section \<open>Contents and well-formedness of a table\<close>

definition ht_nodes :: "('k, 'v) htable \<Rightarrow> ('k, 'v) hnode list" where
  "ht_nodes t = concat (ht_buckets t)"

text \<open>The values bound to a key, newest first.\<close>

definition ht_stack :: "('k, 'v) htable \<Rightarrow> 'k \<Rightarrow> 'v list" where
  "ht_stack t k = map hn_value (filter (\<lambda>n. hn_key n = k) (ht_nodes t))"

definition ht_bindings :: "('k, 'v) htable \<Rightarrow> ('k \<times> 'v) multiset" where
  "ht_bindings t = mset (map (\<lambda>n. (hn_key n, hn_value n)) (ht_nodes t))"

text \<open>
  The type invariant: the counter is the number of nodes, the number of buckets is a power of
  two (at least four) and one more than the mask, and every node sits in the bucket its hash
  selects.
\<close>

definition htable_wf :: "('k \<Rightarrow> u64) \<Rightarrow> ('k, 'v) htable \<Rightarrow> bool" where
  "htable_wf hash t \<longleftrightarrow>
     ht_size t = length (ht_nodes t) \<and> (ht_buckets t = [] \<longrightarrow> ht_mask t = 0) \<and>
     (ht_buckets t \<noteq> [] \<longrightarrow>
        length (ht_buckets t) = htable_capacity t \<and> has_single_bit (length (ht_buckets t)) \<and>
        k_min_cap \<le> length (ht_buckets t)) \<and>
     (\<forall>i < length (ht_buckets t). \<forall>n \<in> set (ht_buckets t ! i).
        hn_hcode n = hash (hn_key n) \<and> htable_pos hash (hn_key n) t = i)"

lemma htable_wf_pos:
  assumes "htable_wf hash t" and "ht_buckets t \<noteq> []"
  shows "htable_pos hash k t < length (ht_buckets t)"
proof -
  have len: "length (ht_buckets t) = unat (ht_mask t + 1)"
    using assms by (simp add: htable_wf_def htable_capacity_def)
  then have "ht_mask t + 1 \<noteq> 0"
    using assms(2) by (metis length_0_conv unat_0)
  with len have "length (ht_buckets t) = Suc (unat (ht_mask t))"
    by (simp add: unat_add_one)
  then show ?thesis
    using unat_and_le [of "hash k" "ht_mask t"] by (simp add: htable_pos_def)
qed

lemma ht_stack_bucket:
  assumes "htable_wf hash t" and "ht_buckets t \<noteq> []"
  shows "ht_stack t k =
    map hn_value (filter (\<lambda>n. hn_key n = k) (ht_buckets t ! htable_pos hash k t))"
proof -
  have "filter (\<lambda>n. hn_key n = k) (concat (ht_buckets t)) =
      filter (\<lambda>n. hn_key n = k) (ht_buckets t ! htable_pos hash k t)"
    using assms htable_wf_pos [OF assms, of k]
    by (intro filter_concat_only) (auto simp: htable_wf_def)
  then show ?thesis by (simp add: ht_stack_def ht_nodes_def)
qed

lemma ht_stack_no_buckets [simp]: "ht_buckets t = [] \<Longrightarrow> ht_stack t k = []"
  by (simp add: ht_stack_def ht_nodes_def)

lemma ht_empty_contents:
  assumes "ht_nodes t = []"
  shows "ht_stack t = (\<lambda>_. [])" and "ht_bindings t = {#}"
  using assms by (auto simp: ht_stack_def ht_bindings_def)

subsection \<open>Construction\<close>

lemma htable_wf_default [simp]: "htable_wf hash htable_default"
  by (simp add: htable_wf_def htable_default_def ht_nodes_def)

lemma ht_nodes_default [simp]: "ht_nodes htable_default = []"
  by (simp add: htable_default_def ht_nodes_def)

text \<open>Sizing an empty table gives a well-formed table with the capacity asked for.\<close>

lemma htable_initialize_ok:
  assumes "has_single_bit c" and "c < 2 ^ 64" and "ht_buckets t = []"
  shows "\<exists>t'. htable_initialize c t = Inr t' \<and> htable_wf hash t' \<and> ht_nodes t' = [] \<and>
    ht_size t' = 0 \<and> length (ht_buckets t') = max c 4 \<and> htable_capacity t' = max c 4"
proof -
  let ?n = "max c 4"
  have n: "?n < 2 ^ 64" using assms(2) by simp
  have "has_single_bit 4" using has_single_bit_pow [of 2] by simp
  then have "has_single_bit ?n" using assms(1) by (simp add: max_def)
  moreover have "unat (of_nat ?n :: u64) = ?n"
    using n by (simp add: unat_of_nat_small)
  ultimately show ?thesis
    using assms
    by (auto simp: htable_initialize_def k_min_cap_def vec_resize_def htable_wf_def
        ht_nodes_def htable_capacity_def Let_def)
qed

lemma htable_new_ok:
  assumes "0 < n" and "bit_ceil n < 2 ^ 64"
  shows "\<exists>t. htable_new n = Inr t \<and> htable_wf hash t \<and> ht_nodes t = [] \<and> ht_size t = 0 \<and>
    length (ht_buckets t) = max (bit_ceil n) 4 \<and> htable_capacity t = max (bit_ceil n) 4"
  using htable_initialize_ok [OF bit_ceil_single assms(2), of htable_default hash] assms(1)
  by (simp add: htable_new_def htable_default_def)

subsection \<open>Insertion, lookup and removal\<close>

lemma htable_pos_update [simp]:
  "htable_pos hash k (t\<lparr>ht_buckets := bs\<rparr>) = htable_pos hash k t"
  "htable_pos hash k (t\<lparr>ht_size := n\<rparr>) = htable_pos hash k t"
  by (simp_all add: htable_pos_def)

lemma htable_capacity_update [simp]:
  "htable_capacity (t\<lparr>ht_buckets := bs\<rparr>) = htable_capacity t"
  "htable_capacity (t\<lparr>ht_size := n\<rparr>) = htable_capacity t"
  by (simp_all add: htable_capacity_def)

text \<open>Replacing one chain by another whose nodes belong to the same bucket.\<close>

lemma htable_wf_set_bucket:
  assumes wf: "htable_wf hash t" and pos: "pos < length (ht_buckets t)"
    and chain: "\<forall>n \<in> set chain. hn_hcode n = hash (hn_key n) \<and> htable_pos hash (hn_key n) t = pos"
    and sz: "sz + length (ht_buckets t ! pos) = ht_size t + length chain"
  shows "htable_wf hash (t\<lparr>ht_buckets := (ht_buckets t)[pos := chain], ht_size := sz\<rparr>)"
proof -
  have "length (concat (ht_buckets t)) = ht_size t"
    using wf by (simp add: htable_wf_def ht_nodes_def)
  then have "sz = length (concat ((ht_buckets t)[pos := chain]))"
    using sz pos by (simp add: concat_list_update concat_split_at [OF pos])
  with wf pos chain show ?thesis
    by (auto simp: htable_wf_def ht_nodes_def nth_list_update)
qed

lemma ht_stack_set_bucket:
  assumes pos: "pos < length (ht_buckets t)"
    and same: "\<And>k'. k' \<noteq> k \<Longrightarrow> filter (\<lambda>n. hn_key n = k') chain =
      filter (\<lambda>n. hn_key n = k') (ht_buckets t ! pos)"
    and "k' \<noteq> k"
  shows "ht_stack (t\<lparr>ht_buckets := (ht_buckets t)[pos := chain], ht_size := sz\<rparr>) k' =
    ht_stack t k'"
  using same [OF assms(3)]
  by (simp add: ht_stack_def ht_nodes_def concat_list_update [OF pos] concat_split_at [OF pos])

lemma htable_insert_nonempty:
  assumes wf: "htable_wf hash t" and ne: "ht_buckets t \<noteq> []"
  obtains t' where "htable_insert hash k v t = Inr t'" and "htable_wf hash t'"
    and "ht_size t' = Suc (ht_size t)" and "ht_stack t' = (ht_stack t)(k := v # ht_stack t k)"
    and "ht_bindings t' = add_mset (k, v) (ht_bindings t)"
    and "htable_capacity t' = htable_capacity t" and "ht_buckets t' \<noteq> []"
proof -
  let ?pos = "htable_pos hash k t"
  let ?node = "\<lparr>hn_key = k, hn_value = v, hn_hcode = hash k\<rparr>"
  let ?t = "t\<lparr>ht_buckets := (ht_buckets t)[?pos := ?node # ht_buckets t ! ?pos],
              ht_size := ht_size t + 1\<rparr>"
  have pos: "?pos < length (ht_buckets t)" by (rule htable_wf_pos [OF wf ne])
  have wf': "htable_wf hash ?t"
    using wf pos by (intro htable_wf_set_bucket) (auto simp: htable_wf_def)
  have "ht_stack ?t k' = ((ht_stack t)(k := v # ht_stack t k)) k'" for k'
  proof (cases "k' = k")
    case True
    then show ?thesis
      using ht_stack_bucket [OF wf', of k] ht_stack_bucket [OF wf ne, of k] pos ne
      by simp
  next
    case False
    then show ?thesis
      using ht_stack_set_bucket [OF pos, of k "?node # ht_buckets t ! ?pos" k'] by simp
  qed
  then have stack: "ht_stack ?t = (ht_stack t)(k := v # ht_stack t k)" by (rule ext)
  have "ht_bindings ?t = add_mset (k, v) (ht_bindings t)"
    using pos by (simp add: ht_bindings_def ht_nodes_def concat_list_update concat_split_at [OF pos])
  moreover have "htable_insert hash k v t = Inr ?t"
    using ne pos by (simp add: htable_insert_def Let_def)
  ultimately show thesis
    using wf' stack ne by (intro that [of ?t]) auto
qed

lemma htable_insert_ok:
  assumes wf: "htable_wf hash t"
  obtains t' where "htable_insert hash k v t = Inr t'" and "htable_wf hash t'"
    and "ht_size t' = Suc (ht_size t)" and "ht_stack t' = (ht_stack t)(k := v # ht_stack t k)"
    and "ht_bindings t' = add_mset (k, v) (ht_bindings t)" and "ht_buckets t' \<noteq> []"
    and "ht_buckets t \<noteq> [] \<Longrightarrow> htable_capacity t' = htable_capacity t"
proof (cases "ht_buckets t = []")
  case False
  then show thesis using htable_insert_nonempty [OF wf False, of k v] that by metis
next
  case True
  have "has_single_bit k_min_cap" and "k_min_cap < 2 ^ 64"
    using has_single_bit_pow [of 2] by (simp_all add: k_min_cap_def)
  then obtain t0 where t0: "htable_initialize k_min_cap t = Inr t0" "htable_wf hash t0"
      "ht_nodes t0 = []" "ht_size t0 = 0" "length (ht_buckets t0) = max k_min_cap 4"
    using htable_initialize_ok [OF _ _ True, of k_min_cap hash] by blast
  then have ne: "ht_buckets t0 \<noteq> []" by auto
  have "htable_insert hash k v t = htable_insert hash k v t0"
    using True t0(1) ne by (simp add: htable_insert_def)
  moreover have "ht_nodes t = []" using True by (simp add: ht_nodes_def)
  then have "ht_size t = ht_size t0" "ht_stack t = ht_stack t0" "ht_bindings t = ht_bindings t0"
    using wf t0 by (simp_all add: htable_wf_def ht_empty_contents)
  ultimately show thesis
    using htable_insert_nonempty [OF t0(2) ne, of k v] that True by metis
qed

lemma chain_lookup_stack:
  "map_option hn_value (chain_lookup k chain) =
     (case map hn_value (filter (\<lambda>n. hn_key n = k) chain) of [] \<Rightarrow> None | v # _ \<Rightarrow> Some v)"
  by (induction chain) auto

text \<open>A lookup returns the newest value bound to the key.\<close>

lemma htable_lookup_ok:
  assumes "htable_wf hash t"
  obtains r where "htable_lookup hash k t = Inr r"
    and "map_option hn_value r = (case ht_stack t k of [] \<Rightarrow> None | v # _ \<Rightarrow> Some v)"
proof (cases "ht_buckets t = []")
  case True
  then show thesis by (intro that [of None]) (simp_all add: htable_lookup_def)
next
  case False
  have pos: "htable_pos hash k t < length (ht_buckets t)"
    by (rule htable_wf_pos [OF assms False])
  show thesis
    using False pos
    by (intro that [of "chain_lookup k (ht_buckets t ! htable_pos hash k t)"])
      (simp_all add: htable_lookup_def ht_stack_bucket [OF assms False] chain_lookup_stack)
qed

lemma chain_remove_None: "chain_remove k chain = None \<longleftrightarrow> filter (\<lambda>n. hn_key n = k) chain = []"
  by (induction chain) auto

lemma chain_remove_Some:
  assumes "chain_remove k chain = Some (v, chain')"
  shows "map hn_value (filter (\<lambda>n. hn_key n = k) chain) =
           v # map hn_value (filter (\<lambda>n. hn_key n = k) chain')"
    and "k' \<noteq> k \<Longrightarrow> filter (\<lambda>n. hn_key n = k') chain' = filter (\<lambda>n. hn_key n = k') chain"
    and "set chain' \<subseteq> set chain" and "length chain = Suc (length chain')"
  using assms by (induction chain arbitrary: chain') (auto split: if_splits)

text \<open>A removal takes the newest value of the key away, and nothing else.\<close>

lemma htable_remove_ok:
  assumes wf: "htable_wf hash t"
  obtains r t' where "htable_remove hash k t = Inr (r, t')" and "htable_wf hash t'"
    and "r = (case ht_stack t k of [] \<Rightarrow> None | v # _ \<Rightarrow> Some v)"
    and "ht_stack t' = (ht_stack t)(k := tl (ht_stack t k))"
    and "ht_size t' = ht_size t - (if r = None then 0 else 1)"
    and "htable_capacity t' = htable_capacity t"
    and "ht_buckets t' = [] \<longleftrightarrow> ht_buckets t = []"
proof (cases "ht_stack t k")
  case Nil
  have "htable_remove hash k t = Inr (None, t)"
  proof (cases "ht_buckets t = []")
    case True
    then show ?thesis by (simp add: htable_remove_def)
  next
    case False
    then have "chain_remove k (ht_buckets t ! htable_pos hash k t) = None"
      using Nil by (simp add: chain_remove_None ht_stack_bucket [OF wf False])
    then show ?thesis
      using False htable_wf_pos [OF wf False, of k] by (simp add: htable_remove_def Let_def)
  qed
  then show thesis using Nil wf by (intro that [of None t]) (auto simp: fun_eq_iff)
next
  case (Cons v vs)
  then have ne: "ht_buckets t \<noteq> []" by auto
  let ?pos = "htable_pos hash k t"
  have pos: "?pos < length (ht_buckets t)" by (rule htable_wf_pos [OF wf ne])
  obtain w chain' where rm: "chain_remove k (ht_buckets t ! ?pos) = Some (w, chain')"
    using Cons chain_remove_None [of k "ht_buckets t ! ?pos"]
    by (cases "chain_remove k (ht_buckets t ! ?pos)") (auto simp: ht_stack_bucket [OF wf ne])
  note rm' = chain_remove_Some [OF rm]
  let ?t = "t\<lparr>ht_buckets := (ht_buckets t)[?pos := chain'], ht_size := ht_size t - 1\<rparr>"
  have "0 < ht_size t"
    using wf rm'(4) pos by (auto simp: htable_wf_def ht_nodes_def concat_split_at [OF pos])
  then have wf': "htable_wf hash ?t"
    using wf pos rm'(3,4) by (intro htable_wf_set_bucket) (auto simp: htable_wf_def)
  have "ht_stack ?t k' = ((ht_stack t)(k := tl (ht_stack t k))) k'" for k'
  proof (cases "k' = k")
    case True
    then show ?thesis
      using ht_stack_bucket [OF wf', of k] ht_stack_bucket [OF wf ne, of k] pos ne rm'(1)
      by simp
  next
    case False
    then show ?thesis
      using ht_stack_set_bucket [OF pos, of k chain' k'] rm'(2) by simp
  qed
  then have stack: "ht_stack ?t = (ht_stack t)(k := tl (ht_stack t k))" by (rule ext)
  have "htable_remove hash k t = Inr (Some w, ?t)"
    using ne pos rm by (simp add: htable_remove_def Let_def)
  moreover have "w = v"
    using Cons rm'(1) by (simp add: ht_stack_bucket [OF wf ne])
  ultimately show thesis
    using Cons wf' stack ne by (intro that [of "Some w" ?t]) auto
qed


subsection \<open>Taking the first node\<close>

lemma skip_empty_ge: "pos \<le> skip_empty bs pos"
proof (induction bs pos rule: skip_empty.induct)
  case (1 bs pos)
  then show ?case by (cases "pos < length bs \<and> bs ! pos = []") (auto simp: skip_empty.simps [of bs pos])
qed

lemma skip_empty_skipped: "pos \<le> i \<Longrightarrow> i < skip_empty bs pos \<Longrightarrow> bs ! i = []"
proof (induction bs pos rule: skip_empty.induct)
  case (1 bs pos)
  then show ?case
    by (cases "pos < length bs \<and> bs ! pos = []"; cases "i = pos")
      (auto simp: skip_empty.simps [of bs pos])
qed

lemma skip_empty_stop: "skip_empty bs pos < length bs \<Longrightarrow> bs ! skip_empty bs pos \<noteq> []"
proof (induction bs pos rule: skip_empty.induct)
  case (1 bs pos)
  then show ?case
    by (cases "pos < length bs \<and> bs ! pos = []") (auto simp: skip_empty.simps [of bs pos])
qed

text \<open>From position 0 a node is always found in a non-empty table.\<close>

lemma skip_empty_found:
  assumes "concat bs \<noteq> []"
  shows "skip_empty bs 0 < length bs"
proof (rule ccontr)
  assume "\<not> skip_empty bs 0 < length bs"
  then have "bs ! i = []" if "i < length bs" for i
    using that skip_empty_skipped [of 0 i bs] by simp
  then have "concat bs = []" by (auto simp: in_set_conv_nth)
  with assms show False ..
qed

lemma htable_steal_Some:
  assumes wf: "htable_wf hash t" and st: "htable_steal_first_node pos t = (Some n, pos', t')"
  shows "htable_wf hash t'" and "ht_size t = Suc (ht_size t')"
    and "ht_bindings t = add_mset (hn_key n, hn_value n) (ht_bindings t')"
proof -
  let ?p = "skip_empty (ht_buckets t) pos"
  have p: "?p < length (ht_buckets t)"
    using st by (auto simp: htable_steal_first_node_def Let_def split: if_splits)
  then obtain chain where chain: "ht_buckets t ! ?p = n # chain"
    using st skip_empty_stop [OF p]
    by (cases "ht_buckets t ! ?p") (auto simp: htable_steal_first_node_def Let_def)
  have t': "t' = t\<lparr>ht_buckets := (ht_buckets t)[?p := chain], ht_size := ht_size t - 1\<rparr>"
    using st p chain by (auto simp: htable_steal_first_node_def Let_def)
  have pos: "0 < ht_size t"
    using wf chain p by (simp add: htable_wf_def ht_nodes_def concat_split_at [OF p])
  then show "htable_wf hash t'"
    unfolding t' using wf p chain
    by (intro htable_wf_set_bucket) (fastforce simp: htable_wf_def)+
  show "ht_size t = Suc (ht_size t')" using pos t' by simp
  show "ht_bindings t = add_mset (hn_key n, hn_value n) (ht_bindings t')"
    using p chain
    by (simp add: t' ht_bindings_def ht_nodes_def concat_list_update concat_split_at [OF p])
qed

lemma htable_steal_None:
  assumes "htable_steal_first_node pos t = (None, pos', t')"
  shows "t' = t" and "length (ht_buckets t) \<le> pos'" and "ht_nodes t \<noteq> [] \<Longrightarrow> 0 < pos"
  using assms skip_empty_found [of "ht_buckets t"]
  by (auto simp: htable_steal_first_node_def ht_nodes_def Let_def split: if_splits)
    (metis gr0I leD)

section \<open>Contents and well-formedness of a map\<close>

definition opt_table :: "('k, 'v) htable option \<Rightarrow> ('k, 'v) htable" where
  "opt_table ot = (case ot of None \<Rightarrow> htable_default | Some t \<Rightarrow> t)"

lemma opt_table_simps [simp]: "opt_table None = htable_default" "opt_table (Some t) = t"
  by (simp_all add: opt_table_def)

definition hm_stack :: "('k, 'v) hmap \<Rightarrow> 'k \<Rightarrow> 'v list" where
  "hm_stack m k = ht_stack (hm_primary m) k @ ht_stack (opt_table (hm_temporary m)) k"

definition hm_bindings :: "('k, 'v) hmap \<Rightarrow> ('k \<times> 'v) multiset" where
  "hm_bindings m = ht_bindings (hm_primary m) + ht_bindings (opt_table (hm_temporary m))"

definition hmap_wf :: "('k \<Rightarrow> u64) \<Rightarrow> ('k, 'v) hmap \<Rightarrow> bool" where
  "hmap_wf hash m \<longleftrightarrow>
     htable_wf hash (hm_primary m) \<and> htable_wf hash (opt_table (hm_temporary m))"

lemma ht_stack_default [simp]: "ht_stack htable_default = (\<lambda>_. [])"
  by (rule ht_empty_contents) simp

lemma ht_bindings_default [simp]: "ht_bindings htable_default = {#}"
  by (rule ht_empty_contents) simp

lemma ht_size_default [simp]: "ht_size htable_default = 0"
  by (simp add: htable_default_def)

lemma hmap_size_opt: "hmap_size m = ht_size (hm_primary m) + ht_size (opt_table (hm_temporary m))"
  by (simp add: hmap_size_def split: option.split)

lemma mset_ht_stack:
  "mset (ht_stack t k) = image_mset snd (filter_mset (\<lambda>b. fst b = k) (ht_bindings t))"
  by (simp add: ht_stack_def ht_bindings_def filter_map comp_def
      flip: mset_filter mset_map)

lemma mset_hm_stack:
  "mset (hm_stack m k) = image_mset snd (filter_mset (\<lambda>b. fst b = k) (hm_bindings m))"
  by (simp add: hm_stack_def hm_bindings_def mset_ht_stack)

lemma size_ht_bindings: "htable_wf hash t \<Longrightarrow> size (ht_bindings t) = ht_size t"
  by (simp add: htable_wf_def ht_bindings_def)

lemma size_hm_bindings: "hmap_wf hash m \<Longrightarrow> size (hm_bindings m) = hmap_size m"
  by (simp add: hm_bindings_def hmap_size_opt hmap_wf_def size_ht_bindings [of hash])

section \<open>Migration\<close>

text \<open>
  One round of the migration: it moves a node to the primary table, or, with the cursor past
  the last node, sends the cursor back to the start.
\<close>

lemma help_resize_round_ok:
  assumes wf: "htable_wf hash (hm_primary m)" "htable_wf hash tt"
    and tt: "hm_temporary m = Some tt" and ne: "\<not> htable_empty tt"
  obtains moved m' tt' where "help_resize_round hash tt m = Inr (moved, m')"
    and "hm_temporary m' = Some tt'" and "htable_wf hash (hm_primary m')" and "htable_wf hash tt'"
    and "hm_bindings m' = hm_bindings m" and "hm_mutex m' = hm_mutex m"
    and "moved \<Longrightarrow> ht_size tt = Suc (ht_size tt')"
    and "\<not> moved \<Longrightarrow> tt' = tt \<and> hm_resizing_pos m \<noteq> 0 \<and> hm_resizing_pos m' = 0"
proof -
  obtain r pos tt' where st: "htable_steal_first_node (hm_resizing_pos m) tt = (r, pos, tt')"
    by (metis prod_cases3)
  show thesis
  proof (cases r)
    case (Some n)
    note steal = htable_steal_Some [OF wf(2), of "hm_resizing_pos m" n pos tt']
    obtain p where p: "htable_insert hash (hn_key n) (hn_value n) (hm_primary m) = Inr p"
        "htable_wf hash p"
        "ht_bindings p = add_mset (hn_key n, hn_value n) (ht_bindings (hm_primary m))"
      using htable_insert_ok [OF wf(1), of "hn_key n" "hn_value n"] by metis
    show thesis
      using st Some p steal tt
      by (intro that [of True "m\<lparr>hm_primary := p, hm_temporary := Some tt',
          hm_resizing_pos := (if pos \<ge> htable_capacity tt' then 0 else pos)\<rparr>" tt'])
        (auto simp: help_resize_round_def hm_bindings_def)
  next
    case None
    note steal = htable_steal_None [of "hm_resizing_pos m" tt pos tt']
    have nodes: "ht_nodes tt \<noteq> []"
      using wf(2) ne by (auto simp: htable_empty_def htable_wf_def)
    then have "ht_buckets tt \<noteq> []" by (auto simp: ht_nodes_def)
    then have "htable_capacity tt \<le> pos + 1"
      using wf(2) steal(2) st None by (simp add: htable_wf_def)
    then show thesis
      using st None steal tt nodes wf
      by (intro that [of False "m\<lparr>hm_temporary := Some tt, hm_resizing_pos := 0\<rparr>" tt])
        (auto simp: help_resize_round_def hm_bindings_def)
  qed
qed

text \<open>
  The migration loop ends, whatever the position of the cursor, and moves as many nodes as the
  work bound leaves, or all of them.
\<close>

lemma help_resize_loop_ok:
  assumes "htable_wf hash (hm_primary m)" and "htable_wf hash tt"
    and "hm_temporary m = Some tt" and "work \<le> max_work"
  shows "\<exists>m' tt'. help_resize_loop hash work m = Some (Inr m') \<and> hm_temporary m' = Some tt' \<and>
    htable_wf hash (hm_primary m') \<and> htable_wf hash tt' \<and> hm_bindings m' = hm_bindings m \<and>
    hm_mutex m' = hm_mutex m \<and> ht_size tt' = ht_size tt - (max_work - work)"
  using assms
proof (induction "2 * (max_work - work) + (if hm_resizing_pos m = 0 then 0 else 1 :: nat)"
    arbitrary: work m tt rule: less_induct)
  case less
  show ?case
  proof (cases "work < max_work \<and> \<not> htable_empty tt")
    case False
    then have "help_resize_loop hash work m = Some (Inr m)"
      using less.prems(3) by (auto simp: help_resize_loop.simps [of hash work m])
    moreover have "ht_size tt = ht_size tt - (max_work - work)"
      using False less.prems(4) by (auto simp: htable_empty_def)
    ultimately show ?thesis using less.prems by blast
  next
    case True
    obtain moved m1 tt1 where round: "help_resize_round hash tt m = Inr (moved, m1)"
        "hm_temporary m1 = Some tt1" "htable_wf hash (hm_primary m1)" "htable_wf hash tt1"
        "hm_bindings m1 = hm_bindings m" "hm_mutex m1 = hm_mutex m"
        "moved \<Longrightarrow> ht_size tt = Suc (ht_size tt1)"
        "\<not> moved \<Longrightarrow> tt1 = tt \<and> hm_resizing_pos m \<noteq> 0 \<and> hm_resizing_pos m1 = 0"
      using help_resize_round_ok [OF less.prems(1-3)] True by blast
    let ?w = "if moved then work + 1 else work"
    have loop: "help_resize_loop hash work m = help_resize_loop hash ?w m1"
      using True less.prems(3) round(1) by (simp add: help_resize_loop.simps [of hash work m])
    have small: "2 * (max_work - ?w) + (if hm_resizing_pos m1 = 0 then 0 else 1) <
        2 * (max_work - work) + (if hm_resizing_pos m = 0 then 0 else 1 :: nat)"
      using True round(8) by auto
    have "?w \<le> max_work" using True by auto
    from less.hyps [OF small round(3,4,2) this] loop round(5,6,7,8) True show ?thesis
      by (cases moved) (auto simp: Suc_diff_Suc)
  qed
qed

lemma help_resize_ok:
  assumes wf: "hmap_wf hash m" and "hm_mutex m = Unlocked"
  obtains m' where "help_resize hash m = Inr m'" and "hmap_wf hash m'"
    and "hm_mutex m' = Unlocked" and "hm_bindings m' = hm_bindings m"
    and "ht_size (opt_table (hm_temporary m')) = ht_size (opt_table (hm_temporary m)) - max_work"
    and "hm_temporary m = None \<Longrightarrow> m' = m"
    and "hm_temporary m' \<noteq> None \<Longrightarrow> ht_size (opt_table (hm_temporary m')) \<noteq> 0"
proof (cases "hm_temporary m")
  case None
  then show thesis using assms by (intro that [of m]) (auto simp: help_resize_def)
next
  case (Some tt)
  let ?m = "m\<lparr>hm_mutex := UniqueLock\<rparr>"
  obtain m1 tt1 where loop: "help_resize_loop hash 0 ?m = Some (Inr m1)"
      "hm_temporary m1 = Some tt1" "htable_wf hash (hm_primary m1)" "htable_wf hash tt1"
      "hm_bindings m1 = hm_bindings ?m" "ht_size tt1 = ht_size tt - max_work"
    using help_resize_loop_ok [of hash ?m tt 0] wf Some by (auto simp: hmap_wf_def)
  have b: "hm_bindings ?m = hm_bindings m" by (simp add: hm_bindings_def)
  have "ht_bindings tt1 = {#}" if "htable_empty tt1"
    using that loop(4) by (auto simp: htable_empty_def htable_wf_def ht_empty_contents)
  then show thesis
    using loop Some assms(2) b
    by (intro that [of "help_resize_finish m1"])
      (auto simp: help_resize_def help_resize_finish_def hmap_wf_def hm_bindings_def htable_empty_def)
qed

section \<open>The map as a stack of values for every key\<close>

text \<open>The number of bindings at which the load factor of four buckets reaches its bound.\<close>

definition hmap_limit :: nat where
  "hmap_limit = k_max_load_factor * k_min_cap"

lemma hmap_limit_eq: "hmap_limit = 32"
  by (simp add: hmap_limit_def k_max_load_factor_def k_min_cap_def)

text \<open>
  A map between two calls: no migration under way, the mutex free, four buckets.  Every
  operation that returns keeps it, since a resize is always started with the mutex held.
\<close>

definition hmap_stable :: "('k \<Rightarrow> u64) \<Rightarrow> ('k, 'v) hmap \<Rightarrow> bool" where
  "hmap_stable hash m \<longleftrightarrow>
     htable_wf hash (hm_primary m) \<and> hm_temporary m = None \<and> hm_mutex m = Unlocked \<and>
     (ht_buckets (hm_primary m) \<noteq> [] \<longrightarrow> htable_capacity (hm_primary m) = k_min_cap)"

lemma hmap_stable_default [simp]: "hmap_stable hash hmap_default"
  by (simp add: hmap_stable_def hmap_default_def htable_default_def htable_wf_def ht_nodes_def)

lemma hmap_stable_stack: "hmap_stable hash m \<Longrightarrow> hm_stack m = ht_stack (hm_primary m)"
  by (simp add: hmap_stable_def hm_stack_def fun_eq_iff)

lemma hmap_stable_size: "hmap_stable hash m \<Longrightarrow> hmap_size m = ht_size (hm_primary m)"
  by (simp add: hmap_stable_def hmap_size_def)

lemma start_resize_held: "hm_mutex m = UniqueLock \<Longrightarrow> start_resize m = Inl Relock"
  by (simp add: start_resize_def)

lemma htable_new_k_min_cap:
  obtains t :: "('k, 'v) htable" where "htable_new k_min_cap = Inr t" and "htable_wf hash t" and "ht_nodes t = []"
    and "ht_size t = 0" and "ht_buckets t \<noteq> []" and "htable_capacity t = k_min_cap"
proof -
  have "bit_ceil k_min_cap = k_min_cap"
    using bit_ceil_pow [of 2] by (simp add: k_min_cap_def)
  then obtain t :: "('k, 'v) htable" where "htable_new k_min_cap = Inr t" "htable_wf hash t"
      "ht_nodes t = []" "ht_size t = 0" "length (ht_buckets t) = 4" "htable_capacity t = 4"
    using htable_new_ok [of k_min_cap hash] by (auto simp: k_min_cap_def)
  then show thesis by (intro that [of t]) (auto simp: k_min_cap_def)
qed

text \<open>The primary table an insertion works on: the old one, or a new one if that is empty.\<close>

lemma hmap_insert_table:
  assumes st: "hmap_stable hash m"
  obtains p where "(if htable_empty (hm_primary m) then htable_new k_min_cap
      else Inr (hm_primary m)) = Inr p"
    and "htable_wf hash p" and "ht_buckets p \<noteq> []" and "htable_capacity p = k_min_cap"
    and "ht_stack p = ht_stack (hm_primary m)" and "ht_size p = ht_size (hm_primary m)"
proof (cases "htable_empty (hm_primary m)")
  case True
  obtain t :: "('a, 'b) htable" where "htable_new k_min_cap = Inr t" "htable_wf hash t"
      "ht_nodes t = []" "ht_size t = 0" "ht_buckets t \<noteq> []" "htable_capacity t = k_min_cap"
    by (rule htable_new_k_min_cap)
  moreover have "ht_nodes (hm_primary m) = []" "ht_size (hm_primary m) = 0"
    using True st by (auto simp: htable_empty_def hmap_stable_def htable_wf_def)
  ultimately show thesis
    using True by (intro that [of t]) (simp_all add: ht_empty_contents)
next
  case False
  then have "ht_buckets (hm_primary m) \<noteq> []"
    using st by (auto simp: htable_empty_def hmap_stable_def htable_wf_def ht_nodes_def)
  then show thesis
    using False st by (intro that [of "hm_primary m"]) (auto simp: hmap_stable_def)
qed

lemma hmap_insert_ok:
  assumes st: "hmap_stable hash m" and room: "hmap_size m < hmap_limit"
  obtains m' where "hmap_insert hash k v m = Inr m'" and "hmap_stable hash m'"
    and "hm_stack m' = (hm_stack m)(k := v # hm_stack m k)" and "hmap_size m' = Suc (hmap_size m)"
proof -
  obtain p where p: "(if htable_empty (hm_primary m) then htable_new k_min_cap
      else Inr (hm_primary m)) = Inr p"
    "htable_wf hash p" "ht_buckets p \<noteq> []" "htable_capacity p = k_min_cap"
    "ht_stack p = ht_stack (hm_primary m)" "ht_size p = ht_size (hm_primary m)"
    by (rule hmap_insert_table [OF st])
  obtain p' where p': "htable_insert hash k v p = Inr p'" "htable_wf hash p'"
      "ht_size p' = Suc (ht_size p)" "ht_stack p' = (ht_stack p)(k := v # ht_stack p k)"
      "htable_capacity p' = htable_capacity p" "ht_buckets p' \<noteq> []"
    by (rule htable_insert_nonempty [OF p(2,3), of k v])
  have "\<not> load_exceeded p"
    using room p st by (simp add: load_exceeded_def hmap_limit_def hmap_stable_size)
  then have ins: "hmap_insert hash k v m = Inr (m\<lparr>hm_mutex := Unlocked, hm_primary := p'\<rparr>)"
    using st p(1) p'(1) by (simp add: hmap_insert_def hmap_stable_def help_resize_def Let_def)
  let ?m = "m\<lparr>hm_mutex := Unlocked, hm_primary := p'\<rparr>"
  have st': "hmap_stable hash ?m" using st p p' by (simp add: hmap_stable_def)
  show thesis
    using ins st' p p' hmap_stable_stack [OF st] hmap_stable_stack [OF st']
      hmap_stable_size [OF st] hmap_stable_size [OF st']
    by (intro that [of ?m]) simp_all
qed

lemma hmap_insert_full:
  assumes st: "hmap_stable hash m" and full: "hmap_limit \<le> hmap_size m"
  shows "hmap_insert hash k v m = Inl Relock"
proof -
  obtain p where p: "(if htable_empty (hm_primary m) then htable_new k_min_cap
      else Inr (hm_primary m)) = Inr p"
    "htable_capacity p = k_min_cap" "ht_size p = ht_size (hm_primary m)"
    by (rule hmap_insert_table [OF st])
  have "load_exceeded p"
    using full p st by (simp add: load_exceeded_def hmap_limit_def hmap_stable_size)
  then show ?thesis
    using st p(1) by (simp add: hmap_insert_def hmap_stable_def start_resize_held Let_def)
qed

lemma hmap_find_ok:
  assumes st: "hmap_stable hash m"
  shows "hmap_find hash k m = Inr (hd_opt (hm_stack m k), m)"
proof -
  obtain r where r: "htable_lookup hash k (hm_primary m) = Inr r"
      "map_option hn_value r = hd_opt (hm_stack m k)"
    using htable_lookup_ok [of hash "hm_primary m" k] st
    by (auto simp: hmap_stable_def hd_opt_def hmap_stable_stack [OF st])
  then show ?thesis
    using st by (cases r) (auto simp: hmap_find_def hmap_stable_def help_resize_def)
qed

lemma hmap_remove_ok:
  assumes st: "hmap_stable hash m"
  obtains m' where "hmap_remove hash k m = Inr (hd_opt (hm_stack m k), m')"
    and "hmap_stable hash m'" and "hm_stack m' = (hm_stack m)(k := tl (hm_stack m k))"
    and "hmap_size m' = hmap_size m - (if hm_stack m k = [] then 0 else 1)"
proof -
  obtain r p where p: "htable_remove hash k (hm_primary m) = Inr (r, p)" "htable_wf hash p"
      "r = hd_opt (ht_stack (hm_primary m) k)"
      "ht_stack p = (ht_stack (hm_primary m))(k := tl (ht_stack (hm_primary m) k))"
      "ht_size p = ht_size (hm_primary m) - (if r = None then 0 else 1)"
      "htable_capacity p = htable_capacity (hm_primary m)"
      "ht_buckets p = [] \<longleftrightarrow> ht_buckets (hm_primary m) = []"
    using htable_remove_ok [of hash "hm_primary m" k] st
    unfolding hmap_stable_def hd_opt_def by metis
  note stack = hmap_stable_stack [OF st] hmap_stable_size [OF st]
  show thesis
  proof (cases r)
    case None
    then have "hmap_remove hash k m = Inr (None, m)" and "hm_stack m k = []"
      using st p by (auto simp: hmap_remove_def hmap_stable_def help_resize_def stack hd_opt_def
          split: list.splits)
    then show thesis
      using st by (intro that [of m]) (auto simp: fun_eq_iff)
  next
    case (Some x)
    let ?m = "m\<lparr>hm_primary := p\<rparr>"
    have st': "hmap_stable hash ?m" using st p by (simp add: hmap_stable_def)
    have "hmap_remove hash k m = Inr (Some x, ?m)"
      using st p(1) Some by (simp add: hmap_remove_def hmap_stable_def help_resize_def)
    then show thesis
      using st' p Some stack hmap_stable_stack [OF st'] hmap_stable_size [OF st']
      by (intro that [of ?m]) (auto simp: hd_opt_def split: list.splits)
  qed
qed

lemma hmap_clear_ok:
  assumes "hmap_stable hash m"
  shows "hmap_stable hash (hmap_clear m)" and "hm_stack (hmap_clear m) = (\<lambda>_. [])"
    and "hmap_size (hmap_clear m) = 0"
  using assms
  by (auto simp: hmap_stable_def hmap_clear_def htable_clear_def htable_wf_def ht_nodes_def
      hm_stack_def hmap_size_def ht_stack_def)

lemma hmap_stable_wf: "hmap_stable hash m \<Longrightarrow> hmap_wf hash m"
  by (simp add: hmap_stable_def hmap_wf_def)

lemma hm_values_le:
  assumes "hmap_stable hash m"
  shows "finite (\<Union>k. set (hm_stack m k))" and "card (\<Union>k. set (hm_stack m k)) \<le> hmap_size m"
proof -
  have sub: "(\<Union>k. set (hm_stack m k)) \<subseteq> snd ` set_mset (hm_bindings m)"
  proof
    fix v assume "v \<in> (\<Union>k. set (hm_stack m k))"
    then obtain k where "v \<in># mset (hm_stack m k)" by auto
    then show "v \<in> snd ` set_mset (hm_bindings m)" by (auto simp: mset_hm_stack)
  qed
  then show "finite (\<Union>k. set (hm_stack m k))" by (rule finite_subset) simp
  have "card (\<Union>k. set (hm_stack m k)) \<le> card (snd ` set_mset (hm_bindings m))"
    using sub by (intro card_mono) simp_all
  also have "\<dots> \<le> card (set_mset (hm_bindings m))" by (simp add: card_image_le)
  also have "\<dots> \<le> size (hm_bindings m)"
    using card_length ex_mset [of "hm_bindings m"] by (metis set_mset_mset size_mset)
  also have "\<dots> = hmap_size m" using hmap_stable_wf [OF assms] by (rule size_hm_bindings)
  finally show "card (\<Union>k. set (hm_stack m k)) \<le> hmap_size m" .
qed

interpretation hm: stack_map hmap_default "hmap_insert hash" "hmap_find hash" "hmap_remove hash"
  hmap_clear hmap_size "hmap_stable hash" hm_stack hmap_limit for hash :: "'k \<Rightarrow> u64"
proof unfold_locales
  show "hm_stack hmap_default k = []" for k :: 'k
    by (simp add: hm_stack_def hmap_default_def)
  show "hmap_size hmap_default = 0" by (simp add: hmap_size_def hmap_default_def)
next
  fix m :: "('k, 'v) hmap" and k v
  assume "hmap_stable hash m" and "hmap_size m < hmap_limit"
  then show "\<exists>m'. hmap_insert hash k v m = Inr m' \<and> hmap_stable hash m' \<and>
      hm_stack m' = (hm_stack m)(k := v # hm_stack m k) \<and> hmap_size m' = Suc (hmap_size m)"
    by (metis hmap_insert_ok)
next
  fix m :: "('k, 'v) hmap" and k
  assume "hmap_stable hash m"
  then show "\<exists>m'. hmap_remove hash k m = Inr (hd_opt (hm_stack m k), m') \<and> hmap_stable hash m' \<and>
      hm_stack m' = (hm_stack m)(k := tl (hm_stack m k)) \<and>
      hmap_size m' = hmap_size m - (if hm_stack m k = [] then 0 else 1)"
    by (metis hmap_remove_ok)
qed (simp_all add: hmap_insert_full hmap_find_ok hmap_clear_ok hm_values_le)

section \<open>Runs of the map\<close>

datatype ('k, 'v) hmap_op = Insert 'k 'v | Find 'k | Remove 'k | Clear

fun hmap_step :: "('k \<Rightarrow> u64) \<Rightarrow> ('k, 'v) hmap_op \<Rightarrow> ('k, 'v) hmap \<Rightarrow>
    ('v option \<times> ('k, 'v) hmap) result" where
  "hmap_step hash (Insert k v) m = bindR (hmap_insert hash k v m) (\<lambda>m. Inr (None, m))"
| "hmap_step hash (Find k) m = hmap_find hash k m"
| "hmap_step hash (Remove k) m = hmap_remove hash k m"
| "hmap_step hash Clear m = Inr (None, hmap_clear m)"

fun hmap_run :: "('k \<Rightarrow> u64) \<Rightarrow> ('k, 'v) hmap_op list \<Rightarrow> ('k, 'v) hmap \<Rightarrow>
    ('v option list \<times> ('k, 'v) hmap) result" where
  "hmap_run hash [] m = Inr ([], m)"
| "hmap_run hash (x # xs) m =
     bindR (hmap_step hash x m) (\<lambda>(r, m).
       bindR (hmap_run hash xs m) (\<lambda>(rs, m). Inr (r # rs, m)))"

text \<open>The specification: a function from keys to stacks, and the number of bindings.\<close>

fun spec_step :: "('k, 'v) hmap_op \<Rightarrow> ('k \<Rightarrow> 'v list) \<times> nat \<Rightarrow>
    ('v option \<times> ('k \<Rightarrow> 'v list) \<times> nat) option" where
  "spec_step (Insert k v) (s, n) = (if n < 32 then Some (None, s(k := v # s k), Suc n) else None)"
| "spec_step (Find k) (s, n) = Some (hd_opt (s k), s, n)"
| "spec_step (Remove k) (s, n) =
     Some (hd_opt (s k), s(k := tl (s k)), if s k = [] then n else n - 1)"
| "spec_step Clear (s, n) = Some (None, (\<lambda>_. []), 0)"

fun spec_run :: "('k, 'v) hmap_op list \<Rightarrow> ('k \<Rightarrow> 'v list) \<times> nat \<Rightarrow>
    ('v option list \<times> ('k \<Rightarrow> 'v list) \<times> nat) option" where
  "spec_run [] s = Some ([], s)"
| "spec_run (x # xs) s =
     (case spec_step x s of None \<Rightarrow> None
      | Some (r, s) \<Rightarrow> (case spec_run xs s of None \<Rightarrow> None | Some (rs, s) \<Rightarrow> Some (r # rs, s)))"

text \<open>One operation simulates its specification.\<close>

lemma hmap_step_sim:
  assumes "hmap_stable hash m"
  shows "case spec_step x (hm_stack m, hmap_size m) of
      None \<Rightarrow> hmap_step hash x m = Inl Relock
    | Some (r, s) \<Rightarrow> \<exists>m'. hmap_step hash x m = Inr (r, m') \<and> hmap_stable hash m' \<and>
        s = (hm_stack m', hmap_size m')"
proof (cases x)
  case (Insert k v)
  then show ?thesis
    using hm.put_full [OF assms, of k v] hm.put_room [OF assms, of k v]
    by (auto simp: hmap_limit_eq)
next
  case (Remove k)
  then show ?thesis using hm.del_top [OF assms, of k] by auto
qed (use assms in \<open>auto simp: hmap_find_ok hmap_clear_ok\<close>)

lemma hmap_run_sim:
  "hmap_stable hash m \<Longrightarrow> case spec_run xs (hm_stack m, hmap_size m) of
      None \<Rightarrow> hmap_run hash xs m = Inl Relock
    | Some (rs, s) \<Rightarrow> \<exists>m'. hmap_run hash xs m = Inr (rs, m') \<and> hmap_stable hash m' \<and>
        s = (hm_stack m', hmap_size m')"
proof (induction xs arbitrary: m)
  case Nil
  then show ?case by simp
next
  case (Cons x xs)
  show ?case
  proof (cases "spec_step x (hm_stack m, hmap_size m)")
    case None
    then show ?thesis using hmap_step_sim [OF Cons.prems, of x] by simp
  next
    case (Some rs)
    then obtain r m1 where step: "hmap_step hash x m = Inr (r, m1)" "hmap_stable hash m1"
        "rs = (r, hm_stack m1, hmap_size m1)"
      using hmap_step_sim [OF Cons.prems, of x] by (cases rs) auto
    then show ?thesis
      using Cons.IH [OF step(2)] Some
      by (auto split: option.splits prod.splits)
  qed
qed

lemma hm_stack_default [simp]: "hm_stack hmap_default = (\<lambda>_. [])"
  by (rule ext) (rule hm.stack_new)

section \<open>Properties\<close>

text \<open>
  C5: Any sequence of insertions, lookups, removals and clears on a new \<^verbatim>\<open>HMap\<close> returns what
  the stack specification returns and leaves the stacks the specification computes; it fails
  to return exactly when it inserts into a map that holds 32 bindings.
\<close>

theorem hmap_refines_stacks:
  "case spec_run xs ((\<lambda>_. []), 0) of
     None \<Rightarrow> hmap_run hash xs hmap_default = Inl Relock
   | Some (rs, s, n) \<Rightarrow> \<exists>m. hmap_run hash xs hmap_default = Inr (rs, m) \<and>
       hm_stack m = s \<and> hmap_size m = n"
  using hmap_run_sim [OF hmap_stable_default, of hash xs]
  by (auto simp: hm.count_new split: option.splits)

text \<open>
  C24: A call of \<^verbatim>\<open>help_resize\<close> during a migration returns, loses and invents no binding, moves
  exactly \<^verbatim>\<open>max_work\<close> nodes (or all that are left) out of the temporary table, and drops that
  table once it is empty.
\<close>

theorem help_resize_migrates:
  assumes "hmap_wf hash m" and "hm_mutex m = Unlocked"
  shows "\<exists>m'. help_resize hash m = Inr m' \<and> hmap_wf hash m' \<and> hm_mutex m' = Unlocked \<and>
    hm_bindings m' = hm_bindings m \<and>
    ht_size (opt_table (hm_temporary m')) = ht_size (opt_table (hm_temporary m)) - 15 \<and>
    (hm_temporary m' = None \<longleftrightarrow> ht_size (opt_table (hm_temporary m)) \<le> 15)"
proof -
  obtain m' where "help_resize hash m = Inr m'" "hmap_wf hash m'" "hm_mutex m' = Unlocked"
      "hm_bindings m' = hm_bindings m"
      "ht_size (opt_table (hm_temporary m')) = ht_size (opt_table (hm_temporary m)) - max_work"
      "hm_temporary m = None \<Longrightarrow> m' = m"
      "hm_temporary m' \<noteq> None \<Longrightarrow> ht_size (opt_table (hm_temporary m')) \<noteq> 0"
    using help_resize_ok [OF assms] by blast
  then show ?thesis
    by (intro exI [of _ m'], cases "hm_temporary m'") (auto simp: max_work_def)
qed

definition migrating_example :: "(u64, nat) hmap" where
  "migrating_example =
     \<lparr>hm_primary = \<lparr>ht_buckets = replicate 8 [], ht_mask = 7, ht_size = 0\<rparr>,
      hm_temporary = Some \<lparr>ht_buckets =
        [[], [\<lparr>hn_key = 5, hn_value = 50, hn_hcode = 5\<rparr>, \<lparr>hn_key = 1, hn_value = 10, hn_hcode = 1\<rparr>],
         [], []], ht_mask = 3, ht_size = 2\<rparr>,
      hm_resizing_pos = 2, hm_mutex = Unlocked\<rparr>"

lemma migrating_example_wf: "hmap_wf (\<lambda>k. k) migrating_example"
  by code_simp

theorem help_resize_migrates_witness:
  "\<exists>m'. help_resize (\<lambda>k. k) migrating_example = Inr m' \<and> hm_temporary m' = None \<and>
    hm_bindings m' = {#(5, 50), (1, 10)#}"
proof -
  have u: "hm_mutex migrating_example = Unlocked"
    and b: "hm_bindings migrating_example = {#(5, 50), (1, 10)#}"
    and z: "ht_size (opt_table (hm_temporary migrating_example)) = 2"
    by (simp_all add: migrating_example_def hm_bindings_def ht_bindings_def ht_nodes_def)
  show ?thesis
    using help_resize_migrates [OF migrating_example_wf u] b z by auto
qed


text \<open>
  C29: The four-way unrolled loop of \<^verbatim>\<open>hash_key\<close> computes the FNV-1a hash: one exclusive or
  and one multiplication modulo $2^{64}$ for every byte, in order, from the offset basis.
\<close>

theorem hash_key_is_fnv1a:
  "hash_key bs = fold (\<lambda>b h. (h XOR ucast b) * 0x100000001B3) bs 0xCBF29CE484222325"
proof -
  have "fnv_byte h b = (h XOR ucast b) * 0x100000001B3" for h b
    by (simp add: fnv_byte_def FNV_MULTIPLIER_def)
  then show ?thesis
    by (simp add: hash_key_def hash_unrolled_eq_tail hash_tail_loop_fold FNV_INITIAL_def)
qed

text \<open>
  A resize started with the mutex free keeps every binding in order, doubles the number of
  buckets and hands all nodes to the temporary table.
\<close>

theorem start_resize_doubles:
  fixes m :: "('k, 'v) hmap"
  assumes "hmap_wf hash m" and "hm_mutex m = Unlocked" and "hm_temporary m = None"
    and "ht_buckets (hm_primary m) \<noteq> []" and "2 * htable_capacity (hm_primary m) < 2 ^ 64"
  shows "\<exists>m'. start_resize m = Inr m' \<and> hmap_wf hash m' \<and> hm_stack m' = hm_stack m \<and>
    hm_bindings m' = hm_bindings m \<and> hm_mutex m' = Unlocked \<and>
    length (ht_buckets (hm_primary m')) = 2 * length (ht_buckets (hm_primary m)) \<and>
    ht_size (hm_primary m') = 0"
proof -
  let ?c = "htable_capacity (hm_primary m)"
  have wf: "length (ht_buckets (hm_primary m)) = ?c" "has_single_bit ?c" "4 \<le> ?c"
    using assms(1,4) by (auto simp: hmap_wf_def htable_wf_def k_min_cap_def)
  then obtain k where "?c = 2 ^ k" by (auto simp: has_single_bit_iff)
  then have "bit_ceil (?c * 2) = 2 * ?c"
    using bit_ceil_pow [of "Suc k"] by (simp add: mult.commute)
  then obtain t :: "('k, 'v) htable" where t: "htable_new (?c * 2) = Inr t" "htable_wf hash t" "ht_nodes t = []"
      "ht_size t = 0" "length (ht_buckets t) = max (2 * ?c) 4"
    using htable_new_ok [of "?c * 2" hash] assms(5) wf(3) by auto
  then show ?thesis
    using assms wf
    by (auto simp: start_resize_def hmap_wf_def hm_stack_def fun_eq_iff hm_bindings_def
        ht_empty_contents)
qed

definition small_example :: "(u64, nat) hmap" where
  "small_example = \<lparr>hm_primary = \<lparr>ht_buckets =
        [[], [\<lparr>hn_key = 5, hn_value = 50, hn_hcode = 5\<rparr>, \<lparr>hn_key = 1, hn_value = 10, hn_hcode = 1\<rparr>],
         [], []], ht_mask = 3, ht_size = 2\<rparr>,
      hm_temporary = None, hm_resizing_pos = 0, hm_mutex = Unlocked\<rparr>"

lemma small_example_wf: "hmap_wf (\<lambda>k. k) small_example" "hmap_stable (\<lambda>k. k) small_example"
  by code_simp+

theorem start_resize_doubles_witness:
  "\<exists>m'. start_resize small_example = Inr m' \<and> length (ht_buckets (hm_primary m')) = 8 \<and>
    hm_stack m' 5 = [50]"
proof -
  have h: "hm_mutex small_example = Unlocked" "hm_temporary small_example = None"
      "ht_buckets (hm_primary small_example) \<noteq> []"
      "2 * htable_capacity (hm_primary small_example) < 2 ^ 64"
      "length (ht_buckets (hm_primary small_example)) = 4"
      "hm_stack small_example 5 = [50]"
    by (simp_all add: small_example_def htable_capacity_def hm_stack_def ht_stack_def ht_nodes_def)
  show ?thesis using start_resize_doubles [OF small_example_wf(1) h(1-4)] h(5,6) by auto
qed

text \<open>
  A lookup during a migration finds the value of a key that is bound once, whichever table
  holds it, and changes no binding.
\<close>

theorem hmap_find_during_migration:
  assumes "hmap_wf hash m" and "hm_mutex m = Unlocked" and "length (hm_stack m k) \<le> 1"
  shows "\<exists>m'. hmap_find hash k m = Inr (hd_opt (hm_stack m k), m') \<and> hmap_wf hash m' \<and>
    hm_mutex m' = Unlocked \<and> hm_bindings m' = hm_bindings m"
proof -
  obtain m' where m': "help_resize hash m = Inr m'" "hmap_wf hash m'" "hm_mutex m' = Unlocked"
      "hm_bindings m' = hm_bindings m"
    by (rule help_resize_ok [OF assms(1,2)])
  then have same: "mset (hm_stack m' k) = mset (hm_stack m k)" by (simp add: mset_hm_stack)
  with assms(3) have stack: "hm_stack m' k = hm_stack m k"
    by (cases "hm_stack m k") (auto simp: length_Suc_conv)
  obtain r where r: "htable_lookup hash k (hm_primary m') = Inr r"
      "map_option hn_value r = hd_opt (ht_stack (hm_primary m') k)"
    using htable_lookup_ok [of hash "hm_primary m'" k] m'(2)
    by (auto simp: hmap_wf_def hd_opt_def)
  obtain s where s: "htable_lookup hash k (opt_table (hm_temporary m')) = Inr s"
      "map_option hn_value s = hd_opt (ht_stack (opt_table (hm_temporary m')) k)"
    using htable_lookup_ok [of hash "opt_table (hm_temporary m')" k] m'(2)
    by (auto simp: hmap_wf_def hd_opt_def)
  have "hmap_find hash k m = Inr (hd_opt (hm_stack m' k), m')"
    using m' r s
    by (cases r; cases "hm_temporary m'"; cases "ht_stack (hm_primary m') k")
      (auto simp: hmap_find_def hm_stack_def)
  then show ?thesis using m' stack by auto
qed

theorem hmap_find_during_migration_witness:
  "\<exists>m'. hmap_find (\<lambda>k. k) 5 migrating_example = Inr (Some 50, m') \<and>
    hm_bindings m' = {#(5, 50), (1, 10)#}"
proof -
  have h: "hm_mutex migrating_example = Unlocked" "hm_stack migrating_example 5 = [50]"
      "hm_bindings migrating_example = {#(5, 50), (1, 10)#}"
    by (simp_all add: migrating_example_def hm_bindings_def ht_bindings_def ht_nodes_def
        hm_stack_def ht_stack_def)
  then show ?thesis
    using hmap_find_during_migration [OF migrating_example_wf h(1), of 5] by auto
qed

text \<open>
  After a key is inserted twice, a removal gives the second value back and uncovers the
  first: the key is still found.
\<close>

theorem hmap_remove_uncovers:
  assumes "hmap_stable hash m" and "hmap_insert hash k v m = Inr m1"
    and "hmap_insert hash k w m1 = Inr m2" and "hmap_remove hash k m2 = Inr (r, m3)"
  shows "r = Some w \<and> hmap_find hash k m3 = Inr (Some v, m3)"
  by (rule hm.del_uncovers [OF assms])

theorem hmap_remove_uncovers_witness:
  "\<exists>m1 m2 m3. hmap_insert (\<lambda>k. k) (9 :: u64) (1 :: nat) small_example = Inr m1 \<and>
     hmap_insert (\<lambda>k. k) 9 2 m1 = Inr m2 \<and> hmap_remove (\<lambda>k. k) 9 m2 = Inr (Some 2, m3) \<and>
     hmap_find (\<lambda>k. k) 9 m3 = Inr (Some 1, m3)"
proof -
  have st: "hmap_stable (\<lambda>k. k) small_example" by (rule small_example_wf)
  have n: "hmap_size small_example = 2" by (simp add: small_example_def hmap_size_def)
  obtain m1 where m1: "hmap_insert (\<lambda>k. k) 9 1 small_example = Inr m1"
      "hmap_stable (\<lambda>k. k) m1" "hmap_size m1 = 3"
    using hm.put_room [OF st, of 9 1] n by (auto simp: hmap_limit_eq)
  obtain m2 where m2: "hmap_insert (\<lambda>k. k) 9 2 m1 = Inr m2" "hmap_stable (\<lambda>k. k) m2"
    using hm.put_room [OF m1(2), of 9 2] m1(3) by (auto simp: hmap_limit_eq)
  obtain r m3 where m3: "hmap_remove (\<lambda>k. k) 9 m2 = Inr (r, m3)"
    using hm.del_top [OF m2(2), of 9] by auto
  show ?thesis using hmap_remove_uncovers [OF st m1(1) m2(1) m3] m1(1) m2(1) m3 by blast
qed

end
