(* ===== verification/AVL_Tree.thy ===== *)
theory AVL_Tree
  imports Interfaces
begin

text \<open>
  The balanced search tree of \<^verbatim>\<open>src/src/dsa/avl_locking.hpp\<close>: nodes with a 32-bit depth and
  weight, the rotations, the rebalancing functions, insertion, removal and search, and the
  locked operations \<^verbatim>\<open>set\<close>, \<^verbatim>\<open>get\<close>, \<^verbatim>\<open>del\<close> and \<^verbatim>\<open>exists\<close> of \<^verbatim>\<open>AVLTree\<close>.

  A null pointer is \<open>Null\<close>.  The parent pointers are left out: the code writes them and copies
  them, but no result depends on one.  The node mutexes are recursive and taken by one thread,
  so that acquiring them always succeeds.
\<close>

section \<open>Nodes and rotations\<close>

datatype ('k, 'v) avl_node =
    Null
  | AVLNode (node_key: 'k) (node_value: 'v) (node_depth: u32) (node_weight: u32)
      (node_left: "('k, 'v) avl_node") (node_right: "('k, 'v) avl_node")

definition new_node :: "'k \<Rightarrow> 'v \<Rightarrow> ('k, 'v) avl_node" where
  "new_node k v = AVLNode k v 1 1 Null Null"

fun getDepth :: "('k, 'v) avl_node \<Rightarrow> u32" where
  "getDepth Null = 0"
| "getDepth (AVLNode k v d w l r) = d"

fun getWeight :: "('k, 'v) avl_node \<Rightarrow> u32" where
  "getWeight Null = 0"
| "getWeight (AVLNode k v d w l r) = w"

fun updateNode :: "('k, 'v) avl_node \<Rightarrow> ('k, 'v) avl_node" where
  "updateNode Null = Null"
| "updateNode (AVLNode k v d w l r) =
     AVLNode k v (1 + max (getDepth l) (getDepth r)) (1 + getWeight l + getWeight r) l r"

text \<open>
  A rotation moves the child out of the node, links the two nodes the other way round, and
  updates the lower node before the upper one.
\<close>

fun rotateLeft :: "('k, 'v) avl_node \<Rightarrow> ('k, 'v) avl_node" where
  "rotateLeft (AVLNode k v d w l (AVLNode k' v' d' w' l' r')) =
     updateNode (AVLNode k' v' d' w' (updateNode (AVLNode k v d w l l')) r')"
| "rotateLeft t = t"

fun rotateRight :: "('k, 'v) avl_node \<Rightarrow> ('k, 'v) avl_node" where
  "rotateRight (AVLNode k v d w (AVLNode k' v' d' w' l' r') r) =
     updateNode (AVLNode k' v' d' w' l' (updateNode (AVLNode k v d w r' r)))"
| "rotateRight t = t"

fun fixLeft :: "('k, 'v) avl_node \<Rightarrow> ('k, 'v) avl_node" where
  "fixLeft (AVLNode k v d w (AVLNode k' v' d' w' l' r') r) =
     (let left = AVLNode k' v' d' w' l' r';
          left = (if getDepth r' > getDepth l' then rotateLeft left else left)
      in rotateRight (AVLNode k v d w left r))"
| "fixLeft t = t"

fun fixRight :: "('k, 'v) avl_node \<Rightarrow> ('k, 'v) avl_node" where
  "fixRight (AVLNode k v d w l (AVLNode k' v' d' w' l' r')) =
     (let right = AVLNode k' v' d' w' l' r';
          right = (if getDepth l' > getDepth r' then rotateRight right else right)
      in rotateLeft (AVLNode k v d w l right))"
| "fixRight t = t"

definition avl_fix :: "('k, 'v) avl_node \<Rightarrow> ('k, 'v) avl_node" where
  "avl_fix node =
     (if node = Null then Null
      else let node = updateNode node;
               leftDepth = getDepth (node_left node);
               rightDepth = getDepth (node_right node)
           in if leftDepth > rightDepth + 1 then fixLeft node
              else if rightDepth > leftDepth + 1 then fixRight node
              else node)"

section \<open>Insertion, removal and search\<close>

fun avl_insert :: "('k::linorder, 'v) avl_node \<Rightarrow> 'k \<Rightarrow> 'v \<Rightarrow> ('k, 'v) avl_node" where
  "avl_insert Null key val = new_node key val"
| "avl_insert (AVLNode k v d w l r) key val =
     (if key < k then avl_fix (AVLNode k v d w (avl_insert l key val) r)
      else if key > k then avl_fix (AVLNode k v d w l (avl_insert r key val))
      else AVLNode k v d w l r)"

text \<open>The loop that walks to the leftmost node.\<close>

fun leftmost :: "('k, 'v) avl_node \<Rightarrow> ('k \<times> 'v) option" where
  "leftmost Null = None"
| "leftmost (AVLNode k v d w l r) = (case l of Null \<Rightarrow> Some (k, v) | _ \<Rightarrow> leftmost l)"

text \<open>
  A node with two children takes the key and the value of its successor, which is then
  removed from the right subtree.
\<close>

fun avl_remove :: "('k::linorder, 'v) avl_node \<Rightarrow> 'k \<Rightarrow> ('k, 'v) avl_node" where
  "avl_remove Null key = Null"
| "avl_remove (AVLNode k v d w l r) key =
     (if key < k then avl_fix (AVLNode k v d w (avl_remove l key) r)
      else if key > k then avl_fix (AVLNode k v d w l (avl_remove r key))
      else if l = Null then r
      else if r = Null then l
      else case leftmost r of
             None \<Rightarrow> Null
           | Some (sk, sv) \<Rightarrow> avl_fix (AVLNode sk sv d w l (avl_remove r sk)))"

fun avl_search :: "('k::linorder, 'v) avl_node \<Rightarrow> 'k \<Rightarrow> ('k, 'v) avl_node" where
  "avl_search Null key = Null"
| "avl_search (AVLNode k v d w l r) key =
     (if key = k then AVLNode k v d w l r
      else avl_search (if key < k then l else r) key)"

text \<open>The assignment \<^verbatim>\<open>existingNode->value = value\<close> through the pointer that \<^verbatim>\<open>search\<close> gives.\<close>

fun avl_assign :: "('k::linorder, 'v) avl_node \<Rightarrow> 'k \<Rightarrow> 'v \<Rightarrow> ('k, 'v) avl_node" where
  "avl_assign Null key val = Null"
| "avl_assign (AVLNode k v d w l r) key val =
     (if key = k then AVLNode k val d w l r
      else if key < k then AVLNode k v d w (avl_assign l key val) r
      else AVLNode k v d w l (avl_assign r key val))"

section \<open>The locked operations\<close>

record ('k, 'v) avl_tree =
  avl_root :: "('k, 'v) avl_node"
  tree_mutex :: mutex

definition avl_new :: "('k, 'v) avl_tree" where
  "avl_new = \<lparr>avl_root = Null, tree_mutex = Unlocked\<rparr>"

definition avl_set :: "'k::linorder \<Rightarrow> 'v \<Rightarrow> ('k, 'v) avl_tree \<Rightarrow> ('k, 'v) avl_tree result" where
  "avl_set key val t =
     bindR (lock_shared (tree_mutex t)) (\<lambda>_.
       let existingNode = avl_search (avl_root t) key
       in if existingNode \<noteq> Null then Inr (t\<lparr>avl_root := avl_assign (avl_root t) key val\<rparr>)
          else bindR (lock_unique (tree_mutex t)) (\<lambda>_.
            Inr (t\<lparr>avl_root := avl_insert (avl_root t) key val\<rparr>)))"

definition avl_get :: "'k::linorder \<Rightarrow> ('k, 'v) avl_tree \<Rightarrow> 'v option" where
  "avl_get key t =
     (case avl_search (avl_root t) key of Null \<Rightarrow> None | AVLNode k v d w l r \<Rightarrow> Some v)"

definition avl_del :: "'k::linorder \<Rightarrow> ('k, 'v) avl_tree \<Rightarrow> ('k, 'v) avl_tree result" where
  "avl_del key t =
     bindR (lock_unique (tree_mutex t)) (\<lambda>_.
       if avl_root t = Null then Inr t
       else Inr (t\<lparr>avl_root := avl_remove (avl_root t) key\<rparr>))"

definition avl_exists :: "'k::linorder \<Rightarrow> ('k, 'v) avl_tree \<Rightarrow> bool result" where
  "avl_exists key t =
     bindR (lock_shared (tree_mutex t)) (\<lambda>_. Inr (avl_search (avl_root t) key \<noteq> Null))"

section \<open>Contents and order\<close>

fun inorder :: "('k, 'v) avl_node \<Rightarrow> ('k \<times> 'v) list" where
  "inorder Null = []"
| "inorder (AVLNode k v d w l r) = inorder l @ (k, v) # inorder r"

definition contents :: "('k, 'v) avl_node \<Rightarrow> ('k \<times> 'v) set" where
  "contents t = set (inorder t)"

definition bst :: "('k::linorder, 'v) avl_node \<Rightarrow> bool" where
  "bst t \<longleftrightarrow> sorted_wrt (<) (map fst (inorder t))"

lemma contents_simps [simp]:
  "contents Null = {}"
  "contents (AVLNode k v d w l r) = insert (k, v) (contents l \<union> contents r)"
  by (auto simp: contents_def)

lemma bst_simps [simp]:
  "bst Null"
  "bst (AVLNode k v d w l r) \<longleftrightarrow> bst l \<and> bst r \<and> (\<forall>p \<in> contents l. fst p < k) \<and>
     (\<forall>p \<in> contents r. k < fst p)"
proof -
  show "bst Null" by (simp add: bst_def)
  have "fst p < fst q" if "\<forall>p \<in> set (inorder l). fst p < k" "\<forall>p \<in> set (inorder r). k < fst p"
    "p \<in> set (inorder l)" "q \<in> set (inorder r)" for p q
    using that less_trans by blast
  then show "bst (AVLNode k v d w l r) \<longleftrightarrow> bst l \<and> bst r \<and> (\<forall>p \<in> contents l. fst p < k) \<and>
     (\<forall>p \<in> contents r. k < fst p)"
    by (auto simp: bst_def contents_def sorted_wrt_append)
qed

lemma inorder_eq: "inorder t = inorder t' \<Longrightarrow> bst t = bst t' \<and> contents t = contents t'"
  by (simp add: bst_def contents_def)

lemma inorder_updateNode [simp]: "inorder (updateNode t) = inorder t"
  by (cases t) auto

lemma inorder_rotate [simp]:
  "inorder (rotateLeft t) = inorder t" "inorder (rotateRight t) = inorder t"
  by (cases t rule: rotateLeft.cases; simp) (cases t rule: rotateRight.cases; simp)

lemma inorder_fixLeft [simp]: "inorder (fixLeft t) = inorder t"
  by (cases t rule: fixLeft.cases) (simp_all add: Let_def)

lemma inorder_fixRight [simp]: "inorder (fixRight t) = inorder t"
  by (cases t rule: fixRight.cases) (simp_all add: Let_def)

lemma inorder_avl_fix [simp]: "inorder (avl_fix t) = inorder t"
  by (simp add: avl_fix_def Let_def)

lemmas avl_fix_contents [simp] =
  inorder_avl_fix [THEN inorder_eq, THEN conjunct1] inorder_avl_fix [THEN inorder_eq, THEN conjunct2]

lemma avl_insert_contents:
  "bst t \<Longrightarrow> bst (avl_insert t key val) \<and>
    contents (avl_insert t key val) =
      (if key \<in> fst ` contents t then contents t else insert (key, val) (contents t))"
proof (induction t key val rule: avl_insert.induct)
  case (2 k v d w l r key val)
  consider "key < k" | "k < key" | "key = k" by force
  then show ?case
  proof cases
    case 1
    then have "key \<notin> fst ` contents r" using 2 by fastforce
    then show ?thesis using 1 2 by auto
  next
    case 2
    then have "key \<notin> fst ` contents l" using \<open>bst (AVLNode k v d w l r)\<close> by fastforce
    then show ?thesis using 2 "2.IH" \<open>bst (AVLNode k v d w l r)\<close> by auto
  qed (use 2 in auto)
qed (simp add: new_node_def)

lemma leftmost_hd: "t \<noteq> Null \<Longrightarrow> leftmost t = Some (hd (inorder t))"
proof (induction t)
  case (AVLNode k v d w l r)
  then show ?case by (cases l) (auto simp: hd_append)
qed simp

lemma leftmost_least:
  assumes "bst t" and "leftmost t = Some (sk, sv)"
  shows "(sk, sv) \<in> contents t \<and> (\<forall>p \<in> contents t. fst p \<noteq> sk \<longrightarrow> sk < fst p)"
proof -
  have "t \<noteq> Null" using assms(2) by auto
  then obtain ps where "inorder t = (sk, sv) # ps"
    using assms(2) leftmost_hd [of t] by (cases t; cases "inorder t") auto
  then show ?thesis using assms(1) by (auto simp: bst_def contents_def)
qed

lemma bst_functional: "bst t \<Longrightarrow> (k, v) \<in> contents t \<Longrightarrow> (k, v') \<in> contents t \<Longrightarrow> v = v'"
  by (induction t) fastforce+

lemma avl_remove_contents:
  "bst t \<Longrightarrow> bst (avl_remove t key) \<and> contents (avl_remove t key) = {p \<in> contents t. fst p \<noteq> key}"
proof (induction t key rule: avl_remove.induct)
  case (2 k v d w l r key)
  note bst = \<open>bst (AVLNode k v d w l r)\<close>
  consider "key < k" | "k < key" | "key = k" "l = Null \<or> r = Null" | "key = k" "l \<noteq> Null" "r \<noteq> Null"
    by force
  then show ?case
  proof cases
    case 1
    then show ?thesis using bst 2(1) by auto
  next
    case 2
    then show ?thesis using bst "2.IH"(2) by auto
  next
    case 3
    then show ?thesis using bst by auto
  next
    case 4
    then obtain sk sv where s: "leftmost r = Some (sk, sv)"
      using leftmost_hd [of r] by (cases "hd (inorder r)") auto
    then have least: "(sk, sv) \<in> contents r" "\<forall>p \<in> contents r. fst p \<noteq> sk \<longrightarrow> sk < fst p"
      using bst leftmost_least [OF _ s] by auto
    have rem: "bst (avl_remove r sk)" "contents (avl_remove r sk) = {p \<in> contents r. fst p \<noteq> sk}"
      using "2.IH"(3) [OF _ _ 4(2,3) s, of sk sv] bst 4 by auto
    have "p = (sk, sv)" if "p \<in> contents r" "fst p = sk" for p
      using bst_functional [of r sk "snd p" sv] that least bst by (cases p) auto
    then have "insert (sk, sv) {p \<in> contents r. fst p \<noteq> sk} = contents r"
      using least(1) by blast
    moreover have "k < sk" using least(1) bst by auto
    ultimately show ?thesis using 4 s least rem bst by auto
  qed
qed simp

fun node_val :: "('k, 'v) avl_node \<Rightarrow> 'v option" where
  "node_val Null = None"
| "node_val (AVLNode k v d w l r) = Some v"

lemma avl_search_contents:
  "bst t \<Longrightarrow> node_val (avl_search t key) = Some v \<longleftrightarrow> (key, v) \<in> contents t"
  by (induction t key rule: avl_search.induct) (auto dest: less_asym)

lemma avl_search_Null: "bst t \<Longrightarrow> avl_search t key = Null \<longleftrightarrow> key \<notin> fst ` contents t"
proof -
  assume "bst t"
  have "avl_search t key = Null \<longleftrightarrow> (\<forall>v. node_val (avl_search t key) \<noteq> Some v)"
    by (cases "avl_search t key") auto
  also have "\<dots> \<longleftrightarrow> key \<notin> fst ` contents t"
    using avl_search_contents [OF \<open>bst t\<close>] by (auto simp: image_iff)
  finally show ?thesis .
qed

lemma avl_assign_contents:
  "bst t \<Longrightarrow> key \<in> fst ` contents t \<Longrightarrow> bst (avl_assign t key val) \<and>
   contents (avl_assign t key val) = insert (key, val) {p \<in> contents t. fst p \<noteq> key}"
proof (induction t key val rule: avl_assign.induct)
  case (2 k v d w l r key val)
  note bst = \<open>bst (AVLNode k v d w l r)\<close> and IH = "2.IH" and mem = 2(4)
  consider "key = k" | "key < k" | "k < key" by force
  then show ?case
  proof cases
    case 1
    then show ?thesis using bst by auto
  next
    case 2
    then have "key \<in> fst ` contents l" using mem bst by (auto dest: less_asym)
    then show ?thesis using 2 IH(1) bst by auto
  next
    case 3
    then have "key \<in> fst ` contents r" using mem bst by (auto dest: less_asym)
    then show ?thesis using 3 IH(2) bst by auto
  qed
qed simp

section \<open>Balance, depths and weights\<close>

fun height :: "('k, 'v) avl_node \<Rightarrow> nat" where
  "height Null = 0"
| "height (AVLNode k v d w l r) = Suc (max (height l) (height r))"

definition nodes :: "('k, 'v) avl_node \<Rightarrow> nat" where
  "nodes t = length (inorder t)"

lemma nodes_simps [simp]:
  "nodes Null = 0" "nodes (AVLNode k v d w l r) = Suc (nodes l + nodes r)"
  by (simp_all add: nodes_def)

text \<open>
  \<open>measured\<close>: every node's depth is its height and its weight the number of nodes below and at
  it, modulo $2^{32}$.  \<open>balanced\<close>: the heights of two siblings differ by at most one.
\<close>

fun measured :: "('k, 'v) avl_node \<Rightarrow> bool" where
  "measured Null = True"
| "measured (AVLNode k v d w l r) \<longleftrightarrow> d = of_nat (Suc (max (height l) (height r))) \<and>
     w = of_nat (Suc (nodes l + nodes r)) \<and> measured l \<and> measured r"

fun balanced :: "('k, 'v) avl_node \<Rightarrow> bool" where
  "balanced Null = True"
| "balanced (AVLNode k v d w l r) \<longleftrightarrow>
     height l \<le> Suc (height r) \<and> height r \<le> Suc (height l) \<and> balanced l \<and> balanced r"

text \<open>The largest height for which no depth computation wraps around.\<close>

definition max_height :: nat where
  "max_height = 2 ^ 32 - 3"

lemma getDepth_measured: "measured t \<Longrightarrow> getDepth t = of_nat (height t)"
  by (cases t) auto

lemma getWeight_measured: "measured t \<Longrightarrow> getWeight t = of_nat (nodes t)"
  by (cases t) (auto simp: algebra_simps)

lemma depth_less:
  assumes "m \<le> max_height + 2" and "n \<le> max_height + 2"
  shows "(of_nat m :: u32) < of_nat n \<longleftrightarrow> m < n"
  using assms unat_of_nat_small [where 'a = 32, of m] unat_of_nat_small [where 'a = 32, of n]
  by (simp add: word_less_nat_alt max_height_def)

lemma depth_less_Suc:
  assumes "m \<le> max_height + 1" and "n \<le> max_height + 1"
  shows "(of_nat m + 1 :: u32) < of_nat n \<longleftrightarrow> Suc m < n"
  using depth_less [of "Suc m" n] assms by (simp add: add.commute)

lemma max_depth:
  assumes "m \<le> max_height + 1" and "n \<le> max_height + 1"
  shows "max (of_nat m :: u32) (of_nat n) = of_nat (max m n)"
  using depth_less [of m n] depth_less [of n m] assms
  by (cases "m < n") (auto simp: max_def not_less le_less)

lemma measured_updateNode:
  assumes "measured l" and "measured r" and "height l \<le> max_height + 1" and "height r \<le> max_height + 1"
  shows "updateNode (AVLNode k v d w l r) =
    AVLNode k v (of_nat (Suc (max (height l) (height r)))) (of_nat (Suc (nodes l + nodes r))) l r"
  using assms by (simp add: getDepth_measured getWeight_measured max_depth add.assoc)

lemma nodes_avl_fix [simp]: "nodes (avl_fix t) = nodes t"
  by (simp add: nodes_def)

text \<open>
  Rebalancing a node whose subtrees are balanced and differ by at most two in height.
\<close>

lemma avl_fix_left_heavy:
  assumes "measured l" "measured r" "balanced l" "balanced r"
    and "height l = height r + 2" and "height l \<le> max_height"
  shows "measured (avl_fix (AVLNode k v d w l r)) \<and> balanced (avl_fix (AVLNode k v d w l r)) \<and>
    height (avl_fix (AVLNode k v d w l r)) =
      (if height (node_left l) = height (node_right l) then Suc (height l) else height l)"
proof -
  obtain k' v' d' w' l' r' where l: "l = AVLNode k' v' d' w' l' r'"
    using assms(5) by (cases l) auto
  have big: "of_nat (height r) + 1 < (of_nat (height l) :: u32)"
    using assms(5,6) depth_less_Suc [of "height r" "height l"] by simp
  have upd: "updateNode (AVLNode k v d w l r) = AVLNode k v (of_nat (Suc (max (height l) (height r))))
      (of_nat (Suc (nodes l + nodes r))) l r"
    using assms by (intro measured_updateNode) auto
  then have fixed: "avl_fix (AVLNode k v d w l r) = fixLeft (AVLNode k v
      (of_nat (Suc (max (height l) (height r)))) (of_nat (Suc (nodes l + nodes r))) l r)"
    using big assms(1,2) by (simp add: avl_fix_def getDepth_measured del: updateNode.simps)
  have sub: "measured l'" "measured r'" "balanced l'" "balanced r'" using assms(1,3) l by auto
  show ?thesis
  proof (cases "height l' < height r'")
    case False
    then show ?thesis
      using assms sub unfolding fixed
      by (simp add: l depth_less measured_updateNode getDepth_measured del: updateNode.simps of_nat_Suc)
  next
    case True
    then obtain k2 v2 d2 w2 l2 r2 where r': "r' = AVLNode k2 v2 d2 w2 l2 r2" by (cases r') auto
    have c: "(of_nat (height l') :: u32) < of_nat (height r')"
      using True assms(6) l by (subst depth_less) auto
    show ?thesis
      using True c assms sub unfolding fixed
      by (simp add: l r' measured_updateNode getDepth_measured del: updateNode.simps of_nat_Suc) auto
  qed
qed

lemma avl_fix_right_heavy:
  assumes "measured l" "measured r" "balanced l" "balanced r"
    and "height r = height l + 2" and "height r \<le> max_height"
  shows "measured (avl_fix (AVLNode k v d w l r)) \<and> balanced (avl_fix (AVLNode k v d w l r)) \<and>
    height (avl_fix (AVLNode k v d w l r)) =
      (if height (node_left r) = height (node_right r) then Suc (height r) else height r)"
proof -
  obtain k' v' d' w' l' r' where r: "r = AVLNode k' v' d' w' l' r'"
    using assms(5) by (cases r) auto
  have big: "of_nat (height l) + 1 < (of_nat (height r) :: u32)"
      "\<not> of_nat (height r) + 1 < (of_nat (height l) :: u32)"
    using assms(5,6) depth_less_Suc [of "height l" "height r"] depth_less_Suc [of "height r" "height l"]
    by simp_all
  have upd: "updateNode (AVLNode k v d w l r) = AVLNode k v (of_nat (Suc (max (height l) (height r))))
      (of_nat (Suc (nodes l + nodes r))) l r"
    using assms by (intro measured_updateNode) auto
  then have fixed: "avl_fix (AVLNode k v d w l r) = fixRight (AVLNode k v
      (of_nat (Suc (max (height l) (height r)))) (of_nat (Suc (nodes l + nodes r))) l r)"
    using big assms(1,2) by (simp add: avl_fix_def getDepth_measured del: updateNode.simps)
  have sub: "measured l'" "measured r'" "balanced l'" "balanced r'" using assms(2,4) r by auto
  show ?thesis
  proof (cases "height r' < height l'")
    case False
    then show ?thesis
      using assms sub unfolding fixed
      by (simp add: r depth_less measured_updateNode getDepth_measured del: updateNode.simps of_nat_Suc)
  next
    case True
    then obtain k2 v2 d2 w2 l2 r2 where l': "l' = AVLNode k2 v2 d2 w2 l2 r2" by (cases l') auto
    have c: "(of_nat (height r') :: u32) < of_nat (height l')"
      using True assms(6) r by (subst depth_less) auto
    show ?thesis
      using True c assms sub unfolding fixed
      by (simp add: r l' measured_updateNode getDepth_measured del: updateNode.simps of_nat_Suc) auto
  qed
qed

lemma avl_fix_even:
  assumes "measured l" "measured r" and "height l \<le> Suc (height r)" "height r \<le> Suc (height l)"
    and "height l \<le> max_height" "height r \<le> max_height"
  shows "avl_fix (AVLNode k v d w l r) =
    AVLNode k v (of_nat (Suc (max (height l) (height r)))) (of_nat (Suc (nodes l + nodes r))) l r"
proof -
  have "\<not> of_nat (height l) + 1 < (of_nat (height r) :: u32)"
      "\<not> of_nat (height r) + 1 < (of_nat (height l) :: u32)"
    using assms depth_less_Suc [of "height l" "height r"] depth_less_Suc [of "height r" "height l"]
    by simp_all
  then show ?thesis
    using assms
    by (simp add: avl_fix_def measured_updateNode getDepth_measured del: updateNode.simps of_nat_Suc)
qed

definition avl_ok :: "('k, 'v) avl_node \<Rightarrow> bool" where
  "avl_ok t \<longleftrightarrow> measured t \<and> balanced t"

lemma avl_fix_ok:
  assumes "avl_ok l" "avl_ok r" and "height l \<le> height r + 2" "height r \<le> height l + 2"
    and "height l \<le> max_height" "height r \<le> max_height"
  shows "avl_ok (avl_fix (AVLNode k v d w l r))"
    and "height (avl_fix (AVLNode k v d w l r)) \<in>
      (if height l \<le> Suc (height r) \<and> height r \<le> Suc (height l) then {Suc (max (height l) (height r))}
       else {max (height l) (height r), Suc (max (height l) (height r))})"
proof -
  consider "height l = height r + 2" | "height r = height l + 2"
    | "height l \<le> Suc (height r)" "height r \<le> Suc (height l)" using assms(3,4) by linarith
  then have "avl_ok (avl_fix (AVLNode k v d w l r)) \<and> height (avl_fix (AVLNode k v d w l r)) \<in>
      (if height l \<le> Suc (height r) \<and> height r \<le> Suc (height l) then {Suc (max (height l) (height r))}
       else {max (height l) (height r), Suc (max (height l) (height r))})"
  proof cases
    case 1
    then show ?thesis using assms avl_fix_left_heavy [of l r k v d w] by (auto simp: avl_ok_def)
  next
    case 2
    then show ?thesis using assms avl_fix_right_heavy [of l r k v d w] by (auto simp: avl_ok_def)
  next
    case 3
    then show ?thesis using assms by (auto simp: avl_ok_def avl_fix_even)
  qed
  then show "avl_ok (avl_fix (AVLNode k v d w l r))"
    and "height (avl_fix (AVLNode k v d w l r)) \<in>
      (if height l \<le> Suc (height r) \<and> height r \<le> Suc (height l) then {Suc (max (height l) (height r))}
       else {max (height l) (height r), Suc (max (height l) (height r))})" by auto
qed

lemma avl_ok_simps [simp]:
  "avl_ok Null"
  "avl_ok (AVLNode k v d w l r) \<longleftrightarrow> d = of_nat (Suc (max (height l) (height r))) \<and>
     w = of_nat (Suc (nodes l + nodes r)) \<and> height l \<le> Suc (height r) \<and>
     height r \<le> Suc (height l) \<and> avl_ok l \<and> avl_ok r"
  by (auto simp: avl_ok_def)

text \<open>One subtree of a balanced node has changed its height by at most one.\<close>

lemma avl_fix_grown:
  assumes old: "height l \<le> Suc (height r)" "height r \<le> Suc (height l)"
      "Suc (max (height l) (height r)) \<le> max_height"
    and new: "avl_ok l'" "avl_ok r'" "height l' \<le> max_height" "height r' \<le> max_height"
    and change: "r' = r \<and> height l \<le> height l' \<and> height l' \<le> Suc (height l) \<or>
      l' = l \<and> height r \<le> height r' \<and> height r' \<le> Suc (height r)"
  shows "avl_ok (avl_fix (AVLNode k v d w l' r')) \<and>
    Suc (max (height l) (height r)) \<le> height (avl_fix (AVLNode k v d w l' r')) \<and>
    height (avl_fix (AVLNode k v d w l' r')) \<le> Suc (Suc (max (height l) (height r)))"
  using avl_fix_ok [OF new(1,2) _ _ new(3,4), of k v d w] old change
  by (auto simp: max_def split: if_splits)

lemma avl_fix_shrunk:
  assumes old: "height l \<le> Suc (height r)" "height r \<le> Suc (height l)"
      "Suc (max (height l) (height r)) \<le> max_height"
    and new: "avl_ok l'" "avl_ok r'" "height l' \<le> max_height" "height r' \<le> max_height"
    and change: "r' = r \<and> height l' \<le> height l \<and> height l \<le> Suc (height l') \<or>
      l' = l \<and> height r' \<le> height r \<and> height r \<le> Suc (height r')"
  shows "avl_ok (avl_fix (AVLNode k v d w l' r')) \<and>
    height (avl_fix (AVLNode k v d w l' r')) \<le> Suc (max (height l) (height r)) \<and>
    max (height l) (height r) \<le> height (avl_fix (AVLNode k v d w l' r'))"
  using avl_fix_ok [OF new(1,2) _ _ new(3,4), of k v d w] old change
  by (auto simp: max_def split: if_splits)

lemma avl_insert_ok:
  "avl_ok t \<Longrightarrow> height t < max_height \<Longrightarrow> avl_ok (avl_insert t key val) \<and>
    height t \<le> height (avl_insert t key val) \<and> height (avl_insert t key val) \<le> Suc (height t)"
proof (induction t key val rule: avl_insert.induct)
  case (2 k v d w l r key val)
  have ok: "avl_ok l" "avl_ok r" "height l \<le> Suc (height r)" "height r \<le> Suc (height l)"
      "Suc (max (height l) (height r)) \<le> max_height" "height l < max_height" "height r < max_height"
    using 2(3,4) by auto
  consider "key < k" | "k < key" | "key = k" by force
  then show ?case
  proof cases
    case 1
    then show ?thesis
      using 2(1) ok avl_fix_grown [OF ok(3-5), of "avl_insert l key val" r] by simp
  next
    case c: 2
    then have "\<not> key < k" by simp
    then show ?thesis
      using c "2.IH"(2) ok avl_fix_grown [OF ok(3-5), of l "avl_insert r key val"] by simp
  next
    case 3
    then show ?thesis using 2(3) by auto
  qed
qed (simp add: new_node_def)

lemma avl_remove_ok:
  "avl_ok t \<Longrightarrow> height t \<le> max_height \<Longrightarrow> avl_ok (avl_remove t key) \<and>
    height (avl_remove t key) \<le> height t \<and> height t \<le> Suc (height (avl_remove t key))"
proof (induction t key rule: avl_remove.induct)
  case (2 k v d w l r key)
  have ok: "avl_ok l" "avl_ok r" "height l \<le> Suc (height r)" "height r \<le> Suc (height l)"
      "Suc (max (height l) (height r)) \<le> max_height" "height l \<le> max_height" "height r \<le> max_height"
    using 2(4,5) by auto
  consider "key < k" | "k < key" | "key = k" "l = Null \<or> r = Null" | "key = k" "l \<noteq> Null" "r \<noteq> Null"
    by force
  then show ?case
  proof cases
    case 1
    then show ?thesis
      using 2(1) ok avl_fix_shrunk [OF ok(3-5), of "avl_remove l key" r] by simp
  next
    case c: 2
    then have "\<not> key < k" by simp
    then show ?thesis
      using c "2.IH"(2) ok avl_fix_shrunk [OF ok(3-5), of l "avl_remove r key"] by simp
  next
    case 3
    then show ?thesis using ok by auto
  next
    case 4
    then obtain sk sv where s: "leftmost r = Some (sk, sv)"
      using leftmost_hd [of r] by (cases "hd (inorder r)") auto
    have "avl_ok (avl_remove r sk) \<and> height (avl_remove r sk) \<le> height r \<and>
        height r \<le> Suc (height (avl_remove r sk))"
      using "2.IH"(3) [OF _ _ 4(2,3) s, of sk sv] ok 4 by auto
    then show ?thesis
      using 4 s ok avl_fix_shrunk [OF ok(3-5), of l "avl_remove r sk"] by simp
  qed
qed simp

lemma avl_assign_shape [simp]:
  "height (avl_assign t key val) = height t" "nodes (avl_assign t key val) = nodes t"
  by (induction t key val rule: avl_assign.induct) auto

lemma avl_assign_ok: "avl_ok t \<Longrightarrow> avl_ok (avl_assign t key val)"
  by (induction t key val rule: avl_assign.induct) auto

text \<open>The height of a balanced tree is logarithmic in the number of nodes.\<close>

lemma balanced_height: "balanced t \<Longrightarrow> 2 ^ height t \<le> (Suc (nodes t)) ^ 2"
proof (induction t rule: measure_induct_rule [of height])
  case (less t)
  show ?case
  proof (cases t)
    case (AVLNode k v d w l r)
    define m where "m = min (height l) (height r)"
    have h: "height t \<le> m + 2" and bal: "balanced l" "balanced r"
      using less.prems by (auto simp: AVLNode m_def)
    have "2 ^ height l \<le> (Suc (nodes l)) ^ 2" "2 ^ height r \<le> (Suc (nodes r)) ^ 2"
      using less.IH [of l] less.IH [of r] bal by (simp_all add: AVLNode)
    moreover have "(2::nat) ^ m \<le> 2 ^ height l" "(2::nat) ^ m \<le> 2 ^ height r"
      by (simp_all add: m_def)
    ultimately have "2 ^ m \<le> (Suc (nodes l)) ^ 2" "2 ^ m \<le> (Suc (nodes r)) ^ 2"
      by linarith+
    then have "4 * 2 ^ m \<le> (2 * min (Suc (nodes l)) (Suc (nodes r))) ^ 2"
      by (simp add: power_mult_distrib min_def)
    also have "\<dots> \<le> (Suc (nodes t)) ^ 2"
      by (intro power_mono) (auto simp: AVLNode)
    finally have "4 * 2 ^ m \<le> (Suc (nodes t)) ^ 2" .
    moreover have "(2::nat) ^ height t \<le> 2 ^ (m + 2)" using h by (intro power_increasing) auto
    ultimately show ?thesis by simp
  qed simp
qed

section \<open>The tree as a map\<close>

definition avl_inv :: "('k::linorder, 'v) avl_tree \<Rightarrow> bool" where
  "avl_inv t \<longleftrightarrow> tree_mutex t = Unlocked \<and> bst (avl_root t) \<and> avl_ok (avl_root t) \<and>
     nodes (avl_root t) \<le> 2 ^ 31"

definition avl_map :: "('k::linorder, 'v) avl_tree \<Rightarrow> 'k \<rightharpoonup> 'v" where
  "avl_map t = map_of (inorder (avl_root t))"

definition avl_limit :: nat where
  "avl_limit = 2 ^ 31"

lemma bst_distinct: "bst t \<Longrightarrow> distinct (map fst (inorder t))"
  by (auto simp: bst_def strict_sorted_iff)

lemma map_of_inorder: "bst t \<Longrightarrow> map_of (inorder t) k = Some v \<longleftrightarrow> (k, v) \<in> contents t"
  by (simp add: bst_distinct contents_def)

lemma map_of_inorder_eqI:
  assumes "bst t" and "\<And>k v. f k = Some v \<longleftrightarrow> (k, v) \<in> contents t"
  shows "map_of (inorder t) = f"
proof
  fix k
  show "map_of (inorder t) k = f k"
    using map_of_inorder [OF assms(1), of k] assms(2) [of k] by (metis not_Some_eq)
qed

lemma nodes_card:
  assumes "bst t"
  shows "nodes t = card (dom (map_of (inorder t)))"
  using distinct_card [OF bst_distinct [OF assms]]
  by (simp add: nodes_def dom_map_of_conv_image_fst)

lemma height_le_nodes: "height t \<le> nodes t"
  by (induction t) auto

lemma small_height:
  assumes "nodes t \<le> 2 ^ 31"
  shows "height t < max_height"
proof -
  have "(2::nat) ^ 31 < max_height" by (simp add: max_height_def)
  then show ?thesis using height_le_nodes [of t] assms by linarith
qed

lemma avl_get_map: "avl_inv t \<Longrightarrow> avl_get k t = avl_map t k"
proof -
  assume "avl_inv t"
  then have bst: "bst (avl_root t)" by (simp add: avl_inv_def)
  have "avl_get k t = node_val (avl_search (avl_root t) k)"
    by (cases "avl_search (avl_root t) k") (simp_all add: avl_get_def)
  then show ?thesis
    using avl_search_contents [OF bst, of k] map_of_inorder [OF bst, of k]
    by (metis avl_map_def not_Some_eq)
qed

lemma avl_set_map:
  assumes inv: "avl_inv t" and room: "card (dom (avl_map t)) < avl_limit"
  shows "\<exists>t'. avl_set k v t = Inr t' \<and> avl_inv t' \<and> avl_map t' = (avl_map t)(k \<mapsto> v)"
proof -
  let ?r = "avl_root t"
  have bst: "bst ?r" and ok: "avl_ok ?r" and u: "tree_mutex t = Unlocked" and n: "nodes ?r \<le> 2 ^ 31"
    using inv by (auto simp: avl_inv_def)
  note mem = map_of_inorder [OF bst]
  show ?thesis
  proof (cases "k \<in> fst ` contents ?r")
    case True
    let ?a = "avl_assign ?r k v"
    have a: "bst ?a" "contents ?a = insert (k, v) {p \<in> contents ?r. fst p \<noteq> k}"
      using avl_assign_contents [OF bst True] by auto
    have "map_of (inorder ?a) = (map_of (inorder ?r))(k \<mapsto> v)"
      using a mem by (intro map_of_inorder_eqI) auto
    then show ?thesis
      using True a(1) ok u n avl_search_Null [OF bst, of k] avl_assign_ok [OF ok, of k v]
      by (auto simp: avl_set_def avl_inv_def avl_map_def)
  next
    case False
    let ?a = "avl_insert ?r k v"
    have a: "bst ?a" "contents ?a = insert (k, v) (contents ?r)"
      using avl_insert_contents [OF bst] False by auto
    have m: "map_of (inorder ?a) = (map_of (inorder ?r))(k \<mapsto> v)"
      using a mem False by (intro map_of_inorder_eqI) (auto simp: image_iff)
    then have "nodes ?a \<le> Suc (nodes ?r)"
      using nodes_card [OF a(1)] nodes_card [OF bst] by (simp add: card_insert_if finite_dom_map_of)
    moreover have "nodes ?r < 2 ^ 31"
      using room nodes_card [OF bst] by (simp add: avl_map_def avl_limit_def)
    ultimately show ?thesis
      using False a(1) ok u m small_height [OF n] avl_search_Null [OF bst, of k]
        avl_insert_ok [OF ok, of k v]
      by (auto simp: avl_set_def avl_inv_def avl_map_def)
  qed
qed

lemma avl_del_map:
  assumes inv: "avl_inv t"
  shows "\<exists>t'. avl_del k t = Inr t' \<and> avl_inv t' \<and> avl_map t' = (avl_map t)(k := None)"
proof -
  let ?r = "avl_root t" and ?a = "avl_remove (avl_root t) k"
  have bst: "bst ?r" and ok: "avl_ok ?r" and u: "tree_mutex t = Unlocked" and n: "nodes ?r \<le> 2 ^ 31"
    using inv by (auto simp: avl_inv_def)
  have a: "bst ?a" "contents ?a = {p \<in> contents ?r. fst p \<noteq> k}"
    using avl_remove_contents [OF bst] by auto
  have m: "map_of (inorder ?a) = (map_of (inorder ?r))(k := None)"
    using a map_of_inorder [OF bst] by (intro map_of_inorder_eqI) auto
  then have "nodes ?a \<le> nodes ?r"
    using nodes_card [OF a(1)] nodes_card [OF bst] card_Diff1_le by simp
  moreover have "avl_ok ?a" using avl_remove_ok [OF ok] small_height [OF n] by simp
  ultimately show ?thesis
    using a(1) u m n by (cases "?r = Null") (auto simp: avl_del_def avl_inv_def avl_map_def)
qed

interpretation avl: overwriting_map avl_new avl_set avl_get avl_del avl_exists avl_inv avl_map avl_limit
proof
  show "avl_inv avl_new \<and> avl_map avl_new = Map.empty"
    by (simp add: avl_inv_def avl_new_def avl_map_def)
  fix t :: "('k::linorder, 'v) avl_tree" and k
  assume inv: "avl_inv t"
  show "avl_exists k t = Inr (k \<in> dom (avl_map t))"
    using inv avl_search_Null [of "avl_root t" k]
    by (auto simp: avl_exists_def avl_inv_def avl_map_def dom_map_of_conv_image_fst contents_def)
  show "finite (dom (avl_map t))" by (simp add: avl_map_def finite_dom_map_of)
qed (auto simp: avl_set_map avl_get_map avl_del_map)

section \<open>Properties\<close>

text \<open>
  A sequence of \<^verbatim>\<open>set\<close> calls (a key with a value) and \<^verbatim>\<open>del\<close> calls (a key with none) on an
  empty tree.
\<close>

definition avl_run :: "('k::linorder \<times> 'v option) list \<Rightarrow> ('k, 'v) avl_tree result" where
  "avl_run us =
     fold (\<lambda>(k, u) r. bindR r (case u of Some v \<Rightarrow> avl_set k v | None \<Rightarrow> avl_del k)) us (Inr avl_new)"

text \<open>
  C6: A sequence of at most $2^{31}$ insertions and removals on an empty tree returns, keeps the
  tree ordered, balanced and correctly measured, and \<^verbatim>\<open>get\<close> and \<^verbatim>\<open>exists\<close> then answer for every
  key as the finite map does that received the same updates.
\<close>

theorem avl_refines_map:
  fixes us :: "('k::linorder \<times> 'v option) list"
  assumes "length us \<le> 2 ^ 31"
  shows "\<exists>t. avl_run us = Inr t \<and> avl_inv t \<and>
    (\<forall>k. avl_get k t = fold (\<lambda>(k, u) f. f(k := u)) us Map.empty k) \<and>
    (\<forall>k. avl_exists k t = Inr (fold (\<lambda>(k, u) f. f(k := u)) us Map.empty k \<noteq> None))"
proof -
  have new: "avl_inv (avl_new :: ('k, 'v) avl_tree)" "avl_map (avl_new :: ('k, 'v) avl_tree) = Map.empty"
    using avl.new_ok by auto
  obtain t where t: "avl_run us = Inr t" "avl_inv t"
      "avl_map t = fold (\<lambda>(k, u) f. f(k := u)) us Map.empty"
    using avl.run_ok [OF new(1), of us] assms new(2) by (auto simp: avl_run_def avl_limit_def)
  then show ?thesis using avl_get_map [OF t(2)] avl.has_iff_get [OF t(2)] by auto
qed

theorem avl_refines_map_witness:
  "\<exists>t. avl_run [(2, Some ''b''), (1, Some ''a''), (3::nat, Some ''c''), (2, None), (1, Some ''z'')] = Inr t \<and>
    avl_get 1 t = Some ''z'' \<and> avl_get 2 t = None \<and> avl_exists 3 t = Inr True"
  using avl_refines_map [of "[(2, Some ''b''), (1, Some ''a''), (3::nat, Some ''c''), (2, None), (1, Some ''z'')]"]
  by auto


definition example_tree :: "(nat, string) avl_tree" where
  "example_tree =
     \<lparr>avl_root = AVLNode 1 ''a'' 2 2 Null (AVLNode 2 ''b'' 1 1 Null Null), tree_mutex = Unlocked\<rparr>"


text \<open>
  \<^verbatim>\<open>fix\<close> on a node whose subtrees are balanced and differ in height by two keeps the keys
  in order and gives a balanced, correctly measured tree that is at most one level lower
  than the node was.
\<close>

theorem avl_fix_rebalances:
  assumes "avl_ok l" and "avl_ok r"
    and "height l = height r + 2 \<or> height r = height l + 2"
    and "height l < 2 ^ 31" and "height r < 2 ^ 31"
  shows "inorder (avl_fix (AVLNode k v d w l r)) = inorder l @ (k, v) # inorder r \<and>
    avl_ok (avl_fix (AVLNode k v d w l r)) \<and>
    height (avl_fix (AVLNode k v d w l r)) \<le> height (AVLNode k v d w l r) \<and>
    height (AVLNode k v d w l r) \<le> Suc (height (avl_fix (AVLNode k v d w l r)))"
proof -
  have "height l \<le> max_height" "height r \<le> max_height"
    using assms(4,5) by (simp_all add: max_height_def)
  then show ?thesis
    using avl_fix_ok [OF assms(1,2), of k v d w] assms(3) by (auto split: if_splits)
qed

theorem avl_fix_rebalances_witness:
  "let t = avl_fix (AVLNode (1::nat) () 0 0 Null (AVLNode 3 () 2 2 (AVLNode 2 () 1 1 Null Null) Null))
   in avl_ok t \<and> inorder t = [(1, ()), (2, ()), (3, ())]"
proof -
  have "avl_ok (AVLNode (3::nat) () 2 2 (AVLNode 2 () 1 1 Null Null) Null)" by simp
  from avl_fix_rebalances [OF _ this, of Null 1 "()" 0 0] show ?thesis by (simp add: Let_def)
qed

end
