(* ===== verification/ZSet.thy ===== *)
theory ZSet
  imports Hash_Table AVL_Tree "HOL-Library.List_Lexorder" "HOL-Library.Char_ord"
begin

text \<open>
  The sorted set of \<^verbatim>\<open>src/src/dsa/zset.hpp\<close>: a hash map from member names to nodes, a tree from
  member names to scores, and the vector that keeps the nodes alive.

  The tree comes from a header \<^verbatim>\<open>avl.hpp\<close> that the repository does not contain; its operations
  are a parameter of the definitions.  A node pointer is an address, or \<open>None\<close> for null; a node
  lives while the vector holds it, and an access to another address is \<open>Dangling\<close>.  A score is
  the 64-bit representation of a double.
\<close>

section \<open>State\<close>

record 't tree_ops =
  t_set :: "string \<Rightarrow> u64 \<Rightarrow> 't \<Rightarrow> 't result"
  t_del :: "string \<Rightarrow> 't \<Rightarrow> 't result"
  t_exists :: "string \<Rightarrow> 't \<Rightarrow> bool result"

record znode =
  zn_addr :: nat
  zn_key :: string
  zn_score :: u64

record 't zset =
  zs_tree :: 't
  zs_hash :: "(string, nat option) hmap"
  zs_nodes :: "znode list"
  zs_mutex :: mutex
  zs_next :: nat

definition zset_new :: "'t \<Rightarrow> 't zset" where
  "zset_new t = \<lparr>zs_tree = t, zs_hash = hmap_default, zs_nodes = [], zs_mutex = Unlocked, zs_next = 0\<rparr>"

text \<open>Reading and writing a node through its address.\<close>

definition deref :: "nat \<Rightarrow> znode list \<Rightarrow> znode result" where
  "deref a ns = (case find (\<lambda>n. zn_addr n = a) ns of None \<Rightarrow> Inl Dangling | Some n \<Rightarrow> Inr n)"

definition set_score :: "nat \<Rightarrow> u64 \<Rightarrow> znode list \<Rightarrow> znode list" where
  "set_score a score ns = map (\<lambda>n. if zn_addr n = a then n\<lparr>zn_score := score\<rparr> else n) ns"

section \<open>Operations\<close>

text \<open>The test \<^verbatim>\<open>node_ptr && *node_ptr\<close> on the result of \<^verbatim>\<open>hash.find\<close>.\<close>

definition found_node :: "nat option option \<Rightarrow> nat option" where
  "found_node p = (case p of Some (Some a) \<Rightarrow> Some a | _ \<Rightarrow> None)"

definition zset_lookup :: "string \<Rightarrow> 't zset \<Rightarrow> (nat option \<times> 't zset) result" where
  "zset_lookup name z =
     bindR (lock_shared (zs_mutex z)) (\<lambda>_.
       bindR (hmap_find hash_key_string name (zs_hash z)) (\<lambda>(p, h).
         Inr (found_node p, z\<lparr>zs_hash := h\<rparr>)))"

definition update_score :: "'t tree_ops \<Rightarrow> nat option \<Rightarrow> u64 \<Rightarrow> 't zset \<Rightarrow> (bool \<times> 't zset) result" where
  "update_score T node new_score z =
     bindR (lock_unique (zs_mutex z)) (\<lambda>_.
       case node of
         None \<Rightarrow> Inr (False, z)
       | Some a \<Rightarrow>
           bindR (deref a (zs_nodes z)) (\<lambda>n.
             if zn_key n = [] then Inr (False, z)
             else bindR (hmap_find hash_key_string (zn_key n) (zs_hash z)) (\<lambda>(p, h).
               if found_node p = None then Inr (False, z\<lparr>zs_hash := h\<rparr>)
               else bindR (t_del T (zn_key n) (zs_tree z)) (\<lambda>t.
                 bindR (t_set T (zn_key n) new_score t) (\<lambda>t.
                   Inr (True, z\<lparr>zs_hash := h, zs_tree := t,
                     zs_nodes := set_score a new_score (zs_nodes z)\<rparr>))))))"

text \<open>\<^verbatim>\<open>add_internal\<close> calls \<^verbatim>\<open>lookup\<close>, which locks again, while it holds the lock.\<close>

definition add_internal :: "'t tree_ops \<Rightarrow> string \<Rightarrow> u64 \<Rightarrow> 't zset \<Rightarrow> (bool \<times> 't zset) result" where
  "add_internal T name score z =
     bindR (lock_unique (zs_mutex z)) (\<lambda>l.
       bindR (zset_lookup name (z\<lparr>zs_mutex := l\<rparr>)) (\<lambda>(node, z).
         case node of
           Some a \<Rightarrow> bindR (update_score T (Some a) score z) (\<lambda>(_, z).
             Inr (False, z\<lparr>zs_mutex := Unlocked\<rparr>))
         | None \<Rightarrow>
             if name = [] then Inr (False, z\<lparr>zs_mutex := Unlocked\<rparr>)
             else let a = zs_next z;
                      nodes = zs_nodes z @ [\<lparr>zn_addr = a, zn_key = name, zn_score = score\<rparr>]
                  in bindR (hmap_insert hash_key_string name (Some a) (zs_hash z)) (\<lambda>h.
                       bindR (t_set T name score (zs_tree z)) (\<lambda>t.
                         Inr (True, z\<lparr>zs_nodes := nodes, zs_hash := h, zs_tree := t,
                           zs_next := Suc a, zs_mutex := Unlocked\<rparr>)))))"

definition pop_internal :: "'t tree_ops \<Rightarrow> string \<Rightarrow> 't zset \<Rightarrow> (nat option \<times> 't zset) result" where
  "pop_internal T name z =
     bindR (lock_unique (zs_mutex z)) (\<lambda>_.
       bindR (hmap_find hash_key_string name (zs_hash z)) (\<lambda>(p, h).
         case found_node p of
           None \<Rightarrow> Inr (None, z\<lparr>zs_hash := h\<rparr>)
         | Some a \<Rightarrow>
             bindR (hmap_remove hash_key_string name h) (\<lambda>(_, h).
               bindR (deref a (zs_nodes z)) (\<lambda>n.
                 bindR (t_del T (zn_key n) (zs_tree z)) (\<lambda>t.
                   Inr (Some a, z\<lparr>zs_hash := h, zs_tree := t,
                     zs_nodes := filter (\<lambda>n. zn_addr n \<noteq> a) (zs_nodes z)\<rparr>))))))"

definition remove_internal :: "'t tree_ops \<Rightarrow> string \<Rightarrow> 't zset \<Rightarrow> (bool \<times> 't zset) result" where
  "remove_internal T name z =
     bindR (lock_unique (zs_mutex z)) (\<lambda>_.
       bindR (hmap_find hash_key_string name (zs_hash z)) (\<lambda>(p, h).
         case found_node p of
           None \<Rightarrow> Inr (False, z\<lparr>zs_hash := h\<rparr>)
         | Some a \<Rightarrow>
             bindR (hmap_remove hash_key_string name h) (\<lambda>(_, h).
               bindR (deref a (zs_nodes z)) (\<lambda>n.
                 bindR (t_del T (zn_key n) (zs_tree z)) (\<lambda>t.
                   Inr (True, z\<lparr>zs_hash := h, zs_tree := t,
                     zs_nodes := filter (\<lambda>n. zn_addr n \<noteq> a) (zs_nodes z)\<rparr>))))))"

definition zset_query :: "'t tree_ops \<Rightarrow> u64 \<Rightarrow> string \<Rightarrow> u64 \<Rightarrow> 't zset \<Rightarrow>
    (nat option \<times> 't zset) result" where
  "zset_query T score name offset z =
     bindR (lock_shared (zs_mutex z)) (\<lambda>l.
       bindR (t_exists T name (zs_tree z)) (\<lambda>e.
         if e then bindR (zset_lookup name (z\<lparr>zs_mutex := l\<rparr>)) (\<lambda>(r, z).
           Inr (r, z\<lparr>zs_mutex := Unlocked\<rparr>))
         else Inr (None, z)))"

section \<open>Well-formed sorted sets\<close>

definition members :: "'t zset \<Rightarrow> string \<rightharpoonup> u64" where
  "members z = map_of (map (\<lambda>n. (zn_key n, zn_score n)) (zs_nodes z))"

text \<open>
  The hash map, the tree and the node vector agree: a name is bound exactly when a node carries
  it, to the address of that node, and the tree maps it to the node's score.
\<close>

definition zset_wf :: "('t \<Rightarrow> bool) \<Rightarrow> ('t \<Rightarrow> string \<rightharpoonup> u64) \<Rightarrow> nat \<Rightarrow> 't zset \<Rightarrow> bool" where
  "zset_wf tinv tabs limit z \<longleftrightarrow> zs_mutex z = Unlocked \<and> hmap_stable hash_key_string (zs_hash z) \<and>
     tinv (zs_tree z) \<and> tabs (zs_tree z) = members z \<and> card (dom (members z)) \<le> limit \<and>
     distinct (map zn_addr (zs_nodes z)) \<and> distinct (map zn_key (zs_nodes z)) \<and>
     [] \<notin> set (map zn_key (zs_nodes z)) \<and>
     (\<forall>name. hm_stack (zs_hash z) name = map (\<lambda>n. Some (zn_addr n)) (filter (\<lambda>n. zn_key n = name) (zs_nodes z)))"

lemma filter_key:
  "distinct (map f ns) \<Longrightarrow> n \<in> set ns \<Longrightarrow> filter (\<lambda>m. f m = f n) ns = [n]"
proof (induction ns)
  case (Cons m ns)
  show ?case
  proof (cases "m = n")
    case True
    then have "filter (\<lambda>m. f m = f n) ns = []" using Cons.prems(1) by (auto simp: filter_empty_conv image_iff)
    then show ?thesis using True by simp
  next
    case False
    then have "f m \<noteq> f n" using Cons.prems by (auto simp: image_iff)
    then show ?thesis using Cons False by auto
  qed
qed simp

lemma deref_node: "distinct (map zn_addr ns) \<Longrightarrow> n \<in> set ns \<Longrightarrow> deref (zn_addr n) ns = Inr n"
  unfolding deref_def by (induction ns) (auto simp: image_iff)

lemma deref_gone: "deref a (filter (\<lambda>n. zn_addr n \<noteq> a) ns) = Inl Dangling"
proof -
  have "find (\<lambda>n. zn_addr n = a) (filter (\<lambda>n. zn_addr n \<noteq> a) ns) = None"
    by (auto simp: find_None_iff)
  then show ?thesis by (simp add: deref_def)
qed

lemma members_node:
  "distinct (map zn_key (zs_nodes z)) \<Longrightarrow>
   members z name = Some s \<longleftrightarrow> (\<exists>n \<in> set (zs_nodes z). zn_key n = name \<and> zn_score n = s)"
  by (auto simp: members_def map_of_eq_Some_iff comp_def image_iff)

lemma members_None:
  "members z name = None \<longleftrightarrow> (\<forall>n \<in> set (zs_nodes z). zn_key n \<noteq> name)"
  by (auto simp: members_def map_of_eq_None_iff image_iff)

lemma hash_stack_cases:
  assumes "zset_wf tinv tabs limit z"
  obtains (absent) "hm_stack (zs_hash z) name = []" and "members z name = None"
  | (present) n where "n \<in> set (zs_nodes z)" and "zn_key n = name"
      and "hm_stack (zs_hash z) name = [Some (zn_addr n)]" and "members z name = Some (zn_score n)"
proof (cases "\<exists>n \<in> set (zs_nodes z). zn_key n = name")
  case True
  then obtain n where n: "n \<in> set (zs_nodes z)" "zn_key n = name" by blast
  have d: "distinct (map zn_key (zs_nodes z))" using assms by (simp add: zset_wf_def)
  have "hm_stack (zs_hash z) name = [Some (zn_addr n)]"
    using assms filter_key [OF d n(1)] n(2) by (simp add: zset_wf_def)
  then show thesis using n members_node [OF d] by (intro present) auto
next
  case False
  then have "filter (\<lambda>n. zn_key n = name) (zs_nodes z) = []" by (simp add: filter_empty_conv)
  then show thesis using False assms by (intro absent) (auto simp: zset_wf_def members_None)
qed

lemma members_removed:
  assumes "distinct (map zn_addr ns)" and "distinct (map zn_key ns)" and "n \<in> set ns"
  shows "filter (\<lambda>m. zn_addr m \<noteq> zn_addr n) ns = filter (\<lambda>m. zn_key m \<noteq> zn_key n) ns"
proof (rule filter_cong [OF refl])
  fix m assume "m \<in> set ns"
  then show "zn_addr m \<noteq> zn_addr n \<longleftrightarrow> zn_key m \<noteq> zn_key n"
    using assms by (metis distinct_map inj_on_eq_iff)
qed

lemma map_of_without:
  "map_of (map (\<lambda>n. (zn_key n, zn_score n)) (filter (\<lambda>m. zn_key m \<noteq> k) ns)) =
   (map_of (map (\<lambda>n. (zn_key n, zn_score n)) ns))(k := None)"
  by (induction ns) (auto simp: fun_eq_iff)

lemma map_of_set_score:
  "distinct (map zn_addr ns) \<Longrightarrow> distinct (map zn_key ns) \<Longrightarrow> n \<in> set ns \<Longrightarrow>
   map_of (map (\<lambda>n. (zn_key n, zn_score n)) (set_score (zn_addr n) s ns)) =
   (map_of (map (\<lambda>n. (zn_key n, zn_score n)) ns))(zn_key n \<mapsto> s)"
proof (induction ns)
  case (Cons m ns)
  show ?case
  proof (cases "m = n")
    case True
    then have "set_score (zn_addr n) s ns = ns"
      using Cons.prems(1) by (auto simp: set_score_def image_iff intro!: map_idI)
    then show ?thesis using True by (simp add: set_score_def fun_eq_iff)
  next
    case False
    then have "zn_addr m \<noteq> zn_addr n" "zn_key m \<noteq> zn_key n" using Cons.prems by (auto simp: image_iff)
    then show ?thesis using Cons False by (auto simp: set_score_def fun_upd_twist)
  qed
qed simp

text \<open>What the sorted set asks of its tree: to be a map in the sense of the contract.\<close>

locale zset_tree = overwriting_map new_t "t_set T" get "t_del T" "t_exists T" inv abs limit
  for T :: "'t tree_ops" and new_t :: 't and get :: "string \<Rightarrow> 't \<Rightarrow> u64 option"
    and inv :: "'t \<Rightarrow> bool" and abs :: "'t \<Rightarrow> string \<rightharpoonup> u64" and limit :: nat
begin

lemma new_wf: "zset_wf inv abs limit (zset_new new_t)"
  using new_ok hm.inv_new by (simp add: zset_wf_def zset_new_def members_def)

text \<open>Removing the node, the hash binding and the tree key of a member.\<close>

lemma removed_wf:
  assumes wf: "zset_wf inv abs limit z" and n: "n \<in> set (zs_nodes z)"
    and h: "hmap_stable hash_key_string h"
      "hm_stack h = (hm_stack (zs_hash z))(zn_key n := tl (hm_stack (zs_hash z) (zn_key n)))"
    and t: "inv t" "abs t = (abs (zs_tree z))(zn_key n := None)"
  defines "z' \<equiv> z\<lparr>zs_hash := h, zs_tree := t,
    zs_nodes := filter (\<lambda>m. zn_addr m \<noteq> zn_addr n) (zs_nodes z)\<rparr>"
  shows "zset_wf inv abs limit z' \<and> members z' = (members z)(zn_key n := None)"
proof -
  have d: "distinct (map zn_addr (zs_nodes z))" "distinct (map zn_key (zs_nodes z))"
    using wf by (auto simp: zset_wf_def)
  have ns: "zs_nodes z' = filter (\<lambda>m. zn_key m \<noteq> zn_key n) (zs_nodes z)"
    by (simp add: z'_def members_removed [OF d n])
  have mem: "members z' = (members z)(zn_key n := None)"
    by (simp add: members_def ns map_of_without)
  have "card (dom (members z')) \<le> card (dom (members z))"
    using mem by (simp add: card_Diff1_le members_def)
  moreover have "hm_stack h name = map (\<lambda>m. Some (zn_addr m)) (filter (\<lambda>m. zn_key m = name) (zs_nodes z'))" for name
    using wf h(2) filter_key [OF d(2) n]
    by (auto simp: ns zset_wf_def filter_empty_conv intro!: arg_cong [where f = "map _"] filter_cong)
  moreover have "zs_mutex z' = zs_mutex z" "zs_hash z' = h" "zs_tree z' = t" by (simp_all add: z'_def)
  moreover have "abs t = members z'" using wf t(2) mem by (simp add: zset_wf_def)
  ultimately have "zset_wf inv abs limit z'"
    using wf h(1) t(1) d by (auto simp: zset_wf_def ns distinct_map_filter)
  then show ?thesis using mem by blast
qed

lemma remove_internal_ok:
  assumes wf: "zset_wf inv abs limit z"
  shows "\<exists>z'. remove_internal T name z = Inr (members z name \<noteq> None, z') \<and>
    zset_wf inv abs limit z' \<and> members z' = (members z)(name := None)"
proof -
  have u: "zs_mutex z = Unlocked" and st: "hmap_stable hash_key_string (zs_hash z)"
    and d: "distinct (map zn_addr (zs_nodes z))" and tree: "inv (zs_tree z)"
    using wf by (auto simp: zset_wf_def)
  note find = hm.get_top [OF st, of name]
  from wf show ?thesis
  proof (cases rule: hash_stack_cases [where name = name])
    case absent
    then show ?thesis
      using u find wf by (auto simp: remove_internal_def found_node_def fun_upd_idem)
  next
    case (present n)
    obtain h where h: "hmap_remove hash_key_string name (zs_hash z) = Inr (Some (Some (zn_addr n)), h)"
        "hmap_stable hash_key_string h"
        "hm_stack h = (hm_stack (zs_hash z))(name := tl (hm_stack (zs_hash z) name))"
      using hm.del_top [OF st, of name] present by auto
    obtain t where t: "t_del T name (zs_tree z) = Inr t" "inv t" "abs t = (abs (zs_tree z))(name := None)"
      using del_ok [OF tree, of name] by auto
    have "remove_internal T name z = Inr (True, z\<lparr>zs_hash := h, zs_tree := t,
        zs_nodes := filter (\<lambda>m. zn_addr m \<noteq> zn_addr n) (zs_nodes z)\<rparr>)"
      using u find h(1) t(1) present deref_node [OF d present(1)]
      by (simp add: remove_internal_def found_node_def)
    then show ?thesis
      using removed_wf [OF wf present(1) h(2) _ t(2)] h(3) t(3) present by auto
  qed
qed

lemma pop_internal_ok:
  assumes wf: "zset_wf inv abs limit z" and mem: "members z name \<noteq> None"
  shows "\<exists>a z'. pop_internal T name z = Inr (Some a, z') \<and> deref a (zs_nodes z') = Inl Dangling \<and>
    zset_wf inv abs limit z' \<and> members z' = (members z)(name := None)"
proof -
  have u: "zs_mutex z = Unlocked" and st: "hmap_stable hash_key_string (zs_hash z)"
    and d: "distinct (map zn_addr (zs_nodes z))" and tree: "inv (zs_tree z)"
    using wf by (auto simp: zset_wf_def)
  obtain n where n: "n \<in> set (zs_nodes z)" "zn_key n = name"
      "hm_stack (zs_hash z) name = [Some (zn_addr n)]"
    using mem hash_stack_cases [OF wf, of name] by (metis (no_types))
  obtain h where h: "hmap_remove hash_key_string name (zs_hash z) = Inr (Some (Some (zn_addr n)), h)"
      "hmap_stable hash_key_string h"
      "hm_stack h = (hm_stack (zs_hash z))(name := tl (hm_stack (zs_hash z) name))"
    using hm.del_top [OF st, of name] n by auto
  obtain t where t: "t_del T name (zs_tree z) = Inr t" "inv t" "abs t = (abs (zs_tree z))(name := None)"
    using del_ok [OF tree, of name] by auto
  have "pop_internal T name z = Inr (Some (zn_addr n), z\<lparr>zs_hash := h, zs_tree := t,
      zs_nodes := filter (\<lambda>m. zn_addr m \<noteq> zn_addr n) (zs_nodes z)\<rparr>)"
    using u hm.get_top [OF st, of name] h(1) t(1) n deref_node [OF d n(1)]
    by (simp add: pop_internal_def found_node_def)
  then show ?thesis
    using removed_wf [OF wf n(1) h(2) _ t(2)] h(3) t(3) n by (auto simp: deref_gone)
qed

lemma update_score_ok:
  assumes wf: "zset_wf inv abs limit z" and n: "n \<in> set (zs_nodes z)"
  shows "\<exists>z'. update_score T (Some (zn_addr n)) s z = Inr (True, z') \<and>
    zset_wf inv abs limit z' \<and> members z' = (members z)(zn_key n \<mapsto> s)"
proof -
  let ?k = "zn_key n" and ?ns = "set_score (zn_addr n) s (zs_nodes z)"
  have u: "zs_mutex z = Unlocked" and st: "hmap_stable hash_key_string (zs_hash z)"
    and d: "distinct (map zn_addr (zs_nodes z))" "distinct (map zn_key (zs_nodes z))"
    and tree: "inv (zs_tree z)" "abs (zs_tree z) = members z" 
    and lim: "card (dom (members z)) \<le> limit"
    using wf by (auto simp: zset_wf_def)
  have "?k \<in> set (map zn_key (zs_nodes z))" using n by simp
  then have ne: "?k \<noteq> []" using wf by (auto simp: zset_wf_def)
  have stack: "hm_stack (zs_hash z) ?k = [Some (zn_addr n)]"
    using wf filter_key [OF d(2) n] by (simp add: zset_wf_def)
  have mem: "?k \<in> dom (members z)" using n members_node [OF d(2)] by auto
  obtain t1 where t1: "t_del T ?k (zs_tree z) = Inr t1" "inv t1" "abs t1 = (members z)(?k := None)"
    using del_ok [OF tree(1), of ?k] tree(2) by auto
  have "card (dom (abs t1)) < limit"
    using lim mem finite_dom [OF tree(1)] tree(2) t1(3) card_Diff1_less [of "dom (members z)" ?k] by simp
  then obtain t2 where t2: "t_set T ?k s t1 = Inr t2" "inv t2" "abs t2 = (members z)(?k \<mapsto> s)"
    using put_ok [OF t1(2), of ?k s] t1(3) by auto
  define z' where "z' = z\<lparr>zs_tree := t2, zs_nodes := ?ns\<rparr>"
  have keys: "map zn_addr ?ns = map zn_addr (zs_nodes z)" "map zn_key ?ns = map zn_key (zs_nodes z)"
    by (auto simp: set_score_def)
  have filt: "map (\<lambda>m. Some (zn_addr m)) (filter (\<lambda>m. zn_key m = name) ?ns) =
      map (\<lambda>m. Some (zn_addr m)) (filter (\<lambda>m. zn_key m = name) (zs_nodes z))" for name
    unfolding set_score_def by (induction "zs_nodes z" arbitrary: z) (auto simp: filter_map comp_def)
  have res: "update_score T (Some (zn_addr n)) s z = Inr (True, z')"
    using u hm.get_top [OF st, of ?k] stack deref_node [OF d(1) n] ne t1(1) t2(1)
    by (simp add: update_score_def found_node_def z'_def)
  have new: "members z' = (members z)(?k \<mapsto> s)"
    using map_of_set_score [OF d n] by (simp add: members_def z'_def)
  have "zset_wf inv abs limit z'"
    using wf t2 new mem by (auto simp: zset_wf_def z'_def keys filt insert_absorb simp flip: set_map)
  then show ?thesis using res new by blast
qed

end

definition avl_ops :: "(string, u64) avl_tree tree_ops" where
  "avl_ops = \<lparr>t_set = avl_set, t_del = avl_del, t_exists = avl_exists\<rparr>"

interpretation zavl: zset_tree avl_ops avl_new avl_get avl_inv avl_map avl_limit
  unfolding zset_tree_def avl_ops_def by (simp add: avl.overwriting_map_axioms)

section \<open>Properties\<close>

text \<open>
  Adding a member never returns: \<^verbatim>\<open>add_internal\<close> holds the mutex of the set when it calls
  \<^verbatim>\<open>lookup\<close>, which acquires it again; a query for a member that the tree holds fails in the same
  way.
\<close>

theorem zset_add_relocks:
  "add_internal T name score z = Inl Relock \<and>
   zset_query T score name offset (z\<lparr>zs_mutex := Unlocked\<rparr>) =
     bindR (t_exists T name (zs_tree z))
       (\<lambda>e. if e then Inl Relock else Inr (None, z\<lparr>zs_mutex := Unlocked\<rparr>))"
  by (cases "zs_mutex z"; cases "t_exists T name (zs_tree z)")
    (auto simp: add_internal_def zset_query_def zset_lookup_def)

text \<open>
  C27: On a sorted set whose hash map, tree and nodes agree, removing a member reports whether
  it was there, removes it from all three and keeps their agreement, for every tree that is a
  map; popping a member does the same, but the pointer it returns is dangling.
\<close>

theorem zset_removal:
  assumes "zset_tree T new_t get tinv tabs limit" and "zset_wf tinv tabs limit z"
  shows "(\<exists>z'. remove_internal T name z = Inr (members z name \<noteq> None, z') \<and>
      zset_wf tinv tabs limit z' \<and> members z' = (members z)(name := None)) \<and>
    (members z name \<noteq> None \<longrightarrow> (\<exists>a z'. pop_internal T name z = Inr (Some a, z') \<and>
      deref a (zs_nodes z') = Inl Dangling \<and> members z' = (members z)(name := None)))"
  using zset_tree.remove_internal_ok [OF assms] zset_tree.pop_internal_ok [OF assms] by blast

definition example_zset :: "(string, u64) avl_tree zset" where
  "example_zset =
     \<lparr>zs_tree = \<lparr>avl_root = AVLNode ''bob'' 7 1 1 Null Null, tree_mutex = Unlocked\<rparr>,
      zs_hash = (case hmap_insert hash_key_string ''bob'' (Some 0) hmap_default of
        Inr h \<Rightarrow> h | Inl _ \<Rightarrow> hmap_default),
      zs_nodes = [\<lparr>zn_addr = 0, zn_key = ''bob'', zn_score = 7\<rparr>],
      zs_mutex = Unlocked, zs_next = 1\<rparr>"

lemma example_zset_wf: "zset_wf avl_inv avl_map avl_limit example_zset"
proof -
  obtain h where h: "hmap_insert hash_key_string ''bob'' (Some (0::nat)) hmap_default = Inr h"
      "hmap_stable hash_key_string h"
      "hm_stack h = (hm_stack hmap_default)(''bob'' := Some 0 # hm_stack hmap_default ''bob'')"
    using hm.put_room [OF hmap_stable_default, of hash_key_string "''bob''" "Some 0"]
    by (auto simp: hm.count_new hmap_limit_eq)
  have z: "zs_hash example_zset = h" by (simp add: example_zset_def h(1))
  have m: "members example_zset = [''bob'' \<mapsto> 7]" by (simp add: members_def example_zset_def)
  have "avl_inv (zs_tree example_zset) \<and> avl_map (zs_tree example_zset) = [''bob'' \<mapsto> 7]"
    by (simp add: example_zset_def avl_inv_def avl_map_def)
  then show ?thesis
    using h(2,3) unfolding zset_wf_def z m
    by (auto simp: example_zset_def avl_limit_def)
qed

theorem zset_removal_witness:
  "\<exists>z'. remove_internal avl_ops ''bob'' example_zset = Inr (True, z') \<and> members z' ''bob'' = None"
proof -
  have "members example_zset ''bob'' \<noteq> None" by (simp add: members_def example_zset_def)
  then show ?thesis
    using zset_removal [OF zavl.zset_tree_axioms example_zset_wf, of "''bob''"] by auto
qed

text \<open>
  C28: Updating the score of a node of the set changes the score of its member in the node and
  in the tree and nothing else, for every tree that is a map.
\<close>

theorem zset_update_score:
  assumes "zset_tree T new_t get tinv tabs limit" and "zset_wf tinv tabs limit z"
    and "n \<in> set (zs_nodes z)"
  shows "\<exists>z'. update_score T (Some (zn_addr n)) s z = Inr (True, z') \<and>
    zset_wf tinv tabs limit z' \<and> members z' = (members z)(zn_key n \<mapsto> s)"
  by (rule zset_tree.update_score_ok [OF assms])

theorem zset_update_score_witness:
  "\<exists>z'. update_score avl_ops (Some 0) 9 example_zset = Inr (True, z') \<and> members z' ''bob'' = Some 9"
proof -
  let ?n = "\<lparr>zn_addr = 0, zn_key = ''bob'', zn_score = 7\<rparr>"
  have "?n \<in> set (zs_nodes example_zset)" by (simp add: example_zset_def)
  then show ?thesis
    using zset_update_score [OF zavl.zset_tree_axioms example_zset_wf, of ?n 9] by auto
qed

end
