(* ===== verification/Binary_Heap.thy ===== *)
theory Binary_Heap
  imports Interfaces
begin

text \<open>
  The array heap \<^verbatim>\<open>BinaryHeap\<close> of \<^verbatim>\<open>src/src/dsa/heap.hpp\<close>.  An item carries a value and a
  pointer to the place where its owner keeps the item's index; the places are a store from
  references to 64-bit indices, which every move of an item updates.
\<close>

section \<open>Items and the sifting loops\<close>

record ('v, 'r) heap_item =
  hi_value :: 'v
  hi_ref :: "'r option"

type_synonym 'r refs = "'r \<Rightarrow> u64"

definition heap_parent :: "nat \<Rightarrow> nat" where
  "heap_parent i = (i + 1) div 2 - 1"

definition left_child :: "nat \<Rightarrow> nat" where
  "left_child i = i * 2 + 1"

definition right_child :: "nat \<Rightarrow> nat" where
  "right_child i = i * 2 + 2"

text \<open>\<^verbatim>\<open>if (items_[pos].position_ref_) *items_[pos].position_ref_ = pos\<close>.\<close>

definition set_ref :: "'r option \<Rightarrow> nat \<Rightarrow> 'r refs \<Rightarrow> 'r refs" where
  "set_ref r pos refs = (case r of None \<Rightarrow> refs | Some a \<Rightarrow> refs(a := of_nat pos))"

text \<open>
  The loop of \<^verbatim>\<open>sift_up\<close>: \<open>temp\<close> is the item taken out of the hole at \<open>pos\<close>; parents move
  down into the hole until the place of \<open>temp\<close> is found.
\<close>

function sift_up_loop :: "('v \<Rightarrow> 'v \<Rightarrow> bool) \<Rightarrow> ('v, 'r) heap_item \<Rightarrow> nat \<Rightarrow>
    ('v, 'r) heap_item list \<Rightarrow> 'r refs \<Rightarrow> nat \<times> ('v, 'r) heap_item list \<times> 'r refs" where
  "sift_up_loop cmp temp pos items refs =
     (if pos > 0 \<and> cmp (hi_value temp) (hi_value (items ! heap_parent pos)) then
        let items = items[pos := items ! heap_parent pos]
        in sift_up_loop cmp temp (heap_parent pos) items (set_ref (hi_ref (items ! pos)) pos refs)
      else (pos, items, refs))"
  by pat_completeness auto
termination
  by (relation "measure (\<lambda>(cmp, temp, pos, items, refs). pos)") (auto simp: heap_parent_def)

declare sift_up_loop.simps [simp del]

text \<open>Placing \<open>temp\<close> into the hole that a loop leaves.\<close>

definition sift_finish :: "('v, 'r) heap_item \<Rightarrow>
    nat \<times> ('v, 'r) heap_item list \<times> 'r refs \<Rightarrow> ('v, 'r) heap_item list \<times> 'r refs" where
  "sift_finish temp s =
     (case s of (pos, items, refs) \<Rightarrow> (items[pos := temp], set_ref (hi_ref temp) pos refs))"

definition sift_up :: "('v \<Rightarrow> 'v \<Rightarrow> bool) \<Rightarrow> nat \<Rightarrow> ('v, 'r) heap_item list \<Rightarrow> 'r refs \<Rightarrow>
    ('v, 'r) heap_item list \<times> 'r refs" where
  "sift_up cmp pos items refs =
     (let temp = items ! pos in sift_finish temp (sift_up_loop cmp temp pos items refs))"

text \<open>The child that \<^verbatim>\<open>sift_down\<close> moves up, or \<open>pos\<close> itself.\<close>

definition sift_min_pos :: "('v \<Rightarrow> 'v \<Rightarrow> bool) \<Rightarrow> ('v, 'r) heap_item \<Rightarrow> nat \<Rightarrow> nat \<Rightarrow>
    ('v, 'r) heap_item list \<Rightarrow> nat" where
  "sift_min_pos cmp temp len pos items =
     (let min_pos = pos; left = left_child pos; right = right_child pos;
          min_pos = (if left < len \<and> cmp (hi_value (items ! left)) (hi_value temp)
                     then left else min_pos)
      in if right < len \<and> cmp (hi_value (items ! right))
              (if min_pos = pos then hi_value temp else hi_value (items ! min_pos))
         then right else min_pos)"

lemma sift_min_pos_cases:
  "sift_min_pos cmp temp len pos items = pos \<or>
   (sift_min_pos cmp temp len pos items < len \<and>
    (sift_min_pos cmp temp len pos items = left_child pos \<or>
     sift_min_pos cmp temp len pos items = right_child pos))"
  by (auto simp: sift_min_pos_def Let_def)

function sift_down_loop :: "('v \<Rightarrow> 'v \<Rightarrow> bool) \<Rightarrow> ('v, 'r) heap_item \<Rightarrow> nat \<Rightarrow> nat \<Rightarrow>
    ('v, 'r) heap_item list \<Rightarrow> 'r refs \<Rightarrow> nat \<times> ('v, 'r) heap_item list \<times> 'r refs" where
  "sift_down_loop cmp temp len pos items refs =
     (let min_pos = sift_min_pos cmp temp len pos items
      in if min_pos = pos then (pos, items, refs)
         else let items = items[pos := items ! min_pos]
              in sift_down_loop cmp temp len min_pos items (set_ref (hi_ref (items ! pos)) pos refs))"
  by pat_completeness auto
termination
proof (relation "measure (\<lambda>(cmp, temp, len, pos, items, refs). len - pos)")
  fix cmp temp len pos items refs x xa
  assume "x = sift_min_pos cmp temp len pos items" and "x \<noteq> pos"
  then have "pos < x" and "x < len"
    using sift_min_pos_cases [of cmp temp len pos items]
    by (auto simp: left_child_def right_child_def)
  then show "((cmp, temp, len, x, xa, set_ref (hi_ref (xa ! pos)) pos refs),
      (cmp, temp, len, pos, items, refs)) \<in> measure (\<lambda>(cmp, temp, len, pos, items, refs). len - pos)"
    by auto
qed auto

declare sift_down_loop.simps [simp del]

definition sift_down :: "('v \<Rightarrow> 'v \<Rightarrow> bool) \<Rightarrow> nat \<Rightarrow> ('v, 'r) heap_item list \<Rightarrow> 'r refs \<Rightarrow>
    ('v, 'r) heap_item list \<times> 'r refs" where
  "sift_down cmp pos items refs =
     (let temp = items ! pos; len = length items
      in sift_finish temp (sift_down_loop cmp temp len pos items refs))"

section \<open>The operations, with their locks\<close>

record ('v, 'r) bheap =
  bh_items :: "('v, 'r) heap_item list"
  bh_mutex :: mutex

definition bheap_new :: "('v, 'r) bheap" where
  "bheap_new = \<lparr>bh_items = [], bh_mutex = Unlocked\<rparr>"

definition heap_empty :: "('v, 'r) bheap \<Rightarrow> bool result" where
  "heap_empty h = bindR (lock_shared (bh_mutex h)) (\<lambda>_. Inr (bh_items h = []))"

definition heap_size :: "('v, 'r) bheap \<Rightarrow> nat result" where
  "heap_size h = bindR (lock_shared (bh_mutex h)) (\<lambda>_. Inr (length (bh_items h)))"

text \<open>\<^verbatim>\<open>operator[]\<close>, and the assignment \<^verbatim>\<open>heap_[i].set_value(v)\<close> through its result.\<close>

definition heap_index :: "nat \<Rightarrow> ('v, 'r) bheap \<Rightarrow> ('v, 'r) heap_item result" where
  "heap_index i h =
     bindR (lock_shared (bh_mutex h)) (\<lambda>_.
       if i \<ge> length (bh_items h) then Inl OutOfRange else Inr (bh_items h ! i))"

definition heap_set_value :: "nat \<Rightarrow> 'v \<Rightarrow> ('v, 'r) bheap \<Rightarrow> ('v, 'r) bheap result" where
  "heap_set_value i v h =
     bindR (heap_index i h) (\<lambda>item. Inr (h\<lparr>bh_items := (bh_items h)[i := item\<lparr>hi_value := v\<rparr>]\<rparr>))"

definition heap_push :: "('v \<Rightarrow> 'v \<Rightarrow> bool) \<Rightarrow> ('v, 'r) heap_item \<Rightarrow> ('v, 'r) bheap \<Rightarrow> 'r refs \<Rightarrow>
    (('v, 'r) bheap \<times> 'r refs) result" where
  "heap_push cmp item h refs =
     bindR (lock_unique (bh_mutex h)) (\<lambda>_.
       let items = bh_items h @ [item]
       in case sift_up cmp (length items - 1) items refs of
            (items, refs) \<Rightarrow> Inr (h\<lparr>bh_items := items\<rparr>, refs))"

text \<open>\<^verbatim>\<open>top\<close> calls \<^verbatim>\<open>empty\<close>, which locks again, while it holds the lock.\<close>

definition heap_top :: "('v, 'r) bheap \<Rightarrow> ('v, 'r) heap_item option result" where
  "heap_top h =
     bindR (lock_shared (bh_mutex h)) (\<lambda>l.
       bindR (heap_empty (h\<lparr>bh_mutex := l\<rparr>)) (\<lambda>e.
         Inr (if e then None else Some (bh_items h ! 0))))"

text \<open>
  The removal of the first item: the statements of \<^verbatim>\<open>pop\<close> after its checks, \<open>n\<close> being the
  value that \<^verbatim>\<open>size()\<close> returns there.
\<close>

definition pop_items :: "('v \<Rightarrow> 'v \<Rightarrow> bool) \<Rightarrow> nat \<Rightarrow> ('v, 'r) heap_item list \<Rightarrow> 'r refs \<Rightarrow>
    ('v, 'r) heap_item \<times> ('v, 'r) heap_item list \<times> 'r refs" where
  "pop_items cmp n items refs =
     (let result = items ! 0
      in if n > 1 then
           (let items = items[0 := last items]; items = butlast items
            in (result, sift_down cmp 0 items refs))
         else (result, butlast items, refs))"

definition heap_pop :: "('v \<Rightarrow> 'v \<Rightarrow> bool) \<Rightarrow> ('v, 'r) bheap \<Rightarrow> 'r refs \<Rightarrow>
    (('v, 'r) heap_item \<times> ('v, 'r) bheap \<times> 'r refs) result" where
  "heap_pop cmp h refs =
     bindR (lock_unique (bh_mutex h)) (\<lambda>l.
       let h = h\<lparr>bh_mutex := l\<rparr>
       in bindR (heap_empty h) (\<lambda>e.
            if e then Inl OutOfRange
            else bindR (heap_size h) (\<lambda>n.
              case pop_items cmp n (bh_items h) refs of
                (result, items, refs) \<Rightarrow>
                  Inr (result, h\<lparr>bh_items := items, bh_mutex := Unlocked\<rparr>, refs))))"

definition heap_pop_back :: "('v, 'r) bheap \<Rightarrow> ('v, 'r) bheap result" where
  "heap_pop_back h =
     bindR (lock_unique (bh_mutex h)) (\<lambda>_.
       Inr (if bh_items h \<noteq> [] then h\<lparr>bh_items := butlast (bh_items h)\<rparr> else h))"

text \<open>The sifting part of \<^verbatim>\<open>update\<close>.\<close>

definition update_items :: "('v \<Rightarrow> 'v \<Rightarrow> bool) \<Rightarrow> nat \<Rightarrow> ('v, 'r) heap_item list \<Rightarrow> 'r refs \<Rightarrow>
    ('v, 'r) heap_item list \<times> 'r refs" where
  "update_items cmp pos items refs =
     (if pos > 0 \<and> cmp (hi_value (items ! pos)) (hi_value (items ! heap_parent pos))
      then sift_up cmp pos items refs else sift_down cmp pos items refs)"

definition heap_update :: "('v \<Rightarrow> 'v \<Rightarrow> bool) \<Rightarrow> nat \<Rightarrow> ('v, 'r) bheap \<Rightarrow> 'r refs \<Rightarrow>
    (('v, 'r) bheap \<times> 'r refs) result" where
  "heap_update cmp pos h refs =
     bindR (lock_unique (bh_mutex h)) (\<lambda>_.
       if pos \<ge> length (bh_items h) then Inl OutOfRange
       else case update_items cmp pos (bh_items h) refs of
              (items, refs) \<Rightarrow> Inr (h\<lparr>bh_items := items\<rparr>, refs))"

text \<open>\<^verbatim>\<open>swap\<close> calls \<^verbatim>\<open>update\<close>, which locks again, while it holds the lock.\<close>

definition heap_swap :: "('v \<Rightarrow> 'v \<Rightarrow> bool) \<Rightarrow> nat \<Rightarrow> nat \<Rightarrow> ('v, 'r) bheap \<Rightarrow> 'r refs \<Rightarrow>
    (('v, 'r) bheap \<times> 'r refs) result" where
  "heap_swap cmp i j h refs =
     bindR (lock_unique (bh_mutex h)) (\<lambda>l.
       let items = bh_items h
       in if i \<ge> length items \<or> j \<ge> length items then Inl OutOfRange
          else let h = h\<lparr>bh_mutex := l, bh_items := items[i := items ! j, j := items ! i]\<rparr>
               in bindR (heap_update cmp i h refs) (\<lambda>(h, refs).
                    bindR (heap_update cmp j h refs) (\<lambda>(h, refs).
                      Inr (h\<lparr>bh_mutex := Unlocked\<rparr>, refs))))"

definition heap_clear :: "('v, 'r) bheap \<Rightarrow> ('v, 'r) bheap result" where
  "heap_clear h = bindR (lock_unique (bh_mutex h)) (\<lambda>_. Inr (h\<lparr>bh_items := []\<rparr>))"

section \<open>Sifting as a sequence of exchanges\<close>

text \<open>
  The loops carry the moving item in \<open>temp\<close> and leave a hole.  They never read the hole, so
  their result is that of exchanging the moving item with its neighbour in every round.
\<close>

definition exchange :: "nat \<Rightarrow> nat \<Rightarrow> 'a list \<Rightarrow> 'a list" where
  "exchange i j xs = xs[i := xs ! j, j := xs ! i]"

lemma length_exchange [simp]: "length (exchange i j xs) = length xs"
  by (simp add: exchange_def)

lemma nth_exchange:
  "i < length xs \<Longrightarrow> j < length xs \<Longrightarrow>
   exchange i j xs ! k = (if k = i then xs ! j else if k = j then xs ! i else xs ! k)"
  by (auto simp: exchange_def nth_list_update)

lemma mset_exchange [simp]:
  "i < length xs \<Longrightarrow> j < length xs \<Longrightarrow> mset (exchange i j xs) = mset xs"
  unfolding exchange_def by (cases "i = j") (simp_all add: mset_swap)

lemma heap_parent_less: "0 < i \<Longrightarrow> heap_parent i < i"
  by (auto simp: heap_parent_def)

lemma heap_parent_child: "heap_parent i = j \<and> 0 < i \<longleftrightarrow> i = left_child j \<or> i = right_child j"
  by (auto simp: heap_parent_def left_child_def right_child_def)

lemma child_gt: "j < left_child j" "j < right_child j" "left_child j \<noteq> right_child j"
  by (auto simp: left_child_def right_child_def)

lemma sift_up_loop_hole:
  "sift_finish temp (sift_up_loop cmp temp pos (items[pos := x]) refs) =
   sift_finish temp (sift_up_loop cmp temp pos items refs)"
proof (cases "pos > 0")
  case True
  then have "items[pos := x] ! heap_parent pos = items ! heap_parent pos"
    using heap_parent_less [OF True] by simp
  then show ?thesis
    by (subst (1 2) sift_up_loop.simps) (simp add: sift_finish_def)
qed (simp add: sift_up_loop.simps sift_finish_def)

lemma sift_up_rec:
  assumes "pos < length items"
  shows "sift_up cmp pos items refs =
    (if pos > 0 \<and> cmp (hi_value (items ! pos)) (hi_value (items ! heap_parent pos))
     then sift_up cmp (heap_parent pos) (exchange pos (heap_parent pos) items)
            (set_ref (hi_ref (items ! heap_parent pos)) pos refs)
     else (items, set_ref (hi_ref (items ! pos)) pos refs))"
proof (cases "pos > 0 \<and> cmp (hi_value (items ! pos)) (hi_value (items ! heap_parent pos))")
  case True
  let ?p = "heap_parent pos"
  let ?refs = "set_ref (hi_ref (items ! ?p)) pos refs"
  have p: "?p < pos" using True by (simp add: heap_parent_less)
  then have top: "exchange pos ?p items ! ?p = items ! pos"
    using assms by (simp add: nth_exchange)
  have "sift_up cmp pos items refs =
    sift_finish (items ! pos) (sift_up_loop cmp (items ! pos) ?p (items[pos := items ! ?p]) ?refs)"
    using True assms by (simp add: sift_up_def Let_def sift_up_loop.simps [of cmp "items ! pos" pos])
  also have "\<dots> = sift_finish (items ! pos)
      (sift_up_loop cmp (items ! pos) ?p (exchange pos ?p items) ?refs)"
    unfolding exchange_def by (simp add: sift_up_loop_hole)
  also have "\<dots> = sift_up cmp ?p (exchange pos ?p items) ?refs"
    by (simp add: sift_up_def Let_def top)
  finally show ?thesis using True by simp
next
  case False
  then have "sift_up_loop cmp (items ! pos) pos items refs = (pos, items, refs)"
    by (subst sift_up_loop.simps) auto
  then show ?thesis using False by (auto simp: sift_up_def sift_finish_def)
qed

lemma sift_min_pos_hole:
  "sift_min_pos cmp temp len pos (items[pos := x]) = sift_min_pos cmp temp len pos items"
  using child_gt [of pos] by (simp add: sift_min_pos_def Let_def)

lemma sift_min_pos_bounds:
  "sift_min_pos cmp temp len pos items \<noteq> pos \<Longrightarrow>
   pos < sift_min_pos cmp temp len pos items \<and> sift_min_pos cmp temp len pos items < len"
  using sift_min_pos_cases [of cmp temp len pos items] child_gt [of pos] by auto

lemma sift_down_loop_hole:
  "sift_finish temp (sift_down_loop cmp temp len pos (items[pos := x]) refs) =
   sift_finish temp (sift_down_loop cmp temp len pos items refs)"
proof (cases "sift_min_pos cmp temp len pos items = pos")
  case True
  then show ?thesis
    by (subst (1 2) sift_down_loop.simps) (simp add: sift_min_pos_hole sift_finish_def)
next
  case False
  then have "items[pos := x] ! sift_min_pos cmp temp len pos items =
      items ! sift_min_pos cmp temp len pos items" by simp
  with False show ?thesis
    by (subst (1 2) sift_down_loop.simps) (simp add: sift_min_pos_hole Let_def)
qed

lemma sift_down_rec:
  fixes items :: "('v, 'r) heap_item list" and cmp :: "'v \<Rightarrow> 'v \<Rightarrow> bool"
  assumes "pos < length items"
  defines "m \<equiv> sift_min_pos cmp (items ! pos) (length items) pos items"
  shows "sift_down cmp pos items refs =
    (if m = pos then (items, set_ref (hi_ref (items ! pos)) pos refs)
     else sift_down cmp m (exchange pos m items) (set_ref (hi_ref (items ! m)) pos refs))"
proof (cases "m = pos")
  case True
  then have "sift_down_loop cmp (items ! pos) (length items) pos items refs = (pos, items, refs)"
    unfolding m_def by (subst sift_down_loop.simps) simp
  then show ?thesis using True by (simp add: sift_down_def sift_finish_def)
next
  case False
  let ?refs = "set_ref (hi_ref (items ! m)) pos refs"
  have m: "pos < m" "m < length items"
    using sift_min_pos_bounds False unfolding m_def by blast+
  then have top: "exchange pos m items ! m = items ! pos"
    using assms(1) by (simp add: nth_exchange)
  have "sift_down cmp pos items refs =
    sift_finish (items ! pos)
      (sift_down_loop cmp (items ! pos) (length items) m (items[pos := items ! m]) ?refs)"
    using False assms(1)
    by (simp add: sift_down_def sift_down_loop.simps [of cmp "items ! pos" "length items" pos]
        Let_def m_def)
  also have "\<dots> = sift_finish (items ! pos)
      (sift_down_loop cmp (items ! pos) (length items) m (exchange pos m items) ?refs)"
    unfolding exchange_def by (simp add: sift_down_loop_hole)
  also have "\<dots> = sift_down cmp m (exchange pos m items) ?refs"
    by (simp add: sift_down_def Let_def top)
  finally show ?thesis using False by simp
qed

section \<open>What sifting keeps\<close>

text \<open>
  \<open>tracked_except p\<close>: the place an item refers to holds the item's index, for every item but
  the one at \<open>p\<close>.  \<open>own_refs\<close>: no two items refer to the same place.
\<close>

definition tracked_except :: "nat \<Rightarrow> ('v, 'r) heap_item list \<Rightarrow> 'r refs \<Rightarrow> bool" where
  "tracked_except p items refs \<longleftrightarrow>
     (\<forall>i < length items. i \<noteq> p \<longrightarrow> (\<forall>a. hi_ref (items ! i) = Some a \<longrightarrow> refs a = of_nat i))"

definition tracked :: "('v, 'r) heap_item list \<Rightarrow> 'r refs \<Rightarrow> bool" where
  "tracked items refs \<longleftrightarrow>
     (\<forall>i < length items. \<forall>a. hi_ref (items ! i) = Some a \<longrightarrow> refs a = of_nat i)"

definition own_refs :: "('v, 'r) heap_item list \<Rightarrow> bool" where
  "own_refs items \<longleftrightarrow> (\<forall>i < length items. \<forall>j < length items. \<forall>a.
     hi_ref (items ! i) = Some a \<longrightarrow> hi_ref (items ! j) = Some a \<longrightarrow> i = j)"

definition ref_set :: "('v, 'r) heap_item list \<Rightarrow> 'r set" where
  "ref_set items = {a. \<exists>item \<in> set items. hi_ref item = Some a}"

lemma set_ref_other: "r \<noteq> Some a \<Longrightarrow> set_ref r pos refs a = refs a"
  by (auto simp: set_ref_def split: option.splits)

lemma set_ref_same: "r = Some a \<Longrightarrow> set_ref r pos refs a = of_nat pos"
  by (auto simp: set_ref_def)

lemma tracked_imp_except: "tracked items refs \<Longrightarrow> tracked_except p items refs"
  by (simp add: tracked_def tracked_except_def)

lemma tracked_finish:
  assumes "tracked_except p items refs" and "own_refs items" and "p < length items"
  shows "tracked items (set_ref (hi_ref (items ! p)) p refs)"
  unfolding tracked_def
proof (intro allI impI)
  fix i a
  assume i: "i < length items" "hi_ref (items ! i) = Some a"
  show "set_ref (hi_ref (items ! p)) p refs a = of_nat i"
  proof (cases "i = p")
    case False
    then have "hi_ref (items ! p) \<noteq> Some a" using assms(2,3) i by (auto simp: own_refs_def)
    then show ?thesis using assms(1) i False by (simp add: set_ref_other tracked_except_def)
  qed (use i in \<open>simp add: set_ref_same\<close>)
qed

lemma own_refs_exchange:
  assumes "own_refs items" and "i < length items" and "j < length items"
  shows "own_refs (exchange i j items)"
  using assms unfolding own_refs_def by (simp add: nth_exchange) metis

lemma tracked_exchange:
  assumes "tracked_except p items refs" and "own_refs items"
    and "p < length items" and "q < length items" and "p \<noteq> q"
  shows "tracked_except q (exchange p q items) (set_ref (hi_ref (items ! q)) p refs)"
  unfolding tracked_except_def
proof (intro allI impI)
  fix i a
  assume i: "i < length (exchange p q items)" "i \<noteq> q" "hi_ref (exchange p q items ! i) = Some a"
  show "set_ref (hi_ref (items ! q)) p refs a = of_nat i"
  proof (cases "i = p")
    case True
    then show ?thesis using i(3) assms(3,4) by (simp add: nth_exchange set_ref_same)
  next
    case False
    then have r: "hi_ref (items ! i) = Some a" using i assms(3,4) by (simp add: nth_exchange)
    then have "hi_ref (items ! q) \<noteq> Some a" using assms(2,4) i by (auto simp: own_refs_def)
    then show ?thesis using assms(1) r i(1) False by (simp add: set_ref_other tracked_except_def)
  qed
qed

lemma ref_set_exchange [simp]:
  "i < length items \<Longrightarrow> j < length items \<Longrightarrow> ref_set (exchange i j items) = ref_set items"
  unfolding ref_set_def by (simp add: mset_eq_setD [OF mset_exchange])

lemma set_ref_outside:
  "p < length items \<Longrightarrow> a \<notin> ref_set items \<Longrightarrow> set_ref (hi_ref (items ! p)) q refs a = refs a"
  using nth_mem [of p items] by (intro set_ref_other) (auto simp: ref_set_def)

text \<open>Sifting permutes the items, re-establishes the tracking and writes to no other place.\<close>

definition sift_ok :: "('v, 'r) heap_item list \<Rightarrow> 'r refs \<Rightarrow>
    ('v, 'r) heap_item list \<times> 'r refs \<Rightarrow> bool" where
  "sift_ok items refs s \<longleftrightarrow> mset (fst s) = mset items \<and> tracked (fst s) (snd s) \<and>
     own_refs (fst s) \<and> (\<forall>a. a \<notin> ref_set items \<longrightarrow> snd s a = refs a)"

lemma sift_ok_step:
  assumes "sift_ok (exchange p q items) (set_ref (hi_ref (items ! q)) p refs) s"
    and "p < length items" and "q < length items"
  shows "sift_ok items refs s"
  using assms by (auto simp: sift_ok_def set_ref_outside)

lemma sift_ok_stop:
  assumes "tracked_except p items refs" and "own_refs items" and "p < length items"
  shows "sift_ok items refs (items, set_ref (hi_ref (items ! p)) p refs)"
  using assms by (simp add: sift_ok_def tracked_finish set_ref_outside)

lemma sift_up_ok:
  assumes "pos < length items" and "tracked_except pos items refs" and "own_refs items"
  shows "sift_ok items refs (sift_up cmp pos items refs)"
  using assms
proof (induction pos arbitrary: items refs rule: less_induct)
  case (less pos)
  let ?p = "heap_parent pos"
  show ?case
  proof (cases "pos > 0 \<and> cmp (hi_value (items ! pos)) (hi_value (items ! ?p))")
    case True
    then have p: "?p < pos" by (simp add: heap_parent_less)
    then have "sift_ok (exchange pos ?p items) (set_ref (hi_ref (items ! ?p)) pos refs)
        (sift_up cmp ?p (exchange pos ?p items) (set_ref (hi_ref (items ! ?p)) pos refs))"
      using less.prems by (intro less.IH) (simp_all add: tracked_exchange own_refs_exchange)
    then show ?thesis
      using True p less.prems(1) by (subst sift_up_rec) (auto elim: sift_ok_step)
  next
    case False
    then show ?thesis
      using less.prems by (subst sift_up_rec) (auto intro: sift_ok_stop)
  qed
qed

lemma sift_down_ok:
  assumes "pos < length items" and "tracked_except pos items refs" and "own_refs items"
  shows "sift_ok items refs (sift_down cmp pos items refs)"
  using assms
proof (induction "length items - pos" arbitrary: pos items refs rule: less_induct)
  case less
  let ?m = "sift_min_pos cmp (items ! pos) (length items) pos items"
  show ?case
  proof (cases "?m = pos")
    case False
    then have m: "pos < ?m" "?m < length items" using sift_min_pos_bounds by blast+
    then have "sift_ok (exchange pos ?m items) (set_ref (hi_ref (items ! ?m)) pos refs)
        (sift_down cmp ?m (exchange pos ?m items) (set_ref (hi_ref (items ! ?m)) pos refs))"
      using less.prems by (intro less.hyps) (simp_all add: tracked_exchange own_refs_exchange)
    then show ?thesis
      using False m less.prems(1) by (subst sift_down_rec) (auto elim: sift_ok_step)
  next
    case True
    then show ?thesis
      using less.prems by (subst sift_down_rec) (auto intro: sift_ok_stop)
  qed
qed

lemma sift_ok_length: "sift_ok items refs s \<Longrightarrow> length (fst s) = length items"
  unfolding sift_ok_def by (metis mset_eq_length)

text \<open>
  Without any assumption on the tracking: sifting permutes the items, and every place it writes
  belongs to an item and receives an index of the array.
\<close>

definition sift_moves :: "('v, 'r) heap_item list \<Rightarrow> 'r refs \<Rightarrow>
    ('v, 'r) heap_item list \<times> 'r refs \<Rightarrow> bool" where
  "sift_moves items refs s \<longleftrightarrow> mset (fst s) = mset items \<and>
     (\<forall>a. a \<notin> ref_set items \<longrightarrow> snd s a = refs a) \<and>
     (\<forall>a. snd s a = refs a \<or> (\<exists>i < length items. snd s a = of_nat i))"

lemma sift_moves_step:
  assumes "sift_moves (exchange p q items) (set_ref (hi_ref (items ! q)) p refs) s"
    and "p < length items" and "q < length items"
  shows "sift_moves items refs s"
proof -
  have "set_ref r p refs a = refs a \<or> set_ref r p refs a = of_nat p" for r a
    by (auto simp: set_ref_def split: option.splits)
  then show ?thesis
    using assms unfolding sift_moves_def
    by (metis length_exchange mset_exchange ref_set_exchange set_ref_outside)
qed

lemma sift_moves_stop:
  assumes "p < length items"
  shows "sift_moves items refs (items, set_ref (hi_ref (items ! p)) p refs)"
proof -
  have "set_ref r p refs a = refs a \<or> set_ref r p refs a = of_nat p" for r a
    by (auto simp: set_ref_def split: option.splits)
  then show ?thesis using assms by (auto simp: sift_moves_def set_ref_outside)
qed

lemma sift_up_moves: "pos < length items \<Longrightarrow> sift_moves items refs (sift_up cmp pos items refs)"
proof (induction pos arbitrary: items refs rule: less_induct)
  case (less pos)
  show ?case
  proof (cases "pos > 0 \<and> cmp (hi_value (items ! pos)) (hi_value (items ! heap_parent pos))")
    case True
    then have p: "heap_parent pos < pos" by (simp add: heap_parent_less)
    then show ?thesis
      using True less.prems less.IH [OF p]
      by (subst sift_up_rec) (auto intro: sift_moves_step [of pos "heap_parent pos"])
  next
    case False
    then show ?thesis using less.prems by (subst sift_up_rec) (auto intro: sift_moves_stop)
  qed
qed

lemma sift_down_moves: "pos < length items \<Longrightarrow> sift_moves items refs (sift_down cmp pos items refs)"
proof (induction "length items - pos" arbitrary: pos items refs rule: less_induct)
  case less
  let ?m = "sift_min_pos cmp (items ! pos) (length items) pos items"
  show ?case
  proof (cases "?m = pos")
    case False
    then have m: "pos < ?m" "?m < length items" using sift_min_pos_bounds by blast+
    then have "sift_moves (exchange pos ?m items) (set_ref (hi_ref (items ! ?m)) pos refs)
        (sift_down cmp ?m (exchange pos ?m items) (set_ref (hi_ref (items ! ?m)) pos refs))"
      by (intro less.hyps) simp_all
    then show ?thesis
      using False m less.prems by (subst sift_down_rec) (auto elim: sift_moves_step)
  next
    case True
    then show ?thesis using less.prems by (subst sift_down_rec) (auto intro: sift_moves_stop)
  qed
qed

lemma update_items_moves:
  "pos < length items \<Longrightarrow> sift_moves items refs (update_items cmp pos items refs)"
  by (simp add: update_items_def sift_up_moves sift_down_moves)

section \<open>The heap order\<close>

abbreviation val :: "('v, 'r) heap_item list \<Rightarrow> nat \<Rightarrow> 'v" where
  "val items i \<equiv> hi_value (items ! i)"

definition heap_ordered :: "('v \<Rightarrow> 'v \<Rightarrow> bool) \<Rightarrow> ('v, 'r) heap_item list \<Rightarrow> bool" where
  "heap_ordered cmp items \<longleftrightarrow>
     (\<forall>i < length items. 0 < i \<longrightarrow> \<not> cmp (val items i) (val items (heap_parent i)))"

text \<open>
  The order with one exception: between \<open>p\<close> and its parent (\<open>up_hole\<close>), or between \<open>p\<close> and
  its children (\<open>down_hole\<close>); the children of \<open>p\<close> stay in order with the parent of \<open>p\<close>.
\<close>

definition bridged :: "('v \<Rightarrow> 'v \<Rightarrow> bool) \<Rightarrow> nat \<Rightarrow> ('v, 'r) heap_item list \<Rightarrow> bool" where
  "bridged cmp p items \<longleftrightarrow> (0 < p \<longrightarrow> (\<forall>i < length items. 0 < i \<longrightarrow> heap_parent i = p \<longrightarrow>
     \<not> cmp (val items i) (val items (heap_parent p))))"

definition up_hole :: "('v \<Rightarrow> 'v \<Rightarrow> bool) \<Rightarrow> nat \<Rightarrow> ('v, 'r) heap_item list \<Rightarrow> bool" where
  "up_hole cmp p items \<longleftrightarrow> bridged cmp p items \<and>
     (\<forall>i < length items. 0 < i \<longrightarrow> i \<noteq> p \<longrightarrow> \<not> cmp (val items i) (val items (heap_parent i)))"

definition down_hole :: "('v \<Rightarrow> 'v \<Rightarrow> bool) \<Rightarrow> nat \<Rightarrow> ('v, 'r) heap_item list \<Rightarrow> bool" where
  "down_hole cmp p items \<longleftrightarrow> bridged cmp p items \<and>
     (\<forall>i < length items. 0 < i \<longrightarrow> heap_parent i \<noteq> p \<longrightarrow>
        \<not> cmp (val items i) (val items (heap_parent i)))"

lemma sift_min_pos_child:
  "sift_min_pos cmp temp len pos items \<noteq> pos \<Longrightarrow>
   heap_parent (sift_min_pos cmp temp len pos items) = pos \<and>
   0 < sift_min_pos cmp temp len pos items"
  using sift_min_pos_cases [of cmp temp len pos items] heap_parent_child by blast

context weak_order
begin

lemma up_hole_exchange:
  assumes h: "up_hole cmp p items" and p: "p < length items" "0 < p"
    and c: "cmp (val items p) (val items (heap_parent p))"
  shows "up_hole cmp (heap_parent p) (exchange p (heap_parent p) items)"
proof -
  let ?q = "heap_parent p" and ?n = "length items"
  have q: "?q < p" using p(2) by (rule heap_parent_less)
  have ord: "\<not> cmp (val items i) (val items (heap_parent i))" if "i < ?n" "0 < i" "i \<noteq> p" for i
    using h that by (simp add: up_hole_def)
  have grand: "\<not> cmp (val items i) (val items ?q)" if "i < ?n" "0 < i" "heap_parent i = p" for i
    using h that p by (simp add: up_hole_def bridged_def)
  note nth = nth_exchange [OF p(1), of ?q]
  have up: "heap_parent ?q \<noteq> p \<and> heap_parent ?q \<noteq> ?q" if "0 < ?q"
    using heap_parent_less [OF that] q by simp
  have "bridged cmp ?q (exchange p ?q items)"
    unfolding bridged_def
  proof (intro impI allI)
    fix i
    assume i: "0 < ?q" "i < length (exchange p ?q items)" "0 < i" "heap_parent i = ?q"
    have top: "\<not> cmp (val items ?q) (val items (heap_parent ?q))"
      using ord [of ?q] i(1) q p by simp
    have "\<not> cmp (val items i) (val items ?q)" if "i \<noteq> p"
      using ord [of i] i that by simp
    then show "\<not> cmp (val (exchange p ?q items) i) (val (exchange p ?q items) (heap_parent ?q))"
      using top cmp_ntrans [OF top] i q p up heap_parent_less [OF i(3)] by (auto simp: nth)
  qed
  moreover have "\<not> cmp (val (exchange p ?q items) i) (val (exchange p ?q items) (heap_parent i))"
    if i: "i < ?n" "0 < i" "i \<noteq> ?q" for i
  proof -
    consider "i = p" | "i \<noteq> p" "heap_parent i = p" | "i \<noteq> p" "heap_parent i = ?q"
      | "i \<noteq> p" "heap_parent i \<noteq> p" "heap_parent i \<noteq> ?q" by blast
    then show ?thesis
    proof cases
      case 1 then show ?thesis using c cmp_asym q p by (simp add: nth)
    next
      case 2 then show ?thesis using grand i q p by (simp add: nth)
    next
      case 3
      then have "\<not> cmp (val items i) (val items ?q)" using ord [of i] i by simp
      then have "\<not> cmp (val items i) (val items p)" using cmp_trans_le [OF c] by simp
      then show ?thesis using 3 i q p by (simp add: nth)
    next
      case 4 then show ?thesis using ord [of i] i q p by (simp add: nth)
    qed
  qed
  ultimately show ?thesis by (simp add: up_hole_def)
qed

lemma sift_up_ordered:
  assumes "pos < length items" and "up_hole cmp pos items"
  shows "heap_ordered cmp (fst (sift_up cmp pos items refs))"
  using assms
proof (induction pos arbitrary: items refs rule: less_induct)
  case (less pos)
  show ?case
  proof (cases "pos > 0 \<and> cmp (val items pos) (val items (heap_parent pos))")
    case True
    then have p: "heap_parent pos < pos" by (simp add: heap_parent_less)
    moreover have "up_hole cmp (heap_parent pos) (exchange pos (heap_parent pos) items)"
      using True less.prems by (simp add: up_hole_exchange)
    ultimately show ?thesis
      using True less.prems(1) by (subst sift_up_rec) (simp_all add: less.IH)
  next
    case False
    then have "heap_ordered cmp items"
      using less.prems(2) by (auto simp: up_hole_def heap_ordered_def)
    then show ?thesis using False less.prems by (subst sift_up_rec) auto
  qed
qed

lemma sift_min_pos_least:
  assumes "pos < length items"
  defines "m \<equiv> sift_min_pos cmp (items ! pos) (length items) pos items"
  shows "i < length items \<Longrightarrow> 0 < i \<Longrightarrow> heap_parent i = pos \<Longrightarrow> \<not> cmp (val items i) (val items m)"
    and "m \<noteq> pos \<Longrightarrow> cmp (val items m) (val items pos)"
proof -
  assume i: "i < length items" "0 < i" "heap_parent i = pos"
  then have "i = left_child pos \<or> i = right_child pos"
    using heap_parent_child [of i pos] by blast
  then show "\<not> cmp (val items i) (val items m)"
    using i(1) child_gt [of pos] unfolding m_def sift_min_pos_def Let_def
    by (auto dest: cmp_asym cmp_ntrans)
next
  show "m \<noteq> pos \<Longrightarrow> cmp (val items m) (val items pos)"
    using child_gt [of pos] unfolding m_def sift_min_pos_def Let_def
    by (auto split: if_splits) (meson cmp_asym cmp_ntrans)
qed

lemma down_hole_exchange:
  assumes h: "down_hole cmp p items" and p: "p < length items"
    and m: "m < length items" "0 < m" "heap_parent m = p" "cmp (val items m) (val items p)"
    and least: "\<And>i. i < length items \<Longrightarrow> 0 < i \<Longrightarrow> heap_parent i = p \<Longrightarrow>
      \<not> cmp (val items i) (val items m)"
  shows "down_hole cmp m (exchange p m items)"
proof -
  let ?n = "length items"
  have pm: "p < m" using heap_parent_less [OF m(2)] m(3) by simp
  have ord: "\<not> cmp (val items i) (val items (heap_parent i))"
    if "i < ?n" "0 < i" "heap_parent i \<noteq> p" for i
    using h that by (simp add: down_hole_def)
  have grand: "\<not> cmp (val items m) (val items (heap_parent p))" if "0 < p"
    using h that m by (simp add: down_hole_def bridged_def)
  note nth = nth_exchange [OF p m(1)]
  have "bridged cmp m (exchange p m items)"
    unfolding bridged_def
  proof (intro impI allI)
    fix i
    assume i: "i < length (exchange p m items)" "0 < i" "heap_parent i = m"
    then have "i \<noteq> p" "i \<noteq> m" using pm heap_parent_less [OF i(2)] by auto
    then show "\<not> cmp (val (exchange p m items) i) (val (exchange p m items) (heap_parent m))"
      using ord [of i] i pm m(3) by (simp add: nth)
  qed
  moreover have "\<not> cmp (val (exchange p m items) i) (val (exchange p m items) (heap_parent i))"
    if i: "i < ?n" "0 < i" "heap_parent i \<noteq> m" for i
  proof -
    consider "i = m" | "i = p" | "i \<noteq> m" "i \<noteq> p" "heap_parent i = p"
      | "i \<noteq> m" "i \<noteq> p" "heap_parent i \<noteq> p" by blast
    then show ?thesis
    proof cases
      case 1 then show ?thesis using m cmp_asym pm by (simp add: nth)
    next
      case 2
      then show ?thesis using grand i pm heap_parent_less [OF i(2)] by (simp add: nth)
    next
      case 3 then show ?thesis using least i pm by (simp add: nth)
    next
      case 4 then show ?thesis using ord [of i] i by (simp add: nth)
    qed
  qed
  ultimately show ?thesis by (simp add: down_hole_def)
qed

lemma sift_down_ordered:
  assumes "pos < length items" and "down_hole cmp pos items"
  shows "heap_ordered cmp (fst (sift_down cmp pos items refs))"
  using assms
proof (induction "length items - pos" arbitrary: pos items refs rule: less_induct)
  case less
  let ?m = "sift_min_pos cmp (items ! pos) (length items) pos items"
  note least = sift_min_pos_least(1) [OF less.prems(1)]
  show ?case
  proof (cases "?m = pos")
    case False
    then have b: "pos < ?m" "?m < length items" using sift_min_pos_bounds by blast+
    have "heap_parent ?m = pos \<and> 0 < ?m"
      using sift_min_pos_child [OF False] .
    then have "down_hole cmp ?m (exchange pos ?m items)"
      using less.prems b False least sift_min_pos_least(2) [OF less.prems(1)]
      by (intro down_hole_exchange) auto
    then show ?thesis
      using False b less.prems(1) by (subst sift_down_rec) (simp_all add: less.hyps)
  next
    case True
    then have "heap_ordered cmp items"
      using less.prems(2) least by (auto simp: down_hole_def heap_ordered_def)
    then show ?thesis using True less.prems by (subst sift_down_rec) auto
  qed
qed

text \<open>The first item of an ordered heap is a least one.\<close>

lemma heap_ordered_top:
  assumes "heap_ordered cmp items" and "i < length items"
  shows "\<not> cmp (val items i) (val items 0)"
  using assms(2)
proof (induction i rule: less_induct)
  case (less i)
  show ?case
  proof (cases "i = 0")
    case False
    then have p: "heap_parent i < i" by (simp add: heap_parent_less)
    then have "\<not> cmp (val items (heap_parent i)) (val items 0)" using less by simp
    moreover have "\<not> cmp (val items i) (val items (heap_parent i))"
      using assms(1) less.prems False by (simp add: heap_ordered_def)
    ultimately show ?thesis by (rule cmp_ntrans)
  qed simp
qed

end

section \<open>The operations on a well-formed heap\<close>

definition items_ok :: "('v \<Rightarrow> 'v \<Rightarrow> bool) \<Rightarrow> ('v, 'r) heap_item list \<Rightarrow> 'r refs \<Rightarrow> bool" where
  "items_ok cmp items refs \<longleftrightarrow> heap_ordered cmp items \<and> own_refs items \<and> tracked items refs"

definition heap_ok :: "('v \<Rightarrow> 'v \<Rightarrow> bool) \<Rightarrow> ('v, 'r) bheap \<Rightarrow> 'r refs \<Rightarrow> bool" where
  "heap_ok cmp h refs \<longleftrightarrow> bh_mutex h = Unlocked \<and> items_ok cmp (bh_items h) refs"

definition new_ref :: "'r option \<Rightarrow> ('v, 'r) heap_item list \<Rightarrow> bool" where
  "new_ref r items \<longleftrightarrow> (case r of None \<Rightarrow> True | Some a \<Rightarrow> a \<notin> ref_set items)"

lemma own_refs_append:
  assumes "own_refs items" and "new_ref (hi_ref item) items"
  shows "own_refs (items @ [item])"
  using assms nth_mem
  by (fastforce simp: own_refs_def new_ref_def ref_set_def nth_append less_Suc_eq split: option.splits)

lemma tracked_append:
  "tracked items refs \<Longrightarrow> tracked_except (length items) (items @ [item]) refs"
  by (auto simp: tracked_def tracked_except_def nth_append less_Suc_eq)

lemma up_hole_append:
  assumes "heap_ordered cmp items"
  shows "up_hole cmp (length items) (items @ [item])"
proof -
  have p: "heap_parent i < length items" if "0 < i" "i \<le> length items" for i
    using heap_parent_less [OF that(1)] that(2) by simp
  have "bridged cmp (length items) (items @ [item])"
    unfolding bridged_def using p by (metis length_append_singleton less_Suc_eq_le less_irrefl)
  then show ?thesis
    using assms p by (auto simp: up_hole_def heap_ordered_def nth_append less_Suc_eq)
qed

lemma sift_ok_items:
  "sift_ok items refs s \<Longrightarrow> heap_ordered cmp (fst s) \<Longrightarrow> items_ok cmp (fst s) (snd s)"
  by (simp add: sift_ok_def items_ok_def)

lemma ref_set_append: "ref_set (items @ [item]) = ref_set items \<union> {a. hi_ref item = Some a}"
  by (auto simp: ref_set_def)

lemma hi_ref_update:
  "hi_ref item = hi_ref (items ! p) \<Longrightarrow> hi_ref (items[p := item] ! i) = hi_ref (items ! i)"
  by (cases "p < length items"; cases "i = p") (simp_all add: list_update_beyond)

lemma own_refs_update: "hi_ref item = hi_ref (items ! p) \<Longrightarrow> own_refs (items[p := item]) = own_refs items"
  by (simp add: own_refs_def hi_ref_update)

lemma tracked_update:
  "hi_ref item = hi_ref (items ! p) \<Longrightarrow> tracked (items[p := item]) refs = tracked items refs"
  by (simp add: tracked_def hi_ref_update)

lemma ref_set_update:
  assumes "hi_ref item = hi_ref (items ! p)" and "p < length items"
  shows "ref_set (items[p := item]) = ref_set items"
proof -
  have "hi_ref ` set (items[p := item]) = hi_ref ` set items"
    using assms by (metis (no_types, lifting) list_update_id map_update set_map)
  then show ?thesis unfolding ref_set_def by (auto simp: image_iff set_eq_iff) metis+
qed

text \<open>The array after the last item has taken the place of the first.\<close>

lemma nth_last_first:
  assumes "2 \<le> length items" and "i < length items - 1"
  shows "butlast (items[0 := last items]) ! i = items ! (if i = 0 then length items - 1 else i)"
proof -
  have "items \<noteq> []" using assms(1) by auto
  then show ?thesis using assms(2) by (simp add: nth_butlast nth_list_update last_conv_nth)
qed

lemma own_refs_last_first:
  assumes "own_refs items" and "2 \<le> length items"
  shows "own_refs (butlast (items[0 := last items]))"
  unfolding own_refs_def
proof (intro allI impI)
  fix i j a
  let ?f = "\<lambda>i. if i = 0 then length items - 1 else i"
  assume h: "i < length (butlast (items[0 := last items]))" "j < length (butlast (items[0 := last items]))"
    "hi_ref (butlast (items[0 := last items]) ! i) = Some a"
    "hi_ref (butlast (items[0 := last items]) ! j) = Some a"
  then have "hi_ref (items ! ?f i) = Some a" "hi_ref (items ! ?f j) = Some a"
    using assms(2) by (simp_all only: nth_last_first length_butlast length_list_update)
  moreover have "?f i < length items" "?f j < length items" using h by auto
  ultimately have "?f i = ?f j" using assms(1) unfolding own_refs_def by blast
  then show "i = j" using h(1,2) by (auto split: if_splits)
qed

lemma tracked_last_first:
  assumes "tracked items refs" and "2 \<le> length items"
  shows "tracked_except 0 (butlast (items[0 := last items])) refs"
  using assms by (auto simp: tracked_def tracked_except_def nth_last_first)

lemma down_hole_last_first:
  assumes "heap_ordered cmp items" and "2 \<le> length items"
  shows "down_hole cmp 0 (butlast (items[0 := last items]))"
proof -
  have "heap_parent i < length items - 1" if "0 < i" "i < length items - 1" for i
    using heap_parent_less [OF that(1)] that(2) by simp
  then show ?thesis
    using assms by (auto simp: down_hole_def bridged_def heap_ordered_def nth_last_first)
qed

lemma mset_last_first:
  assumes "2 \<le> length items"
  shows "add_mset (items ! 0) (mset (butlast (items[0 := last items]))) = mset items"
proof -
  obtain x y ys where "items = x # ys @ [y]"
    using assms by (cases items; cases "tl items" rule: rev_cases) auto
  then show ?thesis by simp
qed

context weak_order
begin

lemma push_items_ok:
  assumes "items_ok cmp items refs" and "new_ref (hi_ref item) items"
    and "sift_up cmp (length items) (items @ [item]) refs = (items', refs')"
  shows "items_ok cmp items' refs' \<and> mset items' = add_mset item (mset items) \<and>
    (\<forall>a. a \<notin> ref_set items \<longrightarrow> hi_ref item \<noteq> Some a \<longrightarrow> refs' a = refs a)"
proof -
  have ok: "sift_ok (items @ [item]) refs (items', refs')"
    using sift_up_ok [of "length items" "items @ [item]" refs cmp] assms
    by (simp add: items_ok_def own_refs_append tracked_append)
  have "heap_ordered cmp items'"
    using sift_up_ordered [of "length items" "items @ [item]" refs] assms
    by (simp add: items_ok_def up_hole_append)
  then show ?thesis
    using ok sift_ok_items [OF ok, of cmp] by (auto simp: sift_ok_def ref_set_append)
qed

lemma update_hole:
  assumes "heap_ordered cmp items" and "p < length items"
  shows "bridged cmp p (items[p := item])"
    and "\<And>i. i < length items \<Longrightarrow> 0 < i \<Longrightarrow> i \<noteq> p \<Longrightarrow> heap_parent i \<noteq> p \<Longrightarrow>
      \<not> cmp (val (items[p := item]) i) (val (items[p := item]) (heap_parent i))"
proof -
  have o: "\<not> cmp (val items i) (val items (heap_parent i))" if "i < length items" "0 < i" for i
    using assms that by (simp add: heap_ordered_def)
  show "bridged cmp p (items[p := item])"
    unfolding bridged_def
  proof (intro impI allI)
    fix i
    assume i: "0 < p" "i < length (items[p := item])" "0 < i" "heap_parent i = p"
    have "\<not> cmp (val items i) (val items (heap_parent p))"
      using o [of p] o [of i] i assms(2) cmp_ntrans by auto
    then show "\<not> cmp (val (items[p := item]) i) (val (items[p := item]) (heap_parent p))"
      using i heap_parent_less [OF i(1)] heap_parent_less [OF i(3)] by simp
  qed
  show "\<not> cmp (val (items[p := item]) i) (val (items[p := item]) (heap_parent i))"
    if "i < length items" "0 < i" "i \<noteq> p" "heap_parent i \<noteq> p" for i
    using o [of i] that by simp
qed

text \<open>Whatever value item \<open>p\<close> gets, \<open>update_items\<close> at \<open>p\<close> restores the heap.\<close>

lemma update_items_ordered:
  assumes ord: "heap_ordered cmp items" and p: "p < length items"
  shows "heap_ordered cmp (fst (update_items cmp p (items[p := item]) refs))"
proof -
  let ?l = "items[p := item]"
  have p': "p < length ?l" using p by simp
  show ?thesis
  proof (cases "0 < p \<and> cmp (val ?l p) (val ?l (heap_parent p))")
    case True
    have "\<not> cmp (val ?l i) (val ?l (heap_parent i))" if "i < length items" "0 < i" "i \<noteq> p" for i
    proof (cases "heap_parent i = p")
      case c: True
      have "\<not> cmp (val ?l i) (val ?l (heap_parent p))"
        using update_hole(1) [OF ord p, of item] True c that
        unfolding bridged_def by (metis length_list_update)
      then have "\<not> cmp (val ?l i) (val ?l p)" using True cmp_trans_le by blast
      then show ?thesis using c by simp
    qed (use update_hole(2) [OF ord p] that in blast)
    then have "up_hole cmp p ?l" using update_hole(1) [OF ord p] by (simp add: up_hole_def)
    then show ?thesis
      using sift_up_ordered [OF p', of refs] True by (simp add: update_items_def)
  next
    case False
    have "\<not> cmp (val ?l i) (val ?l (heap_parent i))"
      if "i < length items" "0 < i" "heap_parent i \<noteq> p" for i
      using False update_hole(2) [OF ord p that(1,2)] that by blast
    then have "down_hole cmp p ?l"
      using update_hole(1) [OF ord p] by (simp add: down_hole_def)
    moreover have "update_items cmp p ?l refs = sift_down cmp p ?l refs"
      unfolding update_items_def using False by (rule if_not_P)
    ultimately show ?thesis using sift_down_ordered [OF p', of refs] by simp
  qed
qed

lemma update_items_ok:
  assumes ok: "items_ok cmp items refs" and p: "p < length items"
    and ref: "hi_ref item = hi_ref (items ! p)"
    and u: "update_items cmp p (items[p := item]) refs = (items', refs')"
  shows "items_ok cmp items' refs' \<and> mset items' = mset (items[p := item]) \<and>
    (\<forall>a. a \<notin> ref_set items \<longrightarrow> refs' a = refs a)"
proof -
  let ?l = "items[p := item]"
  have t: "tracked_except p ?l refs" "own_refs ?l" "p < length ?l"
    using ok ref p tracked_update [OF ref, of refs] own_refs_update [OF ref]
    by (auto simp: items_ok_def tracked_imp_except)
  have sift: "sift_ok ?l refs (items', refs')"
    using u sift_up_ok [OF t(3,1,2), of cmp] sift_down_ok [OF t(3,1,2), of cmp]
    unfolding update_items_def by (metis (full_types))
  have "heap_ordered cmp items'"
    using update_items_ordered [OF _ p, of item refs] ok u by (simp add: items_ok_def)
  then show ?thesis
    using sift sift_ok_items [OF sift, of cmp] ref_set_update [OF ref p] by (auto simp: sift_ok_def)
qed

lemma push_items_ordered:
  "heap_ordered cmp items \<Longrightarrow>
   heap_ordered cmp (fst (sift_up cmp (length items) (items @ [item]) refs))"
  by (intro sift_up_ordered) (simp_all add: up_hole_append)

lemma pop_items_ok:
  assumes ok: "items_ok cmp items refs" and ne: "items \<noteq> []"
    and pop: "pop_items cmp (length items) items refs = (x, items', refs')"
  shows "items_ok cmp items' refs' \<and> mset items = add_mset x (mset items') \<and>
    (\<forall>y \<in> set items. \<not> cmp (hi_value y) (hi_value x))"
proof (cases "2 \<le> length items")
  case True
  let ?l = "butlast (items[0 := last items])"
  have x: "x = items ! 0" and s: "sift_down cmp 0 ?l refs = (items', refs')"
    using pop True by (simp_all add: pop_items_def Let_def)
  have l: "0 < length ?l" using True by simp
  have sift: "sift_ok ?l refs (items', refs')"
    using sift_down_ok [OF l, of refs cmp] True ok s
    by (simp add: items_ok_def tracked_last_first own_refs_last_first)
  have "heap_ordered cmp items'"
    using sift_down_ordered [OF l, of refs] True ok s
    by (simp add: items_ok_def down_hole_last_first)
  moreover have "\<forall>y \<in> set items. \<not> cmp (hi_value y) (hi_value x)"
    using ok x heap_ordered_top [of items] by (auto simp: items_ok_def in_set_conv_nth)
  ultimately show ?thesis
    using sift sift_ok_items [OF sift, of cmp] x mset_last_first [OF True]
    by (simp add: sift_ok_def)
next
  case False
  with ne obtain y where "items = [y]" by (cases items; cases "tl items") auto
  then show ?thesis
    using pop by (auto simp: pop_items_def items_ok_def heap_ordered_def own_refs_def tracked_def)
qed

end

section \<open>The heap as a priority queue\<close>

text \<open>The heap array together with the places it writes to, as one queue state.\<close>

definition queue_add :: "('v::linorder, 'r) heap_item \<Rightarrow> ('v, 'r) heap_item list \<times> 'r refs \<Rightarrow>
    ('v, 'r) heap_item list \<times> 'r refs" where
  "queue_add item q = sift_up (<) (length (fst q)) (fst q @ [item]) (snd q)"

definition queue_pull :: "('v::linorder, 'r) heap_item list \<times> 'r refs \<Rightarrow>
    ('v, 'r) heap_item \<times> ('v, 'r) heap_item list \<times> 'r refs" where
  "queue_pull q = pop_items (<) (length (fst q)) (fst q) (snd q)"

interpretation bq: min_queue queue_add queue_pull "\<lambda>q. items_ok (<) (fst q) (snd q)"
    "\<lambda>q. mset (fst q)" "\<lambda>item q. new_ref (hi_ref item) (fst q)" hi_value
proof
  fix q :: "('v::linorder, 'r) heap_item list \<times> 'r refs" and item :: "('v, 'r) heap_item"
  assume "items_ok (<) (fst q) (snd q)" and "new_ref (hi_ref item) (fst q)"
  then show "items_ok (<) (fst (queue_add item q)) (snd (queue_add item q)) \<and>
      mset (fst (queue_add item q)) = add_mset item (mset (fst q))"
    using less_order.push_items_ok [of "fst q" "snd q" item]
    by (cases "queue_add item q") (auto simp: queue_add_def)
next
  fix q q' :: "('v::linorder, 'r) heap_item list \<times> 'r refs" and x :: "('v, 'r) heap_item"
  assume "items_ok (<) (fst q) (snd q)" and "mset (fst q) \<noteq> {#}" and "queue_pull q = (x, q')"
  then have ok: "items_ok (<) (fst q') (snd q')" "mset (fst q) = add_mset x (mset (fst q'))"
      "\<forall>y \<in> set (fst q). \<not> hi_value y < hi_value x"
    using less_order.pop_items_ok [of "fst q" "snd q" x "fst q'" "snd q'"]
    by (auto simp: queue_pull_def)
  have "\<forall>y \<in># mset (fst q). hi_value x \<le> hi_value y"
    using ok(3) by (simp add: not_less)
  then show "items_ok (<) (fst q') (snd q') \<and> mset (fst q) = add_mset x (mset (fst q')) \<and>
      (\<forall>y \<in># mset (fst q). hi_value x \<le> hi_value y)"
    using ok(1,2) by blast
qed

section \<open>Properties\<close>

definition example_heap :: "(nat, nat) bheap" where
  "example_heap = \<lparr>bh_items = [\<lparr>hi_value = 3, hi_ref = Some 0\<rparr>, \<lparr>hi_value = 8, hi_ref = Some 1\<rparr>,
     \<lparr>hi_value = 5, hi_ref = None\<rparr>], bh_mutex = Unlocked\<rparr>"

definition example_refs :: "nat refs" where
  "example_refs a = (if a = 1 then 1 else 0)"

lemma example_heap_ok: "heap_ok (<) example_heap example_refs"
  by (auto simp: heap_ok_def items_ok_def example_heap_def example_refs_def heap_ordered_def
      own_refs_def tracked_def heap_parent_def less_Suc_eq)

text \<open>
  C16: Pushing an item onto a heap that is ordered and tracks its items' positions returns,
  adds exactly that item, keeps the order, leaves every item's index in the place the item
  refers to, and writes to no other place.
\<close>

theorem heap_push_correct:
  fixes h :: "('v::linorder, 'r) bheap"
  assumes "heap_ok (<) h refs" and "new_ref (hi_ref item) (bh_items h)"
  shows "\<exists>h' refs'. heap_push (<) item h refs = Inr (h', refs') \<and> heap_ok (<) h' refs' \<and>
    mset (bh_items h') = add_mset item (mset (bh_items h)) \<and>
    (\<forall>a. a \<notin> ref_set (bh_items h) \<longrightarrow> hi_ref item \<noteq> Some a \<longrightarrow> refs' a = refs a)"
proof -
  obtain items' refs' where s:
      "sift_up (<) (length (bh_items h)) (bh_items h @ [item]) refs = (items', refs')"
    by fastforce
  have ok: "items_ok (<) (bh_items h) refs" "bh_mutex h = Unlocked"
    using assms(1) by (auto simp: heap_ok_def)
  then show ?thesis
    using less_order.push_items_ok [OF ok(1) assms(2) s] s
    by (auto simp: heap_push_def heap_ok_def)
qed

theorem heap_push_correct_witness:
  "\<exists>h' refs'. heap_push (<) \<lparr>hi_value = 1, hi_ref = Some 7\<rparr> example_heap example_refs = Inr (h', refs') \<and>
    heap_ok (<) h' refs' \<and> refs' 9 = 0"
proof -
  have f: "new_ref (hi_ref \<lparr>hi_value = 1, hi_ref = Some 7\<rparr>) (bh_items example_heap)"
    by (simp add: new_ref_def ref_set_def example_heap_def)
  have g: "9 \<notin> ref_set (bh_items example_heap)" "example_refs 9 = 0"
    by (simp_all add: ref_set_def example_heap_def example_refs_def)
  show ?thesis using heap_push_correct [OF example_heap_ok f] g by auto
qed

text \<open>
  C22: Whatever new value an item of the heap gets, \<^verbatim>\<open>update\<close> at its index restores the order
  and the tracking, and changes nothing but that value.
\<close>

theorem heap_update_restores:
  fixes h :: "('v::linorder, 'r) bheap"
  assumes "heap_ok (<) h refs" and "heap_set_value pos v h = Inr h1"
  shows "\<exists>h' refs'. heap_update (<) pos h1 refs = Inr (h', refs') \<and> heap_ok (<) h' refs' \<and>
    mset (bh_items h') =
      add_mset ((bh_items h ! pos)\<lparr>hi_value := v\<rparr>) (mset (bh_items h) - {#bh_items h ! pos#})"
proof -
  let ?item = "(bh_items h ! pos)\<lparr>hi_value := v\<rparr>"
  have u: "bh_mutex h = Unlocked" and ok: "items_ok (<) (bh_items h) refs"
    using assms(1) by (auto simp: heap_ok_def)
  have p: "pos < length (bh_items h)" and h1: "h1 = h\<lparr>bh_items := (bh_items h)[pos := ?item]\<rparr>"
    using assms(2) u by (auto simp: heap_set_value_def heap_index_def split: if_splits)
  obtain items' refs' where s: "update_items (<) pos ((bh_items h)[pos := ?item]) refs = (items', refs')"
    by fastforce
  then show ?thesis
    using less_order.update_items_ok [OF ok p _ s] p u
    by (auto simp: heap_update_def h1 heap_ok_def mset_update)
qed

theorem heap_update_restores_witness:
  "\<exists>h1 h' refs'. heap_set_value 1 2 example_heap = Inr h1 \<and>
    heap_update (<) 1 h1 example_refs = Inr (h', refs') \<and> heap_ok (<) h' refs' \<and>
    \<lparr>hi_value = 2, hi_ref = Some 1\<rparr> \<in> set (bh_items h')"
proof -
  obtain h1 where h1: "heap_set_value 1 2 example_heap = Inr h1"
    by (auto simp: heap_set_value_def heap_index_def example_heap_def)
  obtain h' refs' where h': "heap_update (<) 1 h1 example_refs = Inr (h', refs')"
      "heap_ok (<) h' refs'" "mset (bh_items h') = add_mset ((bh_items example_heap ! 1)\<lparr>hi_value := 2\<rparr>)
        (mset (bh_items example_heap) - {#bh_items example_heap ! 1#})"
    using heap_update_restores [OF example_heap_ok h1] by blast
  have "(bh_items example_heap ! 1)\<lparr>hi_value := 2\<rparr> \<in># mset (bh_items h')"
    by (simp add: h'(3))
  then show ?thesis using h1 h'(1,2) by (simp add: example_heap_def)
qed

text \<open>
  C23: Removing the first item again and again from an ordered heap that tracks its positions
  gives all its items, in ascending order of their values.
\<close>

theorem heap_drains_sorted:
  fixes h :: "('v::linorder, 'r) bheap"
  assumes "heap_ok (<) h refs" and "length (bh_items h) = n"
  shows "mset (drain queue_pull n (bh_items h, refs)) = mset (bh_items h) \<and>
    sorted (map hi_value (drain queue_pull n (bh_items h, refs)))"
  using bq.drain_sorted [of "(bh_items h, refs)" n] assms by (simp add: heap_ok_def)

theorem heap_drains_sorted_witness:
  "sorted (map hi_value (drain queue_pull 3 (bh_items example_heap, example_refs))) \<and>
   mset (drain queue_pull 3 (bh_items example_heap, example_refs)) = mset (bh_items example_heap)"
proof -
  have "length (bh_items example_heap) = 3" by (simp add: example_heap_def)
  then show ?thesis using heap_drains_sorted [OF example_heap_ok] by blast
qed

text \<open>
  \<^verbatim>\<open>pop\<close> and \<^verbatim>\<open>top\<close> never return, and \<^verbatim>\<open>swap\<close> returns for no indices: each acquires the
  heap mutex and then calls an operation that acquires it again.
\<close>

theorem heap_pop_relocks:
  "heap_pop cmp h refs = Inl Relock \<and> heap_top h = Inl Relock \<and>
   (heap_swap cmp i j h refs = Inl Relock \<or> heap_swap cmp i j h refs = Inl OutOfRange)"
  by (cases "bh_mutex h")
    (auto simp: heap_pop_def heap_top_def heap_swap_def heap_empty_def heap_update_def Let_def)

end
