(* ===== verification/Entry_Manager.thy ===== *)
theory Entry_Manager
  imports ZSet Binary_Heap
begin

text \<open>
  The entry manager of \<^verbatim>\<open>src/entry_manager.hpp\<close>: the database of entries, a hash map from keys
  to entries, and the heap of their expiry times.

  An entry lives at an address in a store.  The database owns the entries: an entry dies when
  its binding is removed or the database is cleared.  The heap items refer to the
  \<^verbatim>\<open>heap_idx\<close> fields of the entries; a heap operation while an item refers to a dead entry is
  \<open>Dangling\<close>.  The clock \<^verbatim>\<open>get_monotonic_usec\<close> is an argument of the operations that read it.
\<close>

section \<open>State\<close>

datatype 't entry_value =
    StringEntry string
  | IntEntry u64
  | DoubleEntry u64
  | ListEntry "string list"
  | HashEntry "(string \<times> string) list"
  | SetEntry "string list"
  | ZSetEntry "'t zset"

record 't entry =
  e_heap_idx :: u64
  e_key :: string
  e_value :: "'t entry_value"

record 't entry_manager =
  em_store :: "nat \<Rightarrow> 't entry option"
  em_next :: nat
  em_db :: "(string, nat) hmap"
  em_heap :: "(u64, nat) bheap"

definition em_new :: "'t entry_manager" where
  "em_new = \<lparr>em_store = (\<lambda>_. None), em_next = 0, em_db = hmap_default, em_heap = bheap_new\<rparr>"

definition entry_at :: "nat \<Rightarrow> 't entry_manager \<Rightarrow> 't entry result" where
  "entry_at a em = (case em_store em a of None \<Rightarrow> Inl Dangling | Some e \<Rightarrow> Inr e)"

definition set_heap_idx :: "nat \<Rightarrow> u64 \<Rightarrow> 't entry_manager \<Rightarrow> 't entry_manager" where
  "set_heap_idx a i em =
     em\<lparr>em_store := (em_store em)(a := map_option (\<lambda>e. e\<lparr>e_heap_idx := i\<rparr>) (em_store em a))\<rparr>"

text \<open>The \<^verbatim>\<open>heap_idx\<close> fields as the places that the heap writes, and back.\<close>

definition idx_refs :: "'t entry_manager \<Rightarrow> nat refs" where
  "idx_refs em a = (case em_store em a of None \<Rightarrow> 0 | Some e \<Rightarrow> e_heap_idx e)"

definition write_refs :: "nat refs \<Rightarrow> (nat \<Rightarrow> 't entry option) \<Rightarrow> nat \<Rightarrow> 't entry option" where
  "write_refs refs store a = map_option (\<lambda>e. e\<lparr>e_heap_idx := refs a\<rparr>) (store a)"

definition refs_live :: "'t entry_manager \<Rightarrow> bool" where
  "refs_live em \<longleftrightarrow> list_all (\<lambda>item. case hi_ref item of None \<Rightarrow> True | Some a \<Rightarrow> em_store em a \<noteq> None)
     (bh_items (em_heap em))"

definition on_heap :: "((u64, nat) bheap \<Rightarrow> nat refs \<Rightarrow> ((u64, nat) bheap \<times> nat refs) result) \<Rightarrow>
    't entry_manager \<Rightarrow> 't entry_manager result" where
  "on_heap f em =
     (if refs_live em then
        bindR (f (em_heap em) (idx_refs em)) (\<lambda>(h, refs).
          Inr (em\<lparr>em_heap := h, em_store := write_refs refs (em_store em)\<rparr>))
      else Inl Dangling)"

section \<open>Operations\<close>

definition find_entry :: "string \<Rightarrow> 't entry_manager \<Rightarrow> (nat option \<times> 't entry_manager) result" where
  "find_entry key em =
     bindR (hmap_find hash_key_string key (em_db em)) (\<lambda>(r, db). Inr (r, em\<lparr>em_db := db\<rparr>))"

definition create_entry :: "string \<Rightarrow> 't entry_value \<Rightarrow> 't entry_manager \<Rightarrow>
    (nat \<times> 't entry_manager) result" where
  "create_entry key v em =
     (let a = em_next em; e = \<lparr>e_heap_idx = npos, e_key = key, e_value = v\<rparr>
      in bindR (hmap_insert hash_key_string (e_key e) a (em_db em)) (\<lambda>db.
           Inr (a, em\<lparr>em_store := (em_store em)(a \<mapsto> e), em_next := Suc a, em_db := db\<rparr>)))"

definition remove_from_heap :: "nat \<Rightarrow> 't entry_manager \<Rightarrow> (bool \<times> 't entry_manager) result" where
  "remove_from_heap a em =
     bindR (entry_at a em) (\<lambda>e.
       bindR (heap_size (em_heap em)) (\<lambda>n.
         if unat (e_heap_idx e) \<ge> n then Inr (False, em)
         else bindR (on_heap (\<lambda>h refs. bindR (heap_pop (<) h refs) (\<lambda>(_, h, refs). Inr (h, refs))) em)
           (\<lambda>em. Inr (True, set_heap_idx a npos em))))"

definition add_to_heap :: "nat \<Rightarrow> u64 \<Rightarrow> 't entry_manager \<Rightarrow> (bool \<times> 't entry_manager) result" where
  "add_to_heap a expire_at em =
     bindR (entry_at a em) (\<lambda>e.
       if e_heap_idx e \<noteq> npos then Inr (False, em)
       else bindR (on_heap (heap_push (<) \<lparr>hi_value = expire_at, hi_ref = Some a\<rparr>) em) (\<lambda>em.
         bindR (heap_size (em_heap em)) (\<lambda>n.
           let em = set_heap_idx a (of_nat n - 1) em
           in bindR (entry_at a em) (\<lambda>e.
                bindR (on_heap (heap_update (<) (unat (e_heap_idx e))) em) (\<lambda>em. Inr (True, em))))))"

definition update_heap :: "nat \<Rightarrow> u64 \<Rightarrow> 't entry_manager \<Rightarrow> (bool \<times> 't entry_manager) result" where
  "update_heap a new_expire_at em =
     bindR (entry_at a em) (\<lambda>e.
       bindR (heap_size (em_heap em)) (\<lambda>n.
         if unat (e_heap_idx e) \<ge> n then Inr (False, em)
         else bindR (heap_set_value (unat (e_heap_idx e)) new_expire_at (em_heap em)) (\<lambda>h.
           bindR (on_heap (heap_update (<) (unat (e_heap_idx e))) (em\<lparr>em_heap := h\<rparr>)) (\<lambda>em.
             Inr (True, em)))))"

definition delete_entry :: "string \<Rightarrow> 't entry_manager \<Rightarrow> (bool \<times> 't entry_manager) result" where
  "delete_entry key em =
     bindR (hmap_find hash_key_string key (em_db em)) (\<lambda>(r, db).
       let em = em\<lparr>em_db := db\<rparr>
       in case r of
            None \<Rightarrow> Inr (False, em)
          | Some a \<Rightarrow>
              bindR (entry_at a em) (\<lambda>e.
                bindR (if e_heap_idx e \<noteq> npos then remove_from_heap a em else Inr (False, em)) (\<lambda>(_, em).
                  bindR (hmap_remove hash_key_string key (em_db em)) (\<lambda>(r, db).
                    Inr (True, em\<lparr>em_db := db,
                      em_store := (case r of None \<Rightarrow> em_store em
                                   | Some a \<Rightarrow> (em_store em)(a := None))\<rparr>)))))"

definition clear_all :: "'t entry_manager \<Rightarrow> (bool \<times> 't entry_manager) result" where
  "clear_all em =
     (let db = hmap_clear (em_db em)
      in bindR (heap_clear (em_heap em)) (\<lambda>h.
           bindR (heap_size h) (\<lambda>n.
             Inr (hmap_size db = 0 \<and> n = 0, em\<lparr>em_db := db, em_heap := h, em_store := (\<lambda>_. None)\<rparr>))))"

definition set_entry_ttl :: "u64 \<Rightarrow> nat \<Rightarrow> u64 \<Rightarrow> 't entry_manager \<Rightarrow> (bool \<times> 't entry_manager) result" where
  "set_entry_ttl now a ttl_ms em =
     bindR (entry_at a em) (\<lambda>e.
       if sint ttl_ms \<le> 0 then delete_entry (e_key e) em
       else let expire_at = now + ttl_ms * 1000
            in bindR (if e_heap_idx e = npos then add_to_heap a expire_at em
                      else update_heap a expire_at em) (\<lambda>(_, em). Inr (True, em)))"

definition get_expiry_time :: "u64 \<Rightarrow> nat \<Rightarrow> 't entry_manager \<Rightarrow> u64 result" where
  "get_expiry_time now a em =
     bindR (entry_at a em) (\<lambda>e.
       if e_heap_idx e = npos then Inr (- 1)
       else bindR (heap_size (em_heap em)) (\<lambda>n.
         if unat (e_heap_idx e) \<ge> n then Inr (- 1)
         else bindR (heap_index (unat (e_heap_idx e)) (em_heap em)) (\<lambda>item.
           let expire_at = hi_value item; remaining_time = (expire_at - now) div 1000
           in Inr (if sint remaining_time > 0 then remaining_time else - 1))))"

section \<open>The invariant\<close>

abbreviation heap_items :: "'t entry_manager \<Rightarrow> (u64, nat) heap_item list" where
  "heap_items em \<equiv> bh_items (em_heap em)"

abbreviation entry_stack :: "'t entry_manager \<Rightarrow> string \<Rightarrow> nat list" where
  "entry_stack em \<equiv> hm_stack (em_db em)"

text \<open>
  The database binds a key to live entries with that key, every live entry is bound, no entry
  is bound twice, and there are at most 32 bindings.
\<close>

definition db_ok :: "'t entry_manager \<Rightarrow> bool" where
  "db_ok em \<longleftrightarrow> hmap_stable hash_key_string (em_db em) \<and> hmap_size (em_db em) \<le> hmap_limit \<and>
     (\<forall>k. distinct (entry_stack em k)) \<and>
     (\<forall>k. \<forall>a \<in> set (entry_stack em k). map_option e_key (em_store em a) = Some k) \<and>
     (\<forall>a e. em_store em a = Some e \<longrightarrow> a < em_next em \<and> a \<in> set (entry_stack em (e_key e)))"

text \<open>
  Each heap item refers to a live entry, no two to the same; an entry's index is absent exactly
  when no item refers to the entry, and is in range otherwise.
\<close>

definition heap_links :: "'t entry_manager \<Rightarrow> bool" where
  "heap_links em \<longleftrightarrow> bh_mutex (em_heap em) = Unlocked \<and>
     distinct (map hi_ref (heap_items em)) \<and>
     (\<forall>r \<in> set (map hi_ref (heap_items em)). \<exists>a e. r = Some a \<and> em_store em a = Some e) \<and>
     (\<forall>a e. em_store em a = Some e \<longrightarrow>
        (if e_heap_idx e = npos then a \<notin> ref_set (heap_items em)
         else unat (e_heap_idx e) < length (heap_items em) \<and> a \<in> ref_set (heap_items em)))"

definition em_linked :: "'t entry_manager \<Rightarrow> bool" where
  "em_linked em \<longleftrightarrow> db_ok em \<and> heap_links em"

definition em_inv :: "'t entry_manager \<Rightarrow> bool" where
  "em_inv em \<longleftrightarrow> em_linked em \<and> heap_ordered (<) (heap_items em)"

lemma em_inv_linked: "em_inv em \<Longrightarrow> em_linked em"
  by (simp add: em_inv_def)

text \<open>Two states with the same database, keys and values: only indices differ.\<close>

definition same_data :: "'t entry_manager \<Rightarrow> 't entry_manager \<Rightarrow> bool" where
  "same_data em em' \<longleftrightarrow> em_db em' = em_db em \<and> em_next em' = em_next em \<and>
     (\<forall>a. map_option (\<lambda>e. (e_key e, e_value e)) (em_store em' a) =
          map_option (\<lambda>e. (e_key e, e_value e)) (em_store em a))"

lemma ref_set_refs: "ref_set items = {a. Some a \<in> set (map hi_ref items)}"
  by (force simp: ref_set_def)

lemma same_data_refl [simp]: "same_data em em"
  by (simp add: same_data_def)

lemma same_data_trans: "same_data em em' \<Longrightarrow> same_data em' em'' \<Longrightarrow> same_data em em''"
  by (simp add: same_data_def)

lemma same_data_store:
  assumes "same_data em em'"
  shows "em_store em' a = None \<longleftrightarrow> em_store em a = None"
    and "map_option e_key (em_store em' a) = map_option e_key (em_store em a)"
    and "map_option e_value (em_store em' a) = map_option e_value (em_store em a)"
proof -
  have "map_option (\<lambda>e. (e_key e, e_value e)) (em_store em' a) =
      map_option (\<lambda>e. (e_key e, e_value e)) (em_store em a)"
    using assms by (simp add: same_data_def)
  then show "em_store em' a = None \<longleftrightarrow> em_store em a = None"
    and "map_option e_key (em_store em' a) = map_option e_key (em_store em a)"
    and "map_option e_value (em_store em' a) = map_option e_value (em_store em a)"
    by (cases "em_store em a"; cases "em_store em' a"; simp)+
qed

lemma db_ok_same:
  assumes "db_ok em" and "same_data em em'"
  shows "db_ok em'"
proof -
  have "a < em_next em \<and> a \<in> set (entry_stack em (e_key e))" if st: "em_store em' a = Some e" for a e
  proof -
    obtain e0 where "em_store em a = Some e0" "e_key e0 = e_key e"
      using same_data_store(2) [OF assms(2), of a] st by (cases "em_store em a") auto
    then show ?thesis using assms(1) unfolding db_ok_def by metis
  qed
  then show ?thesis
    using assms same_data_store(2) [OF assms(2)] by (auto simp: db_ok_def same_data_def)
qed

lemma em_inv_new [simp]: "em_inv em_new"
  by (auto simp: em_inv_def em_linked_def db_ok_def heap_links_def em_new_def bheap_new_def hm.count_new heap_ordered_def)

lemma live_entry:
  "em_linked em \<Longrightarrow> em_store em a = Some e \<Longrightarrow> a \<in> set (entry_stack em (e_key e)) \<and> a < em_next em"
  by (auto simp: em_linked_def db_ok_def)

lemma stack_live:
  assumes "em_linked em" and "a \<in> set (entry_stack em k)"
  obtains e where "em_store em a = Some e" and "e_key e = k"
proof -
  have "map_option e_key (em_store em a) = Some k"
    using assms by (simp add: em_linked_def db_ok_def)
  then show thesis using that by auto
qed

text \<open>There are at most as many heap items as bindings.\<close>

lemma heap_small:
  assumes "em_linked em"
  shows "length (heap_items em) \<le> 32"
proof -
  let ?refs = "map hi_ref (heap_items em)"
  have links: "distinct ?refs" "\<forall>r \<in> set ?refs. \<exists>a e. r = Some a \<and> em_store em a = Some e"
    using assms by (auto simp: em_linked_def heap_links_def)
  have st: "hmap_stable hash_key_string (em_db em)" "hmap_size (em_db em) \<le> 32"
    using assms by (auto simp: em_linked_def db_ok_def hmap_limit_eq)
  have sub: "set ?refs \<subseteq> Some ` (\<Union>k. set (entry_stack em k))"
  proof
    fix r assume "r \<in> set ?refs"
    then obtain a e where "r = Some a" "em_store em a = Some e" using links(2) by metis
    then show "r \<in> Some ` (\<Union>k. set (entry_stack em k))" using live_entry [OF assms] by blast
  qed
  have "card (set ?refs) \<le> card (Some ` (\<Union>k. set (entry_stack em k)))"
    using hm.values_le [OF st(1)] sub by (intro card_mono) auto
  also have "\<dots> \<le> card (\<Union>k. set (entry_stack em k))"
    using hm.values_le [OF st(1)] by (intro card_image_le) auto
  finally have "card (set ?refs) \<le> card (\<Union>k. set (entry_stack em k))" .
  then show ?thesis
    using hm.values_le [OF st(1)] st(2) distinct_card [OF links(1)] by simp
qed

lemma small_index: "i \<le> 32 \<Longrightarrow> unat (of_nat i :: u64) = i \<and> (of_nat i :: u64) \<noteq> npos"
proof -
  assume "i \<le> 32"
  then have "unat (of_nat i :: u64) = i" by (intro unat_of_nat_small) simp
  then show ?thesis using \<open>i \<le> 32\<close> npos_unat by auto
qed

lemma heap_links_live: "heap_links em \<Longrightarrow> refs_live em"
  unfolding heap_links_def refs_live_def list_all_iff by (force split: option.splits)

text \<open>
  A heap operation that permutes references and writes only indices of the array keeps the
  links.
\<close>

lemma on_heap_step:
  assumes inv: "em_linked em"
    and f: "f (em_heap em) (idx_refs em) = Inr (h, refs)"
    and h: "bh_mutex h = Unlocked" "heap_ordered (<) (bh_items h)"
      "mset (map hi_ref (bh_items h)) = mset (map hi_ref (heap_items em))"
    and out: "\<And>a. a \<notin> ref_set (heap_items em) \<Longrightarrow> refs a = idx_refs em a"
    and idx: "\<And>a. refs a = idx_refs em a \<or> (\<exists>i < length (heap_items em). refs a = of_nat i)"
  shows "\<exists>em'. on_heap f em = Inr em' \<and> em_inv em' \<and> same_data em em' \<and> em_heap em' = h"
proof -
  let ?em = "em\<lparr>em_heap := h, em_store := write_refs refs (em_store em)\<rparr>"
  have links: "heap_links em" using inv by (simp add: em_linked_def)
  have run: "on_heap f em = Inr ?em"
    using f heap_links_live [OF links] by (simp add: on_heap_def)
  have same: "same_data em ?em"
    by (auto simp: same_data_def write_refs_def option.map_comp comp_def)
  have refs: "set (map hi_ref (bh_items h)) = set (map hi_ref (heap_items em))"
    using h(3) by (rule mset_eq_setD)
  have len: "length (bh_items h) = length (heap_items em)"
    using mset_eq_length [OF h(3)] by simp
  have "if e_heap_idx e = npos then a \<notin> ref_set (bh_items h)
      else unat (e_heap_idx e) < length (bh_items h) \<and> a \<in> ref_set (bh_items h)"
    if st: "em_store ?em a = Some e" for a e
  proof -
    obtain e0 where e0: "em_store em a = Some e0" "e_heap_idx e = refs a" "idx_refs em a = e_heap_idx e0"
      using st by (auto simp: write_refs_def idx_refs_def)
    have old: "if e_heap_idx e0 = npos then a \<notin> ref_set (heap_items em)
        else unat (e_heap_idx e0) < length (heap_items em) \<and> a \<in> ref_set (heap_items em)"
      using links e0(1) by (simp add: heap_links_def)
    have small: "unat (of_nat i :: u64) = i \<and> (of_nat i :: u64) \<noteq> npos" if "i < length (heap_items em)" for i
      using heap_small [OF inv] that by (intro small_index) simp
    have sets: "ref_set (bh_items h) = ref_set (heap_items em)" using refs by (simp only: ref_set_refs)
    from idx [of a] show ?thesis
      using old small e0(2,3) out [of a] unfolding len sets by (metis (full_types))
  qed
  then have "heap_links ?em"
    using links h refs mset_eq_imp_distinct_iff [OF h(3)] same_data_store(1) [OF same]
    by (auto simp: heap_links_def) (metis not_None_eq)+
  then show ?thesis
    using run same inv h(2) db_ok_same [OF _ same] by (auto simp: em_linked_def em_inv_def)
qed

section \<open>The operations on the invariant\<close>

lemma em_inv_db: "em_inv em \<Longrightarrow> hmap_stable hash_key_string (em_db em)"
  by (simp add: em_inv_def em_linked_def db_ok_def)

lemma find_entry_ok:
  "em_inv em \<Longrightarrow> find_entry key em = Inr (hd_opt (entry_stack em key), em)"
  by (simp add: find_entry_def hm.get_top em_inv_db)

lemma entry_at_live: "em_store em a = Some e \<Longrightarrow> entry_at a em = Inr e"
  by (simp add: entry_at_def)

definition entry_count :: "'t entry_manager \<Rightarrow> nat" where
  "entry_count em = hmap_size (em_db em)"

lemma create_entry_full:
  "em_inv em \<Longrightarrow> 32 \<le> entry_count em \<Longrightarrow> create_entry key v em = Inl Relock"
  by (simp add: create_entry_def hm.put_full em_inv_db hmap_limit_eq entry_count_def Let_def)

lemma create_entry_ok:
  assumes inv: "em_inv em" and room: "entry_count em < 32"
  shows "\<exists>em'. create_entry key v em = Inr (em_next em, em') \<and> em_inv em' \<and>
    entry_stack em' = (entry_stack em)(key := em_next em # entry_stack em key) \<and>
    em_store em' = (em_store em)(em_next em \<mapsto> \<lparr>e_heap_idx = npos, e_key = key, e_value = v\<rparr>) \<and>
    entry_count em' = Suc (entry_count em) \<and> em_heap em' = em_heap em \<and>
    em_next em' = Suc (em_next em)"
proof -
  let ?a = "em_next em" and ?e = "\<lparr>e_heap_idx = npos, e_key = key, e_value = v\<rparr>"
  obtain db where db: "hmap_insert hash_key_string key ?a (em_db em) = Inr db"
      "hmap_stable hash_key_string db"
      "hm_stack db = (entry_stack em)(key := ?a # entry_stack em key)"
      "hmap_size db = Suc (hmap_size (em_db em))"
    using hm.put_room [OF em_inv_db [OF inv], of key ?a] room by (auto simp: hmap_limit_eq entry_count_def)
  define em' where "em' = em\<lparr>em_store := (em_store em)(?a \<mapsto> ?e), em_next := Suc ?a, em_db := db\<rparr>"
  have lk: "em_linked em" by (rule em_inv_linked [OF inv])
  have fresh: "em_store em ?a = None" using live_entry [OF lk, of ?a] by (cases "em_store em ?a") auto
  have old: "em_store em a \<noteq> None" if "a \<in> set (entry_stack em k)" for a k
    using stack_live [OF lk that] by auto
  have new: "?a \<notin> set (entry_stack em k)" for k using old [of ?a k] fresh by auto
  have db_ok: "db_ok em'"
    unfolding db_ok_def
  proof (intro conjI allI ballI impI)
    fix k show "distinct (entry_stack em' k)"
      using inv new db(3) by (auto simp: em'_def em_inv_def em_linked_def db_ok_def)
  next
    fix k a assume "a \<in> set (entry_stack em' k)"
    then show "map_option e_key (em_store em' a) = Some k"
      using inv new db(3) by (auto simp: em'_def em_inv_def em_linked_def db_ok_def split: if_splits)
  next
    fix a e assume "em_store em' a = Some e"
    then show "a < em_next em'" "a \<in> set (entry_stack em' (e_key e))"
      using live_entry [OF lk, of a e] db(3) by (auto simp: em'_def split: if_splits)
  qed (use db room in \<open>simp_all add: em'_def hmap_limit_eq entry_count_def\<close>)
  have "?a \<notin> ref_set (heap_items em)"
    using inv fresh by (force simp: em_inv_def em_linked_def heap_links_def ref_set_refs)
  moreover have "\<exists>a e. r = Some a \<and> em_store em' a = Some e" if r: "r \<in> set (map hi_ref (heap_items em))" for r
  proof -
    obtain a e where "r = Some a" "em_store em a = Some e"
      using inv r unfolding em_inv_def em_linked_def heap_links_def by metis
    then show ?thesis by (cases "a = ?a") (auto simp: em'_def)
  qed
  ultimately have "heap_links em'"
    using inv unfolding em_inv_def em_linked_def heap_links_def by (auto simp: em'_def split: if_splits)
  then show ?thesis
    using db inv db_ok by (auto simp: create_entry_def Let_def em_inv_def em_linked_def em'_def entry_count_def)
qed

lemma ref_set_mset: "mset xs = mset ys \<Longrightarrow> ref_set xs = ref_set ys"
  unfolding ref_set_def by (metis mset_eq_setD)

lemma heap_update_step:
  assumes inv: "em_linked em" and pos: "pos < length (heap_items em)"
    and ord: "heap_ordered (<) items" and items: "heap_items em = items[pos := item]"
  shows "\<exists>em'. on_heap (heap_update (<) pos) em = Inr em' \<and> em_inv em' \<and> same_data em em' \<and>
    mset (heap_items em') = mset (heap_items em)"
proof -
  obtain items' refs' where u: "update_items (<) pos (heap_items em) (idx_refs em) = (items', refs')"
    by fastforce
  have moves: "sift_moves (heap_items em) (idx_refs em) (items', refs')"
    using update_items_moves [OF pos, of "idx_refs em" "(<)"] u by simp
  have "heap_ordered (<) items'"
    using less_order.update_items_ordered [OF ord, of pos item "idx_refs em"] u pos items by simp
  then have "\<exists>em'. on_heap (heap_update (<) pos) em = Inr em' \<and> em_inv em' \<and> same_data em em' \<and>
      em_heap em' = (em_heap em)\<lparr>bh_items := items'\<rparr>"
    using inv u pos moves
    by (intro on_heap_step [where refs = refs'])
      (auto simp: heap_update_def em_linked_def heap_links_def sift_moves_def)
  then show ?thesis using moves by (auto simp: sift_moves_def)
qed

text \<open>The state after \<^verbatim>\<open>push\<close> and the assignment of the last index to the entry.\<close>

lemma pushed_inv:
  assumes inv: "em_inv em" and a: "em_store em a = Some e" "e_heap_idx e = npos"
    and s: "sift_up (<) (length (heap_items em)) (heap_items em @ [\<lparr>hi_value = x, hi_ref = Some a\<rparr>])
      (idx_refs em) = (items', refs')"
  defines "em2 \<equiv> set_heap_idx a (of_nat (length (heap_items em)))
    (em\<lparr>em_heap := (em_heap em)\<lparr>bh_items := items'\<rparr>, em_store := write_refs refs' (em_store em)\<rparr>)"
  shows "em_inv em2" and "same_data em em2"
    and "mset items' = add_mset \<lparr>hi_value = x, hi_ref = Some a\<rparr> (mset (heap_items em))"
proof -
  let ?n = "length (heap_items em)" and ?item = "\<lparr>hi_value = x, hi_ref = Some a\<rparr>"
  let ?old = "heap_items em"
  have lk: "em_linked em" by (rule em_inv_linked [OF inv])
  have links: "heap_links em" and db: "db_ok em" and ord: "heap_ordered (<) ?old"
    using inv by (auto simp: em_inv_def em_linked_def)
  have moves: "sift_moves (?old @ [?item]) (idx_refs em) (items', refs')"
    using sift_up_moves [of ?n "?old @ [?item]" "idx_refs em" "(<)"] s by simp
  then show mset: "mset items' = add_mset ?item (mset ?old)" by (simp add: sift_moves_def)
  have len: "length items' = Suc ?n" using mset by (metis size_add_mset size_mset)
  have refs: "mset (map hi_ref items') = add_mset (Some a) (mset (map hi_ref ?old))"
    using mset by simp
  have rset: "ref_set items' = insert a (ref_set ?old)"
    using ref_set_mset [of items' "?old @ [?item]"] mset by (auto simp: ref_set_append)
  have na: "a \<notin> ref_set ?old" using links a by (auto simp: heap_links_def)
  have dist: "distinct (map hi_ref items')"
  proof -
    have "distinct (Some a # map hi_ref ?old)" using links na by (auto simp: heap_links_def ref_set_refs)
    moreover have "mset (map hi_ref items') = mset (Some a # map hi_ref ?old)" using refs by simp
    ultimately show ?thesis using mset_eq_imp_distinct_iff by blast
  qed
  show same: "same_data em em2"
    by (auto simp: same_data_def em2_def set_heap_idx_def write_refs_def option.map_comp comp_def)
  have heap: "em_heap em2 = (em_heap em)\<lparr>bh_items := items'\<rparr>" by (simp add: em2_def set_heap_idx_def)
  have n32: "?n \<le> 32" by (rule heap_small [OF lk])
  have idx: "if e_heap_idx f = npos then b \<notin> ref_set items'
      else unat (e_heap_idx f) < length items' \<and> b \<in> ref_set items'"
    if f: "em_store em2 b = Some f" for b f
  proof (cases "b = a")
    case True
    then have "e_heap_idx f = of_nat ?n" using f by (auto simp: em2_def set_heap_idx_def)
    then show ?thesis using small_index [OF n32] len rset True by simp
  next
    case False
    then obtain f0 where f0: "em_store em b = Some f0" "e_heap_idx f = refs' b" "idx_refs em b = e_heap_idx f0"
      using f by (auto simp: em2_def set_heap_idx_def write_refs_def idx_refs_def)
    have old: "if e_heap_idx f0 = npos then b \<notin> ref_set ?old
        else unat (e_heap_idx f0) < ?n \<and> b \<in> ref_set ?old"
      using links f0(1) by (simp add: heap_links_def)
    consider "refs' b = e_heap_idx f0" | i where "i < Suc ?n" "refs' b = of_nat i"
      using spec [OF conjunct2 [OF conjunct2 [OF moves [unfolded sift_moves_def]]], of b] f0(3) by auto
    then show ?thesis
    proof cases
      case 1
      then show ?thesis using old f0(2) False len rset by auto
    next
      case (2 i)
      show ?thesis
      proof (cases "b \<in> ref_set ?old")
        case True
        then show ?thesis using 2 small_index [of i] n32 f0(2) len rset by simp
      next
        case False
        then have "refs' b = e_heap_idx f0"
          using moves \<open>b \<noteq> a\<close> f0(3) by (simp add: sift_moves_def ref_set_append)
        then show ?thesis using False old f0(2) \<open>b \<noteq> a\<close> rset by (auto split: if_splits)
      qed
    qed
  qed
  have live: "\<exists>b f. r = Some b \<and> em_store em2 b = Some f" if r: "r \<in> set (map hi_ref items')" for r
  proof -
    have "r = Some a \<or> r \<in> set (map hi_ref ?old)" using r mset_eq_setD [of "map hi_ref items'" "Some a # map hi_ref ?old"] refs by auto
    then obtain b f where "r = Some b" "em_store em b = Some f"
      using a(1) links unfolding heap_links_def by metis
    then show ?thesis using same_data_store(1) [OF same, of b] by auto
  qed
  have "heap_links em2"
    using links dist idx live by (simp add: heap_links_def heap)
  moreover have "heap_ordered (<) items'"
    using less_order.push_items_ordered [OF ord, of ?item "idx_refs em"] s by simp
  ultimately show "em_inv em2"
    using db_ok_same [OF db same] by (simp add: em_inv_def em_linked_def heap)
qed

lemma add_to_heap_run:
  assumes inv: "em_inv em" and a: "em_store em a = Some e" "e_heap_idx e = npos"
    and s: "sift_up (<) (length (heap_items em)) (heap_items em @ [\<lparr>hi_value = x, hi_ref = Some a\<rparr>])
      (idx_refs em) = (items', refs')"
  shows "add_to_heap a x em =
    bindR (on_heap (heap_update (<) (length (heap_items em)))
      (set_heap_idx a (of_nat (length (heap_items em)))
        (em\<lparr>em_heap := (em_heap em)\<lparr>bh_items := items'\<rparr>, em_store := write_refs refs' (em_store em)\<rparr>)))
      (\<lambda>em. Inr (True, em))"
proof -
  let ?n = "length (heap_items em)" and ?item = "\<lparr>hi_value = x, hi_ref = Some a\<rparr>"
  let ?em1 = "em\<lparr>em_heap := (em_heap em)\<lparr>bh_items := items'\<rparr>, em_store := write_refs refs' (em_store em)\<rparr>"
  let ?em2 = "set_heap_idx a (of_nat ?n) ?em1"
  have u: "bh_mutex (em_heap em) = Unlocked" and live: "refs_live em"
    using inv heap_links_live by (auto simp: em_inv_def em_linked_def heap_links_def)
  have len: "length items' = Suc ?n" using pushed_inv(3) [OF inv a s] by (metis size_add_mset size_mset)
  have push: "on_heap (heap_push (<) ?item) em = Inr ?em1"
    using u live s by (simp add: on_heap_def heap_push_def)
  have idx: "entry_at a ?em2 = Inr (e\<lparr>e_heap_idx := of_nat ?n\<rparr>)"
    using a(1) by (simp add: entry_at_def set_heap_idx_def write_refs_def)
  have size: "heap_size (em_heap ?em1) = Inr (Suc ?n)" using u len by (simp add: heap_size_def)
  show ?thesis
    using push size idx entry_at_live [OF a(1)] a(2) small_index [OF heap_small [OF em_inv_linked [OF inv]]]
    by (simp add: add_to_heap_def)
qed

lemma add_to_heap_ok:
  assumes inv: "em_inv em" and a: "em_store em a = Some e" "e_heap_idx e = npos"
  shows "\<exists>em'. add_to_heap a x em = Inr (True, em') \<and> em_inv em' \<and> same_data em em' \<and>
    mset (heap_items em') = add_mset \<lparr>hi_value = x, hi_ref = Some a\<rparr> (mset (heap_items em))"
proof -
  let ?n = "length (heap_items em)" and ?item = "\<lparr>hi_value = x, hi_ref = Some a\<rparr>"
  obtain items' refs' where s: "sift_up (<) ?n (heap_items em @ [?item]) (idx_refs em) = (items', refs')"
    by fastforce
  let ?em2 = "set_heap_idx a (of_nat ?n)
    (em\<lparr>em_heap := (em_heap em)\<lparr>bh_items := items'\<rparr>, em_store := write_refs refs' (em_store em)\<rparr>)"
  have em2: "em_inv ?em2" "same_data em ?em2" "mset items' = add_mset ?item (mset (heap_items em))"
    using pushed_inv [OF inv a s] by auto
  have len: "length items' = Suc ?n" using em2(3) by (metis size_add_mset size_mset)
  have items: "heap_items ?em2 = items'" by (simp add: set_heap_idx_def)
  obtain em' where em': "on_heap (heap_update (<) ?n) ?em2 = Inr em'" "em_inv em'" "same_data ?em2 em'"
      "mset (heap_items em') = mset (heap_items ?em2)"
    using heap_update_step [OF em_inv_linked [OF em2(1)], of ?n items' "items' ! ?n"] items em2(1) len
    by (auto simp: em_inv_def)
  then show ?thesis
    using add_to_heap_run [OF inv a s] em2 items same_data_trans [OF em2(2) em'(3)] by auto
qed

lemma em_linked_heap:
  assumes "em_linked em" and "map hi_ref (bh_items h) = map hi_ref (heap_items em)"
    and "bh_mutex h = Unlocked"
  shows "em_linked (em\<lparr>em_heap := h\<rparr>)"
proof -
  have "ref_set (bh_items h) = ref_set (heap_items em)" by (simp only: ref_set_refs assms(2))
  moreover have "length (bh_items h) = length (heap_items em)" using assms(2) by (metis length_map)
  ultimately show ?thesis
    using assms unfolding em_linked_def db_ok_def heap_links_def by (simp del: set_map)
qed

lemma update_heap_ok:
  assumes inv: "em_inv em" and a: "em_store em a = Some e" "e_heap_idx e \<noteq> npos"
  shows "\<exists>em'. update_heap a x em = Inr (True, em') \<and> em_inv em' \<and> same_data em em' \<and>
    mset (heap_items em') =
      mset ((heap_items em)[unat (e_heap_idx e) := (heap_items em ! unat (e_heap_idx e))\<lparr>hi_value := x\<rparr>])"
proof -
  let ?i = "unat (e_heap_idx e)" and ?l = "heap_items em"
  let ?item = "(?l ! ?i)\<lparr>hi_value := x\<rparr>"
  let ?em1 = "em\<lparr>em_heap := (em_heap em)\<lparr>bh_items := ?l[?i := ?item]\<rparr>\<rparr>"
  have u: "bh_mutex (em_heap em) = Unlocked" and ord: "heap_ordered (<) ?l" and i: "?i < length ?l"
    using inv a by (auto simp: em_inv_def em_linked_def heap_links_def)
  have refs: "map hi_ref (?l[?i := ?item]) = map hi_ref ?l"
    by (rule nth_equalityI) (simp_all add: hi_ref_update)
  have "em_linked ?em1"
    by (rule em_linked_heap [OF em_inv_linked [OF inv]]) (simp_all add: refs u)
  then obtain em' where em': "on_heap (heap_update (<) ?i) ?em1 = Inr em'" "em_inv em'" "same_data ?em1 em'"
      "mset (heap_items em') = mset (?l[?i := ?item])"
    using heap_update_step [of ?em1 ?i ?l ?item] ord i by auto
  have "update_heap a x em = Inr (True, em')"
    using em'(1) u i entry_at_live [OF a(1)]
    by (simp add: update_heap_def heap_size_def heap_set_value_def heap_index_def)
  moreover have "same_data em ?em1" by (simp add: same_data_def)
  ultimately show ?thesis using em' same_data_trans by blast
qed

lemma remove_from_heap_relocks:
  assumes "em_inv em" and "em_store em a = Some e" and "e_heap_idx e \<noteq> npos"
  shows "remove_from_heap a em = Inl Relock"
proof -
  have "bh_mutex (em_heap em) = Unlocked" "unat (e_heap_idx e) < length (heap_items em)" "refs_live em"
    using assms heap_links_live by (auto simp: em_inv_def em_linked_def heap_links_def)
  then show ?thesis
    using assms(2)
    by (simp add: remove_from_heap_def entry_at_def heap_size_def on_heap_def heap_pop_def heap_empty_def Let_def)
qed

lemma delete_entry_absent:
  "em_inv em \<Longrightarrow> entry_stack em key = [] \<Longrightarrow> delete_entry key em = Inr (False, em)"
  by (simp add: delete_entry_def hm.get_top em_inv_db)

lemma delete_entry_relocks:
  assumes "em_inv em" and "entry_stack em key = a # as" and "em_store em a = Some e"
    and "e_heap_idx e \<noteq> npos"
  shows "delete_entry key em = Inl Relock"
  using assms
  by (simp add: delete_entry_def hm.get_top em_inv_db entry_at_def remove_from_heap_relocks)

lemma delete_entry_ok:
  assumes inv: "em_inv em" and top: "entry_stack em key = a # as" and e: "em_store em a = Some e"
    and idx: "e_heap_idx e = npos"
  shows "\<exists>em'. delete_entry key em = Inr (True, em') \<and> em_inv em' \<and>
    entry_stack em' = (entry_stack em)(key := as) \<and> em_store em' = (em_store em)(a := None) \<and>
    entry_count em' = entry_count em - 1 \<and> em_heap em' = em_heap em"
proof -
  have lk: "em_linked em" by (rule em_inv_linked [OF inv])
  obtain db where db: "hmap_remove hash_key_string key (em_db em) = Inr (Some a, db)"
      "hmap_stable hash_key_string db" "hm_stack db = (entry_stack em)(key := as)"
      "hmap_size db = hmap_size (em_db em) - 1"
    using hm.del_top [OF em_inv_db [OF inv], of key] top by auto
  define em' where "em' = em\<lparr>em_db := db, em_store := (em_store em)(a := None)\<rparr>"
  have run: "delete_entry key em = Inr (True, em')"
    using inv top e idx db(1) by (simp add: delete_entry_def hm.get_top em_inv_db entry_at_def em'_def)
  have dist: "distinct (a # as)" using inv top unfolding em_inv_def em_linked_def db_ok_def by metis
  have key: "e_key e = key" using stack_live [OF lk, of a key] top e by auto
  have only: "a \<notin> set (entry_stack em k)" if "k \<noteq> key" for k
    using stack_live [OF lk, of a k] e key that by auto
  have "db_ok em'"
    unfolding db_ok_def
  proof (intro conjI allI ballI impI)
    fix k show "distinct (entry_stack em' k)"
      using lk dist db(3) by (auto simp: em'_def em_linked_def db_ok_def)
  next
    fix k b assume "b \<in> set (entry_stack em' k)"
    then have b: "b \<in> set (entry_stack em k)" "b \<noteq> a"
      using only dist top db(3) by (auto simp: em'_def split: if_splits)
    then show "map_option e_key (em_store em' b) = Some k"
      using lk by (auto simp: em'_def em_linked_def db_ok_def)
  next
    fix b f assume "em_store em' b = Some f"
    then have b: "em_store em b = Some f" "b \<noteq> a" by (auto simp: em'_def split: if_splits)
    then show "b < em_next em'" "b \<in> set (entry_stack em' (e_key f))"
      using live_entry [OF lk b(1)] top db(3) by (auto simp: em'_def)
  qed (use db lk in \<open>auto simp: em'_def em_linked_def db_ok_def\<close>)
  moreover have na: "a \<notin> ref_set (heap_items em)"
    using lk e idx by (auto simp: em_linked_def heap_links_def)
  have "\<exists>b f. r = Some b \<and> em_store em' b = Some f" if r: "r \<in> set (map hi_ref (heap_items em))" for r
  proof -
    obtain b f where "r = Some b" "em_store em b = Some f"
      using lk r unfolding em_linked_def heap_links_def by metis
    moreover have "b \<noteq> a" using na r \<open>r = Some b\<close> by (auto simp: ref_set_refs)
    ultimately show ?thesis by (auto simp: em'_def)
  qed
  then have "heap_links em'"
    using lk unfolding em_linked_def heap_links_def by (auto simp: em'_def split: if_splits)
  ultimately show ?thesis
    using run db inv by (auto simp: em_inv_def em_linked_def em'_def entry_count_def)
qed

lemma clear_all_ok:
  assumes "em_inv em"
  shows "\<exists>em'. clear_all em = Inr (True, em') \<and> em_inv em' \<and> entry_stack em' = (\<lambda>_. []) \<and>
    entry_count em' = 0 \<and> em_store em' = (\<lambda>_. None)"
proof -
  have "bh_mutex (em_heap em) = Unlocked"
    using assms by (simp add: em_inv_def em_linked_def heap_links_def)
  then show ?thesis
    using hm.wipe_all [OF em_inv_db [OF assms]]
    by (auto simp: clear_all_def heap_clear_def heap_size_def em_inv_def em_linked_def db_ok_def
        heap_links_def heap_ordered_def entry_count_def)
qed

text \<open>A positive time to live: the heap changes and no entry does but for its index.\<close>

lemma set_entry_ttl_ok:
  assumes inv: "em_inv em" and e: "em_store em a = Some e" and ttl: "0 < sint ttl"
  shows "\<exists>em'. set_entry_ttl now a ttl em = Inr (True, em') \<and> em_inv em' \<and> same_data em em'"
proof (cases "e_heap_idx e = npos")
  case True
  then show ?thesis
    using add_to_heap_ok [OF inv e, of "now + ttl * 1000"] ttl entry_at_live [OF e]
    by (auto simp: set_entry_ttl_def)
next
  case False
  then show ?thesis
    using update_heap_ok [OF inv e, of "now + ttl * 1000"] ttl entry_at_live [OF e]
    by (auto simp: set_entry_ttl_def)
qed

text \<open>What \<^verbatim>\<open>get_expiry_time\<close> computes from an expiry time.\<close>

definition remaining_ms :: "u64 \<Rightarrow> u64 \<Rightarrow> u64" where
  "remaining_ms now x = (if 0 < sint ((x - now) div 1000) then (x - now) div 1000 else - 1)"

lemma get_expiry_time_ok:
  assumes inv: "em_inv em" and e: "em_store em a = Some e"
  shows "get_expiry_time now a em = Inr (if e_heap_idx e = npos then - 1
    else remaining_ms now (hi_value (heap_items em ! unat (e_heap_idx e))))"
proof -
  have "bh_mutex (em_heap em) = Unlocked"
      "e_heap_idx e \<noteq> npos \<Longrightarrow> unat (e_heap_idx e) < length (heap_items em)"
    using inv e by (auto simp: em_inv_def em_linked_def heap_links_def)
  then show ?thesis
    using e by (cases "e_heap_idx e = npos")
      (simp_all add: get_expiry_time_def entry_at_def heap_size_def heap_index_def remaining_ms_def Let_def)
qed

section \<open>Properties\<close>

lemma sift_up_frame: "pos < i \<Longrightarrow> pos < length items \<Longrightarrow> fst (sift_up cmp pos items refs) ! i = items ! i"
proof (induction pos arbitrary: items refs rule: less_induct)
  case (less pos)
  show ?case
  proof (cases "pos > 0 \<and> cmp (hi_value (items ! pos)) (hi_value (items ! heap_parent pos))")
    case True
    then have p: "heap_parent pos < pos" by (simp add: heap_parent_less)
    have "fst (sift_up cmp (heap_parent pos) (exchange pos (heap_parent pos) items) r) ! i =
        exchange pos (heap_parent pos) items ! i" for r
      using less.IH [OF p] p less.prems by simp
    then show ?thesis
      using True p less.prems by (subst sift_up_rec) (simp_all add: nth_exchange)
  qed (use less.prems in \<open>subst sift_up_rec; auto\<close>)
qed

text \<open>An update at the last index of an ordered heap moves nothing.\<close>

lemma update_last:
  assumes "heap_ordered cmp items" and "Suc n = length items"
  shows "update_items cmp n items refs = (items, set_ref (hi_ref (items ! n)) n refs)"
proof -
  have "\<not> (0 < n \<and> cmp (hi_value (items ! n)) (hi_value (items ! heap_parent n)))"
    using assms by (auto simp: heap_ordered_def)
  moreover have "sift_min_pos cmp (items ! n) (length items) n items = n"
    using assms(2) child_gt [of n] by (simp add: sift_min_pos_def Let_def)
  ultimately show ?thesis
    using assms(2) unfolding update_items_def by (simp only: if_False) (subst sift_down_rec; simp)
qed

text \<open>
  C32: When an entry gets a time to live that ends before that of the heap item at the parent of
  the last place, the index the entry is left with is the last place, where the parent's item
  now is, so that its remaining time is computed from the other entry's expiry time.
\<close>

theorem add_to_heap_wrong_ttl:
  assumes inv: "em_inv em" and a: "em_store em a = Some e" "e_heap_idx e = npos"
    and n: "n = length (heap_items em)" "0 < n"
    and less: "x < hi_value (heap_items em ! heap_parent n)"
  shows "\<exists>em'. add_to_heap a x em = Inr (True, em') \<and>
    get_expiry_time now a em' = Inr (remaining_ms now (hi_value (heap_items em ! heap_parent n)))"
proof -
  let ?item = "\<lparr>hi_value = x, hi_ref = Some a\<rparr>" and ?p = "heap_parent n"
  have p: "?p < n" using n(2) by (rule heap_parent_less)
  obtain items' refs' where s: "sift_up (<) n (heap_items em @ [?item]) (idx_refs em) = (items', refs')"
    by fastforce
  let ?em1 = "em\<lparr>em_heap := (em_heap em)\<lparr>bh_items := items'\<rparr>, em_store := write_refs refs' (em_store em)\<rparr>"
  let ?em2 = "set_heap_idx a (of_nat n) ?em1"
  have em2: "em_inv ?em2" "mset items' = add_mset ?item (mset (heap_items em))"
    using pushed_inv [OF inv a s [unfolded n(1)]] n(1) by auto
  have len: "length items' = Suc n" using em2(2) n(1) by (metis size_add_mset size_mset)
  have n32: "n \<le> 32" using heap_small [OF em_inv_linked [OF inv]] n(1) by simp
  let ?l = "heap_items em @ [?item]"
  have "items' = fst (sift_up (<) ?p (exchange n ?p ?l) (set_ref (hi_ref (?l ! ?p)) n (idx_refs em)))"
    using s less p n by (simp add: sift_up_rec nth_append split: if_splits)
  then have last: "items' ! n = heap_items em ! ?p"
    using p n by (simp add: sift_up_frame nth_exchange nth_append)
  have u: "bh_mutex (em_heap em) = Unlocked" and live: "refs_live em" and na: "a \<notin> ref_set (heap_items em)"
    using inv a heap_links_live by (auto simp: em_inv_def em_linked_def heap_links_def)
  have live2: "refs_live ?em2"
    using em2(1) by (simp add: em_inv_def em_linked_def heap_links_live)
  have ord: "heap_ordered (<) items'" using em2(1) by (simp add: em_inv_def set_heap_idx_def)
  let ?em3 = "?em2\<lparr>em_heap := (em_heap em)\<lparr>bh_items := items'\<rparr>,
    em_store := write_refs (set_ref (hi_ref (items' ! n)) n (idx_refs ?em2)) (em_store ?em2)\<rparr>"
  have upd: "on_heap (heap_update (<) n) ?em2 = Inr ?em3"
    using live2 u update_last [OF ord, of n "idx_refs ?em2"] len
    by (simp add: on_heap_def heap_update_def set_heap_idx_def)
  have run: "add_to_heap a x em = Inr (True, ?em3)"
    using add_to_heap_run [OF inv a s [unfolded n(1)]] upd n(1) by simp
  have "hi_ref (items' ! n) \<noteq> Some a"
    using na last p n(1) nth_mem [of ?p "heap_items em"] by (auto simp: ref_set_def)
  then have e3: "em_store ?em3 a = Some (e\<lparr>e_heap_idx := of_nat n\<rparr>)"
    using a(1) by (simp add: write_refs_def set_heap_idx_def idx_refs_def set_ref_other)
  have inv3: "em_inv ?em3" using add_to_heap_ok [OF inv a, of x] run by auto
  show ?thesis
    using run get_expiry_time_ok [OF inv3 e3, of now] small_index [OF n32] last by auto
qed

text \<open>A manager with one entry that expires at 100000.\<close>

lemma timed_example:
  "\<exists>(em :: 't entry_manager) e. em_inv em \<and> em_store em 0 = Some e \<and> e_heap_idx e \<noteq> npos \<and>
    heap_items em = [\<lparr>hi_value = 100000, hi_ref = Some 0\<rparr>] \<and> entry_count em = 1 \<and> em_next em = 1 \<and>
    hi_value (heap_items em ! unat (e_heap_idx e)) = 100000"
proof -
  have c: "entry_count (em_new :: 't entry_manager) = 0" by (simp add: entry_count_def em_new_def hm.count_new)
  have new: "em_next (em_new :: 't entry_manager) = 0" "em_heap (em_new :: 't entry_manager) = bheap_new"
    by (simp_all add: em_new_def)
  let ?e = "\<lparr>e_heap_idx = npos, e_key = ''a'', e_value = StringEntry ''1''\<rparr>"
  have room: "entry_count (em_new :: 't entry_manager) < 32" by (simp add: c)
  obtain em1 :: "'t entry_manager" where em1: "em_inv em1" "em_heap em1 = bheap_new"
      "em_next em1 = Suc 0" "em_store em1 0 = Some ?e" "entry_count em1 = Suc 0"
    using create_entry_ok [OF em_inv_new room, of "''a''" "StringEntry ''1''"] new c by auto
  obtain em where em: "em_inv em" "same_data em1 em"
      "mset (heap_items em) = {#\<lparr>hi_value = 100000, hi_ref = Some 0\<rparr>#}"
    using add_to_heap_ok [OF em1(1,4), of 100000] em1(2) by (auto simp: bheap_new_def)
  then have items: "heap_items em = [\<lparr>hi_value = 100000, hi_ref = Some 0\<rparr>]"
    by (cases "heap_items em") auto
  obtain e where e: "em_store em 0 = Some e"
    using same_data_store(1) [OF em(2), of 0] em1(4) by auto
  have "e_heap_idx e \<noteq> npos \<and> unat (e_heap_idx e) < 1"
    using em(1) e items by (auto simp: em_inv_def em_linked_def heap_links_def ref_set_def split: if_splits)
  then show ?thesis
    using em e items em1(3,5) by (auto simp: same_data_def entry_count_def)
qed

theorem add_to_heap_wrong_ttl_witness:
  "\<exists>(em :: unit entry_manager) em'. em_inv em \<and> add_to_heap 1 50000 em = Inr (True, em') \<and>
    get_expiry_time 0 1 em' = Inr 100"
proof -
  obtain em0 :: "unit entry_manager" where em0: "em_inv em0" "entry_count em0 = 1" "em_next em0 = 1"
      "heap_items em0 = [\<lparr>hi_value = 100000, hi_ref = Some 0\<rparr>]"
    using timed_example by metis
  have room: "entry_count em0 < 32" by (simp add: em0(2))
  let ?e = "\<lparr>e_heap_idx = npos, e_key = ''b'', e_value = StringEntry ''2''\<rparr>"
  obtain em where em: "em_inv em" "em_heap em = em_heap em0"
      "em_store em = (em_store em0)(em_next em0 \<mapsto> ?e)"
    using create_entry_ok [OF em0(1) room, of "''b''" "StringEntry ''2''"]
    by blast
  have e: "em_store em 1 = Some ?e" using em(3) em0(3) by simp
  have n: "1 = length (heap_items em)" "50000 < hi_value (heap_items em ! heap_parent 1)"
      "hi_value (heap_items em ! heap_parent 1) = 100000"
    using em(2) em0(4) by (simp_all add: heap_parent_def)
  have "remaining_ms 0 100000 = 100" by (simp add: remaining_ms_def)
  then have "\<exists>em'. add_to_heap 1 50000 em = Inr (True, em') \<and> get_expiry_time 0 1 em' = Inr 100"
    using add_to_heap_wrong_ttl [OF em(1) e _ n(1) _ n(2), of 0] n(3) by simp
  then show ?thesis using em(1) by blast
qed

text \<open>
  An entry whose expiry time has passed is reported with a remaining time of more than nine
  quadrillion milliseconds: the difference is taken on unsigned 64-bit numbers.
\<close>

theorem expired_ttl_wraps:
  assumes "em_inv em" and "em_store em a = Some e" and "e_heap_idx e \<noteq> npos"
    and "x = hi_value (heap_items em ! unat (e_heap_idx e))"
    and "x < now" and "unat now - unat x \<le> 2 ^ 63"
  shows "\<exists>r. get_expiry_time now a em = Inr r \<and> 9000000000000000 < sint r"
proof -
  let ?d = "(x - now) div 1000"
  have lt: "unat x < unat now" using assms(5) by (simp add: word_less_nat_alt)
  have "unat (x - now) = 2 ^ 64 + unat x - unat now"
    using lt by (simp add: unat_sub_if')
  then have big: "2 ^ 63 \<le> unat (x - now)" using assms(6) lt by simp
  have d: "unat ?d = unat (x - now) div 1000" by (simp add: unat_div)
  have "unat (x - now) < 2 ^ LENGTH(64)" by (rule unsigned_less)
  then have "unat ?d < 2 ^ 63" using d by simp
  then have s: "sint ?d = int (unat ?d)" by (intro sint_small) simp
  have "9000000000000000 < unat ?d" using big d by simp
  then have "9000000000000000 < sint ?d" unfolding s by (metis of_nat_less_iff of_nat_numeral)
  then show ?thesis
    using get_expiry_time_ok [OF assms(1,2), of now] assms(3,4) by (simp add: remaining_ms_def)
qed

theorem expired_ttl_wraps_witness:
  "\<exists>(em :: unit entry_manager) r. em_inv em \<and> get_expiry_time 500000 0 em = Inr r \<and> 9000000000000000 < sint r"
proof -
  obtain em :: "unit entry_manager" and e where em: "em_inv em" "em_store em 0 = Some e" "e_heap_idx e \<noteq> npos"
      "hi_value (heap_items em ! unat (e_heap_idx e)) = 100000"
    using timed_example by metis
  have "unat (500000 :: u64) - unat (100000 :: u64) \<le> 2 ^ 63" "(100000 :: u64) < 500000" by simp_all
  then show ?thesis using expired_ttl_wraps [OF em(1-3) em(4) [symmetric], of 500000] em(1) by auto
qed

end
