(* ===== verification/Wire_Format.thy ===== *)
theory Wire_Format
  imports VDB_Prelude
begin

text \<open>
  The two wire formats: the requests that \<^verbatim>\<open>RequestParser\<close> of \<^verbatim>\<open>src/request_parser.hpp\<close> reads
  and the responses that \<^verbatim>\<open>ResponseSerializer\<close> of \<^verbatim>\<open>src/response_serializer.hpp\<close> writes, on
  a little-endian machine.  A double is its 64-bit representation.
\<close>

section \<open>Error codes and strings\<close>

datatype errc =
    message_size | bad_message | connection_reset | io_error | bad_file_descriptor
  | invalid_argument | address_in_use | connection_refused | errno_code int

text \<open>\<^verbatim>\<open>std::expected<T, std::error_code>\<close>.\<close>

type_synonym 'a expected = "errc + 'a"

text \<open>The \<^verbatim>\<open>char\<close>s of a string as bytes, and a string made of a range of bytes.\<close>

definition to_bytes :: "string \<Rightarrow> u8 list" where
  "to_bytes s = map of_char s"

definition of_bytes :: "u8 list \<Rightarrow> string" where
  "of_bytes bs = map (\<lambda>b. char_of (unat b)) bs"

lemma char_of_byte: "char_of (unat (of_char c :: u8)) = c"
proof -
  have "of_char c mod 256 = (of_char c :: nat)" by simp
  then have "(of_char c :: nat) < 256" by (metis mod_less_divisor zero_less_numeral)
  then have "unat (of_char c :: u8) = of_char c"
    using unat_of_nat_small [where 'a = 8, of "of_char c"] by (simp add: of_nat_of_char)
  then show ?thesis by simp
qed

lemma byte_of_char: "(of_char (char_of (unat b)) :: u8) = b"
proof -
  have "unat b < 2 ^ LENGTH(8)" by (rule unsigned_less)
  then have small: "unat b mod 256 = unat b" by simp
  have "(of_char (char_of (unat b)) :: u8) = of_nat (of_char (char_of (unat b)))"
    by (simp only: of_nat_of_char)
  also have "\<dots> = of_nat (unat b mod 256)" by (simp only: of_char_of)
  also have "\<dots> = b" by (simp add: small)
  finally show ?thesis .
qed

lemma of_bytes_to_bytes [simp]: "of_bytes (to_bytes s) = s"
  by (simp add: of_bytes_def to_bytes_def comp_def char_of_byte)

lemma to_bytes_of_bytes [simp]: "to_bytes (of_bytes bs) = bs"
  by (simp add: of_bytes_def to_bytes_def comp_def byte_of_char)

lemma length_to_bytes [simp]: "length (to_bytes s) = length s" "length (of_bytes bs) = length bs"
  by (simp_all add: to_bytes_def of_bytes_def)

section \<open>Machine words in memory\<close>

text \<open>The bytes that \<^verbatim>\<open>append_data\<close> copies out of a 32-bit and a 64-bit object.\<close>

definition bytes32 :: "u32 \<Rightarrow> u8 list" where
  "bytes32 w = map (\<lambda>i. ucast (drop_bit (8 * i) w)) [0..<4]"

definition bytes64 :: "u64 \<Rightarrow> u8 list" where
  "bytes64 w = map (\<lambda>i. ucast (drop_bit (8 * i) w)) [0..<8]"

text \<open>\<^verbatim>\<open>memcpy(&w, data + off, sizeof(w))\<close>, defined inside the buffer only.\<close>

fun load_le :: "u8 list \<Rightarrow> 'a::len word" where
  "load_le [] = 0"
| "load_le (b # bs) = ucast b OR push_bit 8 (load_le bs)"

definition memcpy32 :: "u8 list \<Rightarrow> nat \<Rightarrow> u32 result" where
  "memcpy32 bs off =
     (if off + 4 \<le> length bs then Inr (load_le (take 4 (drop off bs))) else Inl OutOfBounds)"

definition memcpy64 :: "u8 list \<Rightarrow> nat \<Rightarrow> u64 result" where
  "memcpy64 bs off =
     (if off + 8 \<le> length bs then Inr (load_le (take 8 (drop off bs))) else Inl OutOfBounds)"

text \<open>\<^verbatim>\<open>__builtin_bswap32\<close>.\<close>

definition bswap32 :: "u32 \<Rightarrow> u32" where
  "bswap32 w = push_bit 24 (w AND 0xFF) OR push_bit 8 (w AND 0xFF00) OR
     drop_bit 8 (w AND 0xFF0000) OR drop_bit 24 w"

section \<open>The request parser\<close>

text \<open>The loop over the strings of a message; the list is the bytes from \<open>pos\<close> to \<open>end\<close>.\<close>

function parse_loop :: "u8 list \<Rightarrow> string list \<Rightarrow> string list expected" where
  "parse_loop bs cmd =
     (if bs = [] then Inr cmd
      else if length bs < 4 then Inl bad_message
      else let str_len = bswap32 (load_le (take 4 bs)); bs = drop 4 bs
           in if unat str_len > length bs then Inl bad_message
              else parse_loop (drop (unat str_len) bs)
                     (cmd @ [of_bytes (take (unat str_len) bs)]))"
  by pat_completeness auto
termination
  by (relation "measure (\<lambda>(bs, cmd). length bs)") auto

declare parse_loop.simps [simp del]

definition parse :: "u8 list \<Rightarrow> string list expected" where
  "parse data =
     (if length data < 4 then Inl message_size
      else let len = bswap32 (load_le (take 4 data))
           in if 4 + unat len > length data then Inl message_size
              else parse_loop (take (unat len) (drop 4 data)) [])"

section \<open>The response serializer\<close>

datatype SerializationType = Nil_type | Error_type | String_type | Integer_type | Double_type

fun type_code :: "SerializationType \<Rightarrow> u8" where
  "type_code Nil_type = 0"
| "type_code Error_type = 1"
| "type_code String_type = 2"
| "type_code Integer_type = 3"
| "type_code Double_type = 4"

definition serialize_nil :: "u8 list \<Rightarrow> u8 list" where
  "serialize_nil buffer = buffer @ [type_code Nil_type]"

definition serialize_error :: "u8 list \<Rightarrow> u32 \<Rightarrow> string \<Rightarrow> u8 list" where
  "serialize_error buffer code msg =
     buffer @ [type_code Error_type] @ bytes32 code @ bytes32 (of_nat (length msg)) @ to_bytes msg"

definition serialize_string :: "u8 list \<Rightarrow> string \<Rightarrow> u8 list" where
  "serialize_string buffer str =
     buffer @ [type_code String_type] @ bytes32 (of_nat (length str)) @ to_bytes str"

text \<open>\<^verbatim>\<open>std::to_string\<close> of a 64-bit signed integer.\<close>

fun show_nat :: "nat \<Rightarrow> string" where
  "show_nat n = (if n < 10 then [char_of (48 + n)] else show_nat (n div 10) @ [char_of (48 + n mod 10)])"

declare show_nat.simps [simp del]

definition to_string :: "u64 \<Rightarrow> string" where
  "to_string value =
     (if sint value < 0 then CHR ''-'' # show_nat (nat (- sint value)) else show_nat (nat (sint value)))"

definition serialize_integer :: "u8 list \<Rightarrow> u64 \<Rightarrow> u8 list" where
  "serialize_integer buffer value =
     buffer @ [type_code Integer_type] @ to_bytes (to_string value @ [CHR 0x0D, CHR 0x0A])"

definition serialize_double :: "u8 list \<Rightarrow> u64 \<Rightarrow> u8 list" where
  "serialize_double buffer value = buffer @ [type_code Double_type] @ bytes64 value"

text \<open>A range \<^verbatim>\<open>std::string(begin + from, begin + from + size)\<close> of the buffer.\<close>

definition byte_range :: "u8 list \<Rightarrow> nat \<Rightarrow> nat \<Rightarrow> string result" where
  "byte_range buffer from sz =
     (if from + sz \<le> length buffer then Inr (of_bytes (take sz (drop from buffer)))
      else Inl OutOfBounds)"

definition deserialize_string :: "u8 list \<Rightarrow> string result" where
  "deserialize_string buffer =
     (if buffer = [] \<or> buffer ! 0 \<noteq> type_code String_type then Inr []
      else bindR (memcpy32 buffer 1) (\<lambda>sz. byte_range buffer 5 (unat sz)))"

definition deserialize_nil :: "u8 list \<Rightarrow> bool" where
  "deserialize_nil buffer \<longleftrightarrow> buffer \<noteq> [] \<and> buffer ! 0 = type_code Nil_type"

definition deserialize_integer :: "u8 list \<Rightarrow> u64 result" where
  "deserialize_integer buffer =
     (if buffer = [] \<or> buffer ! 0 \<noteq> type_code Integer_type then Inr (- 1)
      else memcpy64 buffer 1)"

definition deserialize_error :: "u8 list \<Rightarrow> string result" where
  "deserialize_error buffer =
     (if buffer = [] \<or> buffer ! 0 \<noteq> type_code Error_type then Inr ''No error''
      else bindR (memcpy32 buffer 5) (\<lambda>sz. byte_range buffer 9 (unat sz)))"

section \<open>Round trips of machine words\<close>

lemma load_le_bytes:
  "load_le (map (\<lambda>i. ucast (drop_bit (8 * i) w) :: u8) [0..<n]) = take_bit (8 * n) (w :: 'a::len word)"
proof (induction n arbitrary: w)
  case (Suc n)
  have "map (\<lambda>i. ucast (drop_bit (8 * i) w) :: u8) [0..<Suc n] =
      ucast w # map (\<lambda>i. ucast (drop_bit (8 * i) (drop_bit 8 w))) [0..<n]"
    by (simp add: map_upt_Suc add.commute del: upt_Suc)
  then have "load_le (map (\<lambda>i. ucast (drop_bit (8 * i) w) :: u8) [0..<Suc n]) =
      ucast (ucast w :: u8) OR push_bit 8 (take_bit (8 * n) (drop_bit 8 w))"
    by (simp only: load_le.simps Suc.IH)
  also have "\<dots> = take_bit (8 * Suc n) w"
    by (rule bit_word_eqI) (auto simp: bit_simps)
  finally show ?case .
qed simp

lemma load_bytes32 [simp]: "load_le (bytes32 w) = w"
  using load_le_bytes [of w 4] by (simp add: bytes32_def take_bit_word_eq_self)

lemma load_bytes64 [simp]: "load_le (bytes64 w) = w"
  using load_le_bytes [of w 8] by (simp add: bytes64_def take_bit_word_eq_self)

lemma length_bytes [simp]: "length (bytes32 w) = 4" "length (bytes64 v) = 8"
  by (simp_all add: bytes32_def bytes64_def)

lemma bit_bswap32:
  "bit (bswap32 w) n \<longleftrightarrow> (if n < 8 then bit w (n + 24) else if n < 16 then bit w (n + 8)
     else if n < 24 then bit w (n - 8) else n < 32 \<and> bit w (n - 24))"
proof -
  have masks: "(0xFF :: u32) = mask 8" "(0xFF00 :: u32) = push_bit 8 (mask 8)"
      "(0xFF0000 :: u32) = push_bit 16 (mask 8)"
    by (simp_all add: mask_eq_exp_minus_1 push_bit_eq_mult)
  have high: "\<not> bit w (n + 24)" if "8 \<le> n"
    using that bit_imp_le_length [of w "n + 24"] by auto
  show ?thesis
    unfolding bswap32_def masks using high
    by (cases "8 \<le> n") (auto simp: bit_simps add.commute)
qed

lemma bytes32_bswap32: "bytes32 (bswap32 w) = rev (bytes32 w)"
proof -
  have "(ucast (drop_bit (8 * i) (bswap32 w)) :: u8) = ucast (drop_bit (8 * (3 - i)) w)"
    if "i \<in> {0, 1, 2, 3}" for i
    using that by (intro bit_word_eqI) (auto simp: bit_simps bit_bswap32 add.commute)
  from this [of 0] this [of 1] this [of 2] this [of 3] show ?thesis
    by (simp add: bytes32_def upt_conv_Cons)
qed

lemma load_le_rev_bytes32: "load_le (rev (bytes32 w)) = bswap32 w"
  using load_bytes32 [of "bswap32 w"] by (simp only: bytes32_bswap32)

lemma byte_of_load_le:
  "i < length bs \<Longrightarrow> 8 * length bs \<le> LENGTH('a) \<Longrightarrow>
   ucast (drop_bit (8 * i) (load_le bs :: 'a::len word)) = (bs ! i :: u8)"
proof (induction bs arbitrary: i)
  case (Cons b bs)
  show ?case
  proof (cases i)
    case 0
    then show ?thesis using Cons.prems by (intro bit_word_eqI) (auto simp: bit_simps)
  next
    case (Suc j)
    have "ucast (drop_bit (8 * i) (load_le (b # bs) :: 'a word)) =
        (ucast (drop_bit (8 * j) (load_le bs :: 'a word)) :: u8)"
      using Cons.prems Suc by (intro bit_word_eqI) (auto simp: bit_simps add.commute dest: bit_imp_le_length)
    then show ?thesis using Cons Suc by simp
  qed
qed simp

lemma bytes32_load_le: "length bs = 4 \<Longrightarrow> bytes32 (load_le bs) = bs"
  by (rule nth_equalityI) (auto simp: bytes32_def byte_of_load_le)

lemma bytes64_load_le: "length bs = 8 \<Longrightarrow> bytes64 (load_le bs) = bs"
  by (rule nth_equalityI) (auto simp: bytes64_def byte_of_load_le)

lemma bswap32_bswap32 [simp]: "bswap32 (bswap32 w) = w"
  by (metis bytes32_bswap32 load_bytes32 rev_rev_ident)

section \<open>The request format\<close>

text \<open>
  What a client sends: the length of the payload and then each string with its length, every
  length as four bytes, most significant first.
\<close>

definition be32 :: "nat \<Rightarrow> u8 list" where
  "be32 n = rev (bytes32 (of_nat n))"

definition encode_strings :: "string list \<Rightarrow> u8 list" where
  "encode_strings cmd = concat (map (\<lambda>s. be32 (length s) @ to_bytes s) cmd)"

definition encode_request :: "string list \<Rightarrow> u8 list" where
  "encode_request cmd = be32 (length (encode_strings cmd)) @ encode_strings cmd"

definition fits32 :: "string list \<Rightarrow> bool" where
  "fits32 cmd \<longleftrightarrow> (\<forall>s \<in> set cmd. length s < 2 ^ 32)"

lemma length_be32 [simp]: "length (be32 n) = 4"
  by (simp add: be32_def)

lemma be32_value: "n < 2 ^ 32 \<Longrightarrow> unat (bswap32 (load_le (be32 n))) = n"
  using unat_of_nat_small [where 'a = 32, of n] by (simp add: be32_def load_le_rev_bytes32)

lemma be32_of_value: "length bs = 4 \<Longrightarrow> be32 (unat (bswap32 (load_le bs))) = bs"
  by (simp add: be32_def bytes32_bswap32 bytes32_load_le)

lemma encode_strings_simps [simp]:
  "encode_strings [] = []"
  "encode_strings (s # cmd) = be32 (length s) @ to_bytes s @ encode_strings cmd"
  by (simp_all add: encode_strings_def)

lemma parse_loop_encode:
  "fits32 xs \<Longrightarrow> parse_loop (encode_strings xs) cmd = Inr (cmd @ xs)"
proof (induction xs arbitrary: cmd)
  case Nil
  then show ?case by (simp add: parse_loop.simps)
next
  case (Cons s xs)
  have ne: "be32 (length s) @ bs \<noteq> []" for bs
    using length_be32 [of "length s"] by (metis append_is_Nil_conv length_0_conv zero_neq_numeral)
  have "length s < 2 ^ 32" and "fits32 xs" using Cons.prems by (auto simp: fits32_def)
  then show ?case
    using ne Cons.IH [of "cmd @ [s]"]
    by (subst parse_loop.simps) (simp add: be32_value Let_def)
qed

lemma parse_loop_InrD:
  "parse_loop bs cmd = Inr cmd' \<Longrightarrow> \<exists>xs. cmd' = cmd @ xs \<and> bs = encode_strings xs \<and> fits32 xs"
proof (induction bs cmd rule: parse_loop.induct)
  case (1 bs cmd)
  show ?case
  proof (cases "bs = []")
    case True
    then have "cmd' = cmd" using "1.prems" by (simp add: parse_loop.simps)
    then show ?thesis using True by (intro exI [of _ "[]"]) (simp add: fits32_def)
  next
    case False
    let ?w = "bswap32 (load_le (take 4 bs))" and ?r = "drop 4 bs"
    have len: "4 \<le> length bs" "unat ?w \<le> length ?r"
      and rec: "parse_loop (drop (unat ?w) ?r) (cmd @ [of_bytes (take (unat ?w) ?r)]) = Inr cmd'"
      using "1.prems" False by (subst (asm) parse_loop.simps; force simp: Let_def split: if_splits)+
    obtain xs where xs: "cmd' = (cmd @ [of_bytes (take (unat ?w) ?r)]) @ xs"
        "drop (unat ?w) ?r = encode_strings xs" "fits32 xs"
      using "1.IH" [OF False _ refl refl _ rec] len by force
    let ?s = "of_bytes (take (unat ?w) ?r)"
    have s: "length ?s = unat ?w" using len by simp
    have "unat ?w < 2 ^ LENGTH(32)" by (rule unsigned_less)
    then have "fits32 (?s # xs)" using xs(3) s by (simp add: fits32_def)
    moreover have "bs = encode_strings (?s # xs)"
    proof -
      have "bs = take 4 bs @ take (unat ?w) ?r @ drop (unat ?w) ?r"
        by (simp only: append_take_drop_id)
      then show ?thesis using be32_of_value [of "take 4 bs"] len s xs(2) by simp
    qed
    ultimately show ?thesis using xs(1) by (intro exI [of _ "?s # xs"]) simp
  qed
qed

lemma encode_strings_fits: "length (encode_strings cmd) < 2 ^ 32 \<Longrightarrow> fits32 cmd"
  by (induction cmd) (auto simp: fits32_def)

section \<open>Properties\<close>

text \<open>
  C15: The parser accepts exactly the byte sequences that begin with the encoding of a command,
  and returns that command; bytes after the encoded message do not matter.
\<close>

theorem parse_iff_encoding:
  "parse data = Inr cmd \<longleftrightarrow>
   length (encode_strings cmd) < 2 ^ 32 \<and> (\<exists>rest. data = encode_request cmd @ rest)"
proof
  assume p: "parse data = Inr cmd"
  let ?w = "bswap32 (load_le (take 4 data))"
  have len: "4 \<le> length data" "unat ?w \<le> length data - 4"
    and loop: "parse_loop (take (unat ?w) (drop 4 data)) [] = Inr cmd"
    using p by (auto simp: parse_def Let_def split: if_splits)
  have enc: "take (unat ?w) (drop 4 data) = encode_strings cmd"
    using parse_loop_InrD [OF loop] by auto
  have n: "length (encode_strings cmd) = unat ?w" using len by (simp flip: enc)
  have "unat ?w < 2 ^ LENGTH(32)" by (rule unsigned_less)
  moreover have "data = encode_request cmd @ drop (unat ?w) (drop 4 data)"
  proof -
    have "data = take 4 data @ take (unat ?w) (drop 4 data) @ drop (unat ?w) (drop 4 data)"
      by (simp only: append_take_drop_id)
    then show ?thesis
      using be32_of_value [of "take 4 data"] len n enc by (simp add: encode_request_def)
  qed
  ultimately show "length (encode_strings cmd) < 2 ^ 32 \<and> (\<exists>rest. data = encode_request cmd @ rest)"
    using n by auto
next
  assume "length (encode_strings cmd) < 2 ^ 32 \<and> (\<exists>rest. data = encode_request cmd @ rest)"
  then obtain rest where n: "length (encode_strings cmd) < 2 ^ 32"
    and data: "data = be32 (length (encode_strings cmd)) @ encode_strings cmd @ rest"
    by (auto simp: encode_request_def)
  then show "parse data = Inr cmd"
    using be32_value [OF n] parse_loop_encode [OF encode_strings_fits [OF n], of "[]"]
    by (simp add: parse_def Let_def)
qed

text \<open>
  C25: A string response and an error response read back give the text that was written,
  whatever follows them in the buffer, for texts shorter than $2^{32}$ bytes.
\<close>

theorem response_round_trip:
  assumes "length s < 2 ^ 32"
  shows "deserialize_string (serialize_string [] s @ rest) = Inr s \<and>
    deserialize_error (serialize_error [] code s @ rest) = Inr s"
proof -
  have n: "unat (of_nat (length s) :: u32) = length s"
    using assms by (simp add: unat_of_nat_small)
  show ?thesis
    using n by (simp add: deserialize_string_def serialize_string_def deserialize_error_def
        serialize_error_def memcpy32_def byte_range_def)
qed

theorem response_round_trip_witness:
  "deserialize_string (serialize_string [] ''hello'' @ [7]) = Inr ''hello''"
  using response_round_trip [of "''hello''" "[7]"] by simp

text \<open>
  An integer response of fewer than six characters cannot be read back: the writer stores
  decimal text and a line end, the reader takes eight raw bytes and so reads past the buffer.
\<close>

theorem integer_not_readable:
  assumes "length (to_string v) < 6"
  shows "deserialize_integer (serialize_integer [] v) = Inl OutOfBounds"
  using assms
  by (simp add: deserialize_integer_def serialize_integer_def memcpy64_def)

theorem integer_not_readable_witness:
  "deserialize_integer (serialize_integer [] 42) = Inl OutOfBounds"
proof -
  have "to_string 42 = ''42''" by (simp add: to_string_def show_nat.simps) code_simp
  then show ?thesis using integer_not_readable [of 42] by simp
qed

end
