(* ===== verification/Command_Processor.thy ===== *)
theory Command_Processor
  imports Entry_Manager Wire_Format
begin

text \<open>
  The command processor of \<^verbatim>\<open>src/command_processor.hpp\<close>: the handlers, the parsing of their
  arguments and the dispatch on the first word.

  A command runs in an environment: the clock, the conversion \<^verbatim>\<open>std::stod\<close> of text to a double
  (its representation and the number of characters read, or nothing when it throws), and the
  tree of the sorted sets.
\<close>

section \<open>Environment and argument parsing\<close>

record 't env =
  env_now :: u64
  env_stod :: "string \<Rightarrow> (u64 \<times> nat) option"
  env_tree :: "'t tree_ops"
  env_tree_new :: 't

definition ERR_ARG :: u32 where
  "ERR_ARG = - 1"

definition ERR_UNKNOWN :: u32 where
  "ERR_UNKNOWN = - 2"

definition ERR_TYPE :: u32 where
  "ERR_TYPE = - 3"

text \<open>\<^verbatim>\<open>tolower\<close> in the C locale.\<close>

definition tolower :: "char \<Rightarrow> char" where
  "tolower c = (let n = of_char c :: nat in if 65 \<le> n \<and> n \<le> 90 then char_of (n + 32) else c)"

definition is_space :: "char \<Rightarrow> bool" where
  "is_space c = (let n = of_char c :: nat in n = 32 \<or> (9 \<le> n \<and> n \<le> 13))"

definition is_digit :: "char \<Rightarrow> bool" where
  "is_digit c = (let n = of_char c :: nat in 48 \<le> n \<and> n \<le> 57)"

definition digits_value :: "string \<Rightarrow> nat" where
  "digits_value ds = foldl (\<lambda>v c. 10 * v + (of_char c - 48)) 0 ds"

text \<open>The sign that \<^verbatim>\<open>strtoll\<close> accepts after the white space.\<close>

definition split_sign :: "string \<Rightarrow> bool \<times> string" where
  "split_sign s =
     (case s of c # r \<Rightarrow> if c = CHR ''-'' then (True, r) else if c = CHR ''+'' then (False, r) else (False, s)
      | [] \<Rightarrow> (False, s))"

text \<open>
  \<^verbatim>\<open>std::stoll\<close> in base ten: the value and the number of characters read, or nothing where it
  throws \<^verbatim>\<open>invalid_argument\<close> (no digits) or \<^verbatim>\<open>out_of_range\<close>.
\<close>

definition stoll :: "string \<Rightarrow> (int \<times> nat) option" where
  "stoll s =
     (case split_sign (dropWhile is_space s) of (neg, r) \<Rightarrow>
        let ds = takeWhile is_digit r;
            v = (if neg then - int (digits_value ds) else int (digits_value ds))
        in if ds = [] then None
           else if v < - (2 ^ 63) \<or> 2 ^ 63 \<le> v then None
           else Some (v, length s - length r + length ds))"

definition parse_int :: "string \<Rightarrow> u64 option" where
  "parse_int str =
     (case stoll str of
        None \<Rightarrow> None
      | Some (v, pos) \<Rightarrow> if pos = length str then Some (word_of_int v) else None)"

definition isnan :: "u64 \<Rightarrow> bool" where
  "isnan d \<longleftrightarrow> drop_bit 52 d AND 0x7FF = 0x7FF \<and> d AND 0xFFFFFFFFFFFFF \<noteq> 0"

definition parse_double :: "(string \<Rightarrow> (u64 \<times> nat) option) \<Rightarrow> string \<Rightarrow> u64 option" where
  "parse_double stod str =
     (case stod str of
        None \<Rightarrow> None
      | Some (out, pos) \<Rightarrow> if pos = length str \<and> \<not> isnan out then Some out else None)"

section \<open>Handlers\<close>

type_synonym 't handler_result = "(u8 list \<times> 't entry_manager) result"

definition reply_error :: "u8 list \<Rightarrow> u32 \<Rightarrow> string \<Rightarrow> 't entry_manager \<Rightarrow> 't handler_result" where
  "reply_error response code msg em = Inr (serialize_error response code (msg @ [CHR 0x0A]), em)"

definition reply_bool :: "u8 list \<Rightarrow> bool \<Rightarrow> 't entry_manager \<Rightarrow> 't handler_result" where
  "reply_bool response b em = Inr (serialize_integer response (if b then 1 else 0), em)"

definition handle_get :: "string list \<Rightarrow> u8 list \<Rightarrow> 't entry_manager \<Rightarrow> 't handler_result" where
  "handle_get args response em =
     (if length args \<noteq> 2 then reply_error response ERR_ARG ''GET requires one key'' em
      else bindR (find_entry (args ! 1) em) (\<lambda>(entry, em).
        case entry of
          None \<Rightarrow> Inr (serialize_nil response, em)
        | Some a \<Rightarrow> bindR (entry_at a em) (\<lambda>e.
            case e_value e of
              StringEntry s \<Rightarrow> Inr (serialize_string response s, em)
            | _ \<Rightarrow> reply_error response ERR_TYPE ''Key holds wrong type'' em)))"

definition handle_set :: "string list \<Rightarrow> u8 list \<Rightarrow> 't entry_manager \<Rightarrow> 't handler_result" where
  "handle_set args response em =
     (if length args \<noteq> 3 then reply_error response ERR_ARG ''SET requires key and value'' em
      else bindR (create_entry (args ! 1) (StringEntry (args ! 2)) em) (\<lambda>(_, em).
        Inr (serialize_string response ''OK'', em)))"

definition handle_del :: "string list \<Rightarrow> u8 list \<Rightarrow> 't entry_manager \<Rightarrow> 't handler_result" where
  "handle_del args response em =
     (if length args \<noteq> 2 then reply_error response ERR_ARG ''DEL requires key'' em
      else bindR (delete_entry (args ! 1) em) (\<lambda>(deleted, em). reply_bool response deleted em))"

definition handle_exists :: "string list \<Rightarrow> u8 list \<Rightarrow> 't entry_manager \<Rightarrow> 't handler_result" where
  "handle_exists args response em =
     (if length args \<noteq> 2 then reply_error response ERR_ARG ''EXISTS requires key'' em
      else bindR (find_entry (args ! 1) em) (\<lambda>(entry, em). reply_bool response (entry \<noteq> None) em))"

definition handle_flushall :: "string list \<Rightarrow> u8 list \<Rightarrow> 't entry_manager \<Rightarrow> 't handler_result" where
  "handle_flushall args response em =
     bindR (clear_all em) (\<lambda>(cleared, em). reply_bool response cleared em)"

text \<open>The assignment of a changed sorted set to the entry that owns it.\<close>

definition put_zset :: "nat \<Rightarrow> 't zset \<Rightarrow> 't entry_manager \<Rightarrow> 't entry_manager" where
  "put_zset a z em =
     em\<lparr>em_store := (em_store em)(a := map_option (\<lambda>e. e\<lparr>e_value := ZSetEntry z\<rparr>) (em_store em a))\<rparr>"

definition handle_zadd :: "'t env \<Rightarrow> string list \<Rightarrow> u8 list \<Rightarrow> 't entry_manager \<Rightarrow> 't handler_result" where
  "handle_zadd env args response em =
     (if length args \<noteq> 4 then reply_error response ERR_ARG ''ZADD requires key, score, and member'' em
      else case parse_double (env_stod env) (args ! 2) of
        None \<Rightarrow> reply_error response ERR_ARG ''Invalid score value'' em
      | Some score \<Rightarrow>
          bindR (find_entry (args ! 1) em) (\<lambda>(entry, em).
            bindR (case entry of
                     Some a \<Rightarrow> Inr (a, em)
                   | None \<Rightarrow> create_entry (args ! 1) (ZSetEntry (zset_new (env_tree_new env))) em) (\<lambda>(a, em).
              bindR (entry_at a em) (\<lambda>e.
                case e_value e of
                  ZSetEntry z \<Rightarrow>
                    bindR (add_internal (env_tree env) (args ! 3) score z) (\<lambda>(added, z).
                      reply_bool response added (put_zset a z em))
                | _ \<Rightarrow> reply_error response ERR_TYPE ''Key holds wrong type'' em))))"

definition handle_zrem :: "'t env \<Rightarrow> string list \<Rightarrow> u8 list \<Rightarrow> 't entry_manager \<Rightarrow> 't handler_result" where
  "handle_zrem env args response em =
     (if length args \<noteq> 3 then reply_error response ERR_ARG ''ZREM requires key and member'' em
      else bindR (find_entry (args ! 1) em) (\<lambda>(entry, em).
        case entry of
          None \<Rightarrow> Inr (serialize_integer response 0, em)
        | Some a \<Rightarrow>
            bindR (entry_at a em) (\<lambda>e.
              case e_value e of
                ZSetEntry z \<Rightarrow>
                  bindR (remove_internal (env_tree env) (args ! 2) z) (\<lambda>(removed, z).
                    reply_bool response removed (put_zset a z em))
              | _ \<Rightarrow> reply_error response ERR_TYPE ''Key holds wrong type'' em)))"

definition handle_pexpire :: "'t env \<Rightarrow> string list \<Rightarrow> u8 list \<Rightarrow> 't entry_manager \<Rightarrow> 't handler_result" where
  "handle_pexpire env args response em =
     (if length args \<noteq> 3 then reply_error response ERR_ARG ''PEXPIRE requires key and TTL'' em
      else case parse_int (args ! 2) of
        None \<Rightarrow> reply_error response ERR_ARG ''Invalid TTL value'' em
      | Some ttl_ms \<Rightarrow>
          if sint ttl_ms < 0 then reply_error response ERR_ARG ''Invalid TTL value'' em
          else bindR (find_entry (args ! 1) em) (\<lambda>(entry, em).
            case entry of
              None \<Rightarrow> Inr (serialize_integer response 0, em)
            | Some a \<Rightarrow> bindR (set_entry_ttl (env_now env) a ttl_ms em) (\<lambda>(success, em).
                reply_bool response success em)))"

definition handle_pttl :: "'t env \<Rightarrow> string list \<Rightarrow> u8 list \<Rightarrow> 't entry_manager \<Rightarrow> 't handler_result" where
  "handle_pttl env args response em =
     (if length args \<noteq> 2 then reply_error response ERR_ARG ''PTTL requires key'' em
      else bindR (find_entry (args ! 1) em) (\<lambda>(entry, em).
        case entry of
          None \<Rightarrow> Inr (serialize_integer response (- 2), em)
        | Some a \<Rightarrow> bindR (get_expiry_time (env_now env) a em) (\<lambda>ttl.
            Inr (serialize_integer response ttl, em))))"

section \<open>Dispatch\<close>

definition command_handlers :: "'t env \<Rightarrow> string \<Rightarrow>
    (string list \<Rightarrow> u8 list \<Rightarrow> 't entry_manager \<Rightarrow> 't handler_result) option" where
  "command_handlers env = map_of
     [(''get'', handle_get), (''set'', handle_set), (''del'', handle_del), (''exists'', handle_exists),
      (''zadd'', handle_zadd env), (''zrem'', handle_zrem env), (''flushall'', handle_flushall),
      (''pexpire'', handle_pexpire env), (''pttl'', handle_pttl env)]"

definition process_command :: "'t env \<Rightarrow> string list \<Rightarrow> u8 list \<Rightarrow> 't entry_manager \<Rightarrow>
    't handler_result" where
  "process_command env args response em =
     (if args = [] then reply_error response ERR_ARG ''empty command'' em
      else let command_key = map tolower (args ! 0)
           in case command_handlers env command_key of
                None \<Rightarrow> reply_error response ERR_UNKNOWN ''unknown command'' em
              | Some handler \<Rightarrow> handler args response em)"

section \<open>The commands as operations on stacks of values\<close>

text \<open>
  The abstract state: for every key the stack of its values, newest first, each with a flag
  that says whether a time to live was set, and the number of values in all.  A command answers
  with given bytes, or with an integer that the abstract state does not determine; \<open>None\<close> is a
  command that does not return.
\<close>

type_synonym spec_state = "(string \<Rightarrow> (string \<times> bool) list) \<times> nat"

datatype reply = Exactly "u8 list" | AnyInteger

type_synonym spec_result = "(reply \<times> spec_state) option"

definition spec_error :: "u32 \<Rightarrow> string \<Rightarrow> spec_state \<Rightarrow> spec_result" where
  "spec_error code msg st = Some (Exactly (serialize_error [] code (msg @ [CHR 0x0A])), st)"

definition spec_bool :: "bool \<Rightarrow> spec_state \<Rightarrow> spec_result" where
  "spec_bool b st = Some (Exactly (serialize_integer [] (if b then 1 else 0)), st)"

definition spec_get :: "string list \<Rightarrow> spec_state \<Rightarrow> spec_result" where
  "spec_get args st =
     (if length args \<noteq> 2 then spec_error ERR_ARG ''GET requires one key'' st
      else case fst st (args ! 1) of
        [] \<Rightarrow> Some (Exactly (serialize_nil []), st)
      | (v, _) # _ \<Rightarrow> Some (Exactly (serialize_string [] v), st))"

definition spec_set :: "string list \<Rightarrow> spec_state \<Rightarrow> spec_result" where
  "spec_set args st =
     (if length args \<noteq> 3 then spec_error ERR_ARG ''SET requires key and value'' st
      else if snd st < 32 then
        Some (Exactly (serialize_string [] ''OK''),
          (fst st)(args ! 1 := (args ! 2, False) # fst st (args ! 1)), Suc (snd st))
      else None)"

definition spec_drop :: "string \<Rightarrow> spec_state \<Rightarrow> spec_result" where
  "spec_drop key st =
     (case fst st key of
        [] \<Rightarrow> spec_bool False st
      | (_, timed) # vs \<Rightarrow> if timed then None else spec_bool True ((fst st)(key := vs), snd st - 1))"

definition spec_del :: "string list \<Rightarrow> spec_state \<Rightarrow> spec_result" where
  "spec_del args st =
     (if length args \<noteq> 2 then spec_error ERR_ARG ''DEL requires key'' st else spec_drop (args ! 1) st)"

definition spec_exists :: "string list \<Rightarrow> spec_state \<Rightarrow> spec_result" where
  "spec_exists args st =
     (if length args \<noteq> 2 then spec_error ERR_ARG ''EXISTS requires key'' st
      else spec_bool (fst st (args ! 1) \<noteq> []) st)"

definition spec_zadd :: "(string \<Rightarrow> (u64 \<times> nat) option) \<Rightarrow> string list \<Rightarrow> spec_state \<Rightarrow> spec_result" where
  "spec_zadd stod args st =
     (if length args \<noteq> 4 then spec_error ERR_ARG ''ZADD requires key, score, and member'' st
      else if parse_double stod (args ! 2) = None then spec_error ERR_ARG ''Invalid score value'' st
      else if fst st (args ! 1) = [] then None
      else spec_error ERR_TYPE ''Key holds wrong type'' st)"

definition spec_zrem :: "string list \<Rightarrow> spec_state \<Rightarrow> spec_result" where
  "spec_zrem args st =
     (if length args \<noteq> 3 then spec_error ERR_ARG ''ZREM requires key and member'' st
      else if fst st (args ! 1) = [] then spec_bool False st
      else spec_error ERR_TYPE ''Key holds wrong type'' st)"

definition spec_pexpire :: "string list \<Rightarrow> spec_state \<Rightarrow> spec_result" where
  "spec_pexpire args st =
     (if length args \<noteq> 3 then spec_error ERR_ARG ''PEXPIRE requires key and TTL'' st
      else case parse_int (args ! 2) of
        None \<Rightarrow> spec_error ERR_ARG ''Invalid TTL value'' st
      | Some ttl \<Rightarrow>
          if sint ttl < 0 then spec_error ERR_ARG ''Invalid TTL value'' st
          else if ttl = 0 then spec_drop (args ! 1) st
          else (case fst st (args ! 1) of
                  [] \<Rightarrow> spec_bool False st
                | (v, _) # vs \<Rightarrow> spec_bool True ((fst st)(args ! 1 := (v, True) # vs), snd st)))"

definition spec_pttl :: "string list \<Rightarrow> spec_state \<Rightarrow> spec_result" where
  "spec_pttl args st =
     (if length args \<noteq> 2 then spec_error ERR_ARG ''PTTL requires key'' st
      else case fst st (args ! 1) of
        [] \<Rightarrow> Some (Exactly (serialize_integer [] (- 2)), st)
      | (_, timed) # _ \<Rightarrow> Some (if timed then AnyInteger else Exactly (serialize_integer [] (- 1)), st))"

definition spec_handlers :: "(string \<Rightarrow> (u64 \<times> nat) option) \<Rightarrow> string \<Rightarrow>
    (string list \<Rightarrow> spec_state \<Rightarrow> spec_result) option" where
  "spec_handlers stod = map_of
     [(''get'', spec_get), (''set'', spec_set), (''del'', spec_del), (''exists'', spec_exists),
      (''zadd'', spec_zadd stod), (''zrem'', spec_zrem),
      (''flushall'', \<lambda>args st. spec_bool True ((\<lambda>_. []), 0)),
      (''pexpire'', spec_pexpire), (''pttl'', spec_pttl)]"

definition spec_command :: "(string \<Rightarrow> (u64 \<times> nat) option) \<Rightarrow> string list \<Rightarrow> spec_state \<Rightarrow> spec_result" where
  "spec_command stod args st =
     (if args = [] then spec_error ERR_ARG ''empty command'' st
      else case spec_handlers stod (map tolower (args ! 0)) of
        None \<Rightarrow> spec_error ERR_UNKNOWN ''unknown command'' st
      | Some handler \<Rightarrow> handler args st)"

section \<open>Abstraction and simulation\<close>

definition entry_abs :: "'t entry_manager \<Rightarrow> nat \<Rightarrow> string \<times> bool" where
  "entry_abs em a =
     (case em_store em a of
        None \<Rightarrow> ([], False)
      | Some e \<Rightarrow> (case e_value e of StringEntry s \<Rightarrow> s | _ \<Rightarrow> [], e_heap_idx e \<noteq> npos))"

definition em_abs :: "'t entry_manager \<Rightarrow> spec_state" where
  "em_abs em = ((\<lambda>k. map (entry_abs em) (entry_stack em k)), entry_count em)"

text \<open>Only strings reach the database: \<^verbatim>\<open>ZADD\<close> does not return once it has made a sorted set.\<close>

definition only_strings :: "'t entry_manager \<Rightarrow> bool" where
  "only_strings em \<longleftrightarrow> (\<forall>a e. em_store em a = Some e \<longrightarrow> (\<exists>s. e_value e = StringEntry s))"

definition cp_inv :: "'t entry_manager \<Rightarrow> bool" where
  "cp_inv em \<longleftrightarrow> em_inv em \<and> only_strings em"

fun matches :: "reply \<Rightarrow> u8 list \<Rightarrow> bool" where
  "matches (Exactly bs) response \<longleftrightarrow> response = bs"
| "matches AnyInteger response \<longleftrightarrow> (\<exists>v. response = serialize_integer [] v)"

definition simulates :: "'t handler_result \<Rightarrow> spec_result \<Rightarrow> bool" where
  "simulates r sp \<longleftrightarrow>
     (case sp of
        None \<Rightarrow> r = Inl Relock
      | Some (rep, st) \<Rightarrow> \<exists>response em. r = Inr (response, em) \<and> matches rep response \<and> cp_inv em \<and> em_abs em = st)"

lemma cp_inv_new [simp]: "cp_inv em_new" "em_abs em_new = ((\<lambda>_. []), 0)"
  by (simp_all add: cp_inv_def only_strings_def em_abs_def em_new_def entry_count_def hm.count_new
      flip: em_inv_new)
    (simp add: em_new_def [symmetric])

lemma simulates_error:
  "cp_inv em \<Longrightarrow> simulates (reply_error [] code msg em) (spec_error code msg (em_abs em))"
  by (auto simp: simulates_def reply_error_def spec_error_def)

lemma simulates_bool:
  "cp_inv em \<Longrightarrow> em_abs em = st \<Longrightarrow> simulates (reply_bool [] b em) (spec_bool b st)"
  by (auto simp: simulates_def reply_bool_def spec_bool_def)

lemma find_entry_cases:
  assumes "cp_inv em"
  obtains (absent) "find_entry key em = Inr (None, em)" and "fst (em_abs em) key = []"
      and "entry_stack em key = []"
  | (present) a as e s where "find_entry key em = Inr (Some a, em)" and "entry_stack em key = a # as"
      and "em_store em a = Some e" and "e_key e = key" and "e_value e = StringEntry s"
      and "fst (em_abs em) key = (s, e_heap_idx e \<noteq> npos) # map (entry_abs em) as"
proof (cases "entry_stack em key")
  case Nil
  then show thesis
    using assms find_entry_ok [of em key] by (intro absent) (auto simp: cp_inv_def em_abs_def)
next
  case (Cons a as)
  have inv: "em_inv em" using assms by (simp add: cp_inv_def)
  obtain e where e: "em_store em a = Some e" "e_key e = key"
    using stack_live [OF em_inv_linked [OF inv], of a key] Cons by auto
  then obtain s where "e_value e = StringEntry s" using assms by (auto simp: cp_inv_def only_strings_def)
  then show thesis
    using Cons e find_entry_ok [OF inv, of key] by (intro present) (auto simp: em_abs_def entry_abs_def)
qed

lemma handle_get_sim: "cp_inv em \<Longrightarrow> simulates (handle_get args [] em) (spec_get args (em_abs em))"
proof -
  assume inv: "cp_inv em"
  show ?thesis
  proof (cases "length args = 2")
    case True
    from inv show ?thesis
    proof (cases rule: find_entry_cases [where key = "args ! 1"])
      case absent
      then show ?thesis using True inv by (simp add: handle_get_def spec_get_def simulates_def)
    next
      case (present a as e s)
      then show ?thesis using True inv by (simp add: handle_get_def spec_get_def simulates_def entry_at_def)
    qed
  qed (simp add: handle_get_def spec_get_def simulates_error inv)
qed

lemma entry_abs_cong:
  "em_store em' a = em_store em a \<Longrightarrow> entry_abs em' a = entry_abs em a"
  by (simp add: entry_abs_def)

text \<open>How creation, deletion and a time to live change the abstract state.\<close>

lemma create_string_sim:
  assumes inv: "cp_inv em" and room: "entry_count em < 32"
  shows "\<exists>em'. create_entry key (StringEntry v) em = Inr (em_next em, em') \<and> cp_inv em' \<and>
    em_abs em' = ((fst (em_abs em))(key := (v, False) # fst (em_abs em) key), Suc (snd (em_abs em)))"
proof -
  have em: "em_inv em" using inv by (simp add: cp_inv_def)
  let ?a = "em_next em"
  obtain em' where em': "create_entry key (StringEntry v) em = Inr (?a, em')" "em_inv em'"
      "entry_stack em' = (entry_stack em)(key := ?a # entry_stack em key)"
      "em_store em' = (em_store em)(?a \<mapsto> \<lparr>e_heap_idx = npos, e_key = key, e_value = StringEntry v\<rparr>)"
      "entry_count em' = Suc (entry_count em)"
    using create_entry_ok [OF em room, of key "StringEntry v"] by blast
  have "only_strings em'" using inv em'(4) by (auto simp: cp_inv_def only_strings_def)
  moreover have "b \<noteq> ?a" if "b \<in> set (entry_stack em k)" for b k
    using stack_live [OF em_inv_linked [OF em] that] live_entry [OF em_inv_linked [OF em], of b] by force
  then have "map (entry_abs em') (entry_stack em k) = map (entry_abs em) (entry_stack em k)" for k
    using em'(4) by (intro map_cong entry_abs_cong) auto
  moreover have "entry_abs em' ?a = (v, False)" by (simp add: entry_abs_def em'(4))
  ultimately show ?thesis
    using em' by (auto simp: cp_inv_def em_abs_def fun_eq_iff)
qed

lemma delete_entry_sim:
  assumes inv: "cp_inv em"
  shows "simulates (bindR (delete_entry key em) (\<lambda>(deleted, em). reply_bool [] deleted em))
    (spec_drop key (em_abs em))"
proof -
  have em: "em_inv em" using inv by (simp add: cp_inv_def)
  from inv show ?thesis
  proof (cases rule: find_entry_cases [where key = key])
    case absent
    then show ?thesis
      using delete_entry_absent [OF em] inv by (simp add: spec_drop_def simulates_bool)
  next
    case (present a as e s)
    show ?thesis
    proof (cases "e_heap_idx e = npos")
      case True
      obtain em' where em': "delete_entry key em = Inr (True, em')" "em_inv em'"
          "entry_stack em' = (entry_stack em)(key := as)" "em_store em' = (em_store em)(a := None)"
          "entry_count em' = entry_count em - 1"
        using delete_entry_ok [OF em present(2,3) True] by blast
      have "b \<noteq> a" if b: "b \<in> set (entry_stack em' k)" for b k
        using stack_live [OF em_inv_linked [OF em'(2)] b] em'(4) by force
      then have same: "map (entry_abs em') (entry_stack em' k) = map (entry_abs em) (entry_stack em' k)" for k
        using em'(4) by (intro map_cong entry_abs_cong) auto
      have "fst (em_abs em') k = ((fst (em_abs em))(key := map (entry_abs em) as)) k" for k
        using same [of k] em'(3) by (cases "k = key") (simp_all add: em_abs_def)
      then have "fst (em_abs em') = (fst (em_abs em))(key := map (entry_abs em) as)" by (rule ext)
      then have "em_abs em' = ((fst (em_abs em))(key := map (entry_abs em) as), snd (em_abs em) - 1)"
        using em'(5) by (simp add: em_abs_def)
      moreover have "cp_inv em'" using inv em'(2,4) by (auto simp: cp_inv_def only_strings_def)
      ultimately show ?thesis
        using em'(1) present(6) True by (simp add: spec_drop_def simulates_bool)
    next
      case False
      then show ?thesis
        using delete_entry_relocks [OF em present(2,3)] present(6)
        by (simp add: spec_drop_def simulates_def)
    qed
  qed
qed

lemma timed_iff_ref:
  "em_inv em \<Longrightarrow> em_store em a = Some e \<Longrightarrow> e_heap_idx e \<noteq> npos \<longleftrightarrow> a \<in> ref_set (heap_items em)"
  by (auto simp: em_inv_def em_linked_def heap_links_def split: if_splits)

lemma entry_abs_eq:
  assumes "em_inv em" and "em_inv em'" and "same_data em em'" and "em_store em a \<noteq> None"
    and "a \<in> ref_set (heap_items em') \<longleftrightarrow> a \<in> ref_set (heap_items em)"
  shows "entry_abs em' a = entry_abs em a"
proof -
  obtain e e' where "em_store em a = Some e" "em_store em' a = Some e'" "e_value e' = e_value e"
    using assms(4) same_data_store(1,3) [OF assms(3), of a] by auto
  then show ?thesis
    using timed_iff_ref [OF assms(1), of a e] timed_iff_ref [OF assms(2), of a e'] assms(5)
    by (simp add: entry_abs_def)
qed

lemma set_ttl_refs:
  assumes inv: "em_inv em" and e: "em_store em a = Some e" and ttl: "0 < sint ttl"
  shows "\<exists>em'. set_entry_ttl now a ttl em = Inr (True, em') \<and> em_inv em' \<and> same_data em em' \<and>
    ref_set (heap_items em') = insert a (ref_set (heap_items em))"
proof (cases "e_heap_idx e = npos")
  case True
  obtain em' where em': "add_to_heap a (now + ttl * 1000) em = Inr (True, em')" "em_inv em'" "same_data em em'"
      "mset (heap_items em') = add_mset \<lparr>hi_value = now + ttl * 1000, hi_ref = Some a\<rparr> (mset (heap_items em))"
    using add_to_heap_ok [OF inv e True, of "now + ttl * 1000"] by blast
  have "mset (heap_items em') = mset (heap_items em @ [\<lparr>hi_value = now + ttl * 1000, hi_ref = Some a\<rparr>])"
    using em'(4) by simp
  from ref_set_mset [OF this] have "ref_set (heap_items em') = insert a (ref_set (heap_items em))"
    by (auto simp: ref_set_append)
  then show ?thesis
    using True em' ttl entry_at_live [OF e] by (auto simp: set_entry_ttl_def)
next
  case False
  let ?i = "unat (e_heap_idx e)"
  obtain em' where em': "update_heap a (now + ttl * 1000) em = Inr (True, em')" "em_inv em'" "same_data em em'"
      "mset (heap_items em') = mset ((heap_items em)[?i := (heap_items em ! ?i)\<lparr>hi_value := now + ttl * 1000\<rparr>])"
    using update_heap_ok [OF inv e False, of "now + ttl * 1000"] by blast
  have "?i < length (heap_items em)" "a \<in> ref_set (heap_items em)"
    using inv e False by (auto simp: em_inv_def em_linked_def heap_links_def)
  then have "ref_set (heap_items em') = insert a (ref_set (heap_items em))"
    using ref_set_mset [OF em'(4)] by (simp add: ref_set_update insert_absorb)
  then show ?thesis
    using False em' ttl entry_at_live [OF e] by (auto simp: set_entry_ttl_def)
qed

lemma same_data_strings: "same_data em em' \<Longrightarrow> only_strings em \<Longrightarrow> only_strings em'"
proof -
  assume same: "same_data em em'" and str: "only_strings em"
  have "\<exists>s. e_value e = StringEntry s" if e: "em_store em' a = Some e" for a e
  proof -
    obtain e0 where "em_store em a = Some e0" "e_value e0 = e_value e"
      using same_data_store(3) [OF same, of a] e by (cases "em_store em a") auto
    then show ?thesis using str unfolding only_strings_def by metis
  qed
  then show ?thesis by (simp add: only_strings_def)
qed

lemma set_ttl_sim:
  assumes inv: "cp_inv em" and top: "entry_stack em key = a # as" and e: "em_store em a = Some e"
    and s: "e_value e = StringEntry s" and ttl: "0 < sint ttl"
  shows "simulates (bindR (set_entry_ttl now a ttl em) (\<lambda>(success, em). reply_bool [] success em))
    (spec_bool True ((fst (em_abs em))(key := (s, True) # map (entry_abs em) as), snd (em_abs em)))"
proof -
  have em: "em_inv em" using inv by (simp add: cp_inv_def)
  obtain em' where em': "set_entry_ttl now a ttl em = Inr (True, em')" "em_inv em'" "same_data em em'"
      "ref_set (heap_items em') = insert a (ref_set (heap_items em))"
    using set_ttl_refs [OF em e ttl] by blast
  have db: "em_db em' = em_db em" using em'(3) by (simp add: same_data_def)
  have dist: "distinct (a # as)" using em top unfolding em_inv_def em_linked_def db_ok_def by metis
  have only: "a \<notin> set (entry_stack em k)" if "k \<noteq> key" for k
  proof
    assume "a \<in> set (entry_stack em k)"
    then have "e_key e = k" using stack_live [OF em_inv_linked [OF em], of a k] e by force
    moreover have "e_key e = key" using stack_live [OF em_inv_linked [OF em], of a key] e top by force
    ultimately show False using that by simp
  qed
  have rest: "map (entry_abs em') bs = map (entry_abs em) bs" if "a \<notin> set bs" "set bs \<subseteq> set (entry_stack em k)" for bs k
  proof (intro map_cong [OF refl] entry_abs_eq [OF em em'(2,3)])
    fix b assume b: "b \<in> set bs"
    then have "b \<in> set (entry_stack em k)" using that(2) by blast
    then show "em_store em b \<noteq> None" by (rule stack_live [OF em_inv_linked [OF em]]) simp
    show "b \<in> ref_set (heap_items em') \<longleftrightarrow> b \<in> ref_set (heap_items em)" using b that(1) em'(4) by auto
  qed
  obtain e' where e': "em_store em' a = Some e'" "e_value e' = StringEntry s"
    using same_data_store(1,3) [OF em'(3), of a] e s by auto
  have "entry_abs em' a = (s, True)"
    using e' timed_iff_ref [OF em'(2) e'(1)] em'(4) by (simp add: entry_abs_def)
  moreover have "map (entry_abs em') as = map (entry_abs em) as" 
    by (rule rest [of as key]) (use dist top in auto)
  ultimately have new: "map (entry_abs em') (entry_stack em key) = (s, True) # map (entry_abs em) as"
    unfolding top by simp
  have "map (entry_abs em') (entry_stack em k) =
      (if k = key then (s, True) # map (entry_abs em) as else map (entry_abs em) (entry_stack em k))" for k
  proof (cases "k = key")
    case False
    then show ?thesis using rest [of "entry_stack em k" k] only [of k] by simp
  qed (use new in simp)
  then have "(\<lambda>k. map (entry_abs em') (entry_stack em k)) =
      (\<lambda>k. map (entry_abs em) (entry_stack em k))(key := (s, True) # map (entry_abs em) as)"
    by (intro ext) (simp del: map_eq_conv)
  then have "em_abs em' = ((fst (em_abs em))(key := (s, True) # map (entry_abs em) as), snd (em_abs em))"
    by (simp only: em_abs_def db entry_count_def fst_conv snd_conv)
  moreover have "cp_inv em'" using inv em'(2) same_data_strings [OF em'(3)] by (simp add: cp_inv_def)
  ultimately show ?thesis using em'(1) by (simp add: simulates_bool)
qed

lemma handle_set_sim: "cp_inv em \<Longrightarrow> simulates (handle_set args [] em) (spec_set args (em_abs em))"
proof -
  assume inv: "cp_inv em"
  show ?thesis
  proof (cases "length args = 3")
    case True
    show ?thesis
    proof (cases "entry_count em < 32")
      case room: True
      then show ?thesis
        using True create_string_sim [OF inv room, of "args ! 1" "args ! 2"]
        by (auto simp: handle_set_def spec_set_def simulates_def em_abs_def)
    next
      case False
      then have "create_entry (args ! 1) (StringEntry (args ! 2)) em = Inl Relock"
        using inv by (intro create_entry_full) (auto simp: cp_inv_def)
      then show ?thesis
        using True False by (simp add: handle_set_def spec_set_def simulates_def em_abs_def)
    qed
  qed (simp add: handle_set_def spec_set_def simulates_error inv)
qed

lemma handle_del_sim: "cp_inv em \<Longrightarrow> simulates (handle_del args [] em) (spec_del args (em_abs em))"
  by (simp add: handle_del_def spec_del_def simulates_error delete_entry_sim)

lemma handle_exists_sim: "cp_inv em \<Longrightarrow> simulates (handle_exists args [] em) (spec_exists args (em_abs em))"
proof -
  assume inv: "cp_inv em"
  show ?thesis
  proof (cases "length args = 2")
    case True
    from inv show ?thesis
      by (cases rule: find_entry_cases [where key = "args ! 1"])
        (use True inv in \<open>simp_all add: handle_exists_def spec_exists_def simulates_bool\<close>)
  qed (simp add: handle_exists_def spec_exists_def simulates_error inv)
qed

lemma handle_flushall_sim:
  assumes "cp_inv em"
  shows "simulates (handle_flushall args [] em) (spec_bool True ((\<lambda>_. []), 0))"
proof -
  obtain em' where em': "clear_all em = Inr (True, em')" "em_inv em'" "entry_stack em' = (\<lambda>_. [])"
      "entry_count em' = 0" "em_store em' = (\<lambda>_. None)"
    using clear_all_ok [of em] assms by (auto simp: cp_inv_def)
  then have "cp_inv em'" "em_abs em' = ((\<lambda>_. []), 0)"
    by (simp_all add: cp_inv_def only_strings_def em_abs_def)
  then show ?thesis using em'(1) by (simp add: handle_flushall_def simulates_bool)
qed

lemma handle_zadd_sim:
  "cp_inv em \<Longrightarrow> simulates (handle_zadd env args [] em) (spec_zadd (env_stod env) args (em_abs em))"
proof -
  assume inv: "cp_inv em"
  have em: "em_inv em" using inv by (simp add: cp_inv_def)
  let ?z = "ZSetEntry (zset_new (env_tree_new env))"
  show ?thesis
  proof (cases "length args = 4 \<and> parse_double (env_stod env) (args ! 2) \<noteq> None")
    case True
    then obtain score where score: "parse_double (env_stod env) (args ! 2) = Some score" by auto
    from inv show ?thesis
    proof (cases rule: find_entry_cases [where key = "args ! 1"])
      case absent
      have "handle_zadd env args [] em = Inl Relock"
      proof (cases "entry_count em < 32")
        case room: True
        obtain em' where "create_entry (args ! 1) ?z em = Inr (em_next em, em')"
            "em_store em' = (em_store em)(em_next em \<mapsto> \<lparr>e_heap_idx = npos, e_key = args ! 1, e_value = ?z\<rparr>)"
          using create_entry_ok [OF em room, of "args ! 1" ?z] by blast
        moreover have "add_internal T name s z = Inl Relock" for T name s and z :: "'a zset"
          by (cases "zs_mutex z") (auto simp: add_internal_def zset_lookup_def)
        ultimately show ?thesis using True score absent(1) by (simp add: handle_zadd_def entry_at_def)
      next
        case False
        then show ?thesis
          using True score absent(1) create_entry_full [OF em, of "args ! 1" ?z] by (simp add: handle_zadd_def)
      qed
      then show ?thesis using True absent(2) by (auto simp: spec_zadd_def simulates_def)
    next
      case (present a as e s)
      then have "handle_zadd env args [] em = reply_error [] ERR_TYPE ''Key holds wrong type'' em"
        using True score by (simp add: handle_zadd_def entry_at_def)
      then show ?thesis using True present(6) simulates_error [OF inv] by (auto simp: spec_zadd_def)
    qed
  qed (auto simp: handle_zadd_def spec_zadd_def simulates_error inv split: option.splits)
qed

lemma handle_zrem_sim: "cp_inv em \<Longrightarrow> simulates (handle_zrem env args [] em) (spec_zrem args (em_abs em))"
proof -
  assume inv: "cp_inv em"
  show ?thesis
  proof (cases "length args = 3")
    case True
    from inv show ?thesis
    proof (cases rule: find_entry_cases [where key = "args ! 1"])
      case absent
      then show ?thesis
        using True simulates_bool [OF inv refl, of False] by (simp add: handle_zrem_def spec_zrem_def reply_bool_def)
    next
      case (present a as e s)
      then show ?thesis
        using True simulates_error [OF inv] by (simp add: handle_zrem_def spec_zrem_def entry_at_def)
    qed
  qed (simp add: handle_zrem_def spec_zrem_def simulates_error inv)
qed

lemma set_entry_ttl_zero:
  "em_store em a = Some e \<Longrightarrow> set_entry_ttl now a 0 em = delete_entry (e_key e) em"
  by (simp add: set_entry_ttl_def entry_at_def)

lemma handle_pexpire_sim:
  "cp_inv em \<Longrightarrow> simulates (handle_pexpire env args [] em) (spec_pexpire args (em_abs em))"
proof -
  assume inv: "cp_inv em"
  show ?thesis
  proof (cases "length args = 3 \<and> (\<exists>ttl. parse_int (args ! 2) = Some ttl \<and> 0 \<le> sint ttl)")
    case True
    then obtain ttl where ttl: "length args = 3" "parse_int (args ! 2) = Some ttl" "0 \<le> sint ttl" by blast
    from inv show ?thesis
    proof (cases rule: find_entry_cases [where key = "args ! 1"])
      case absent
      then show ?thesis
        using ttl simulates_bool [OF inv refl, of False]
        by (simp add: handle_pexpire_def spec_pexpire_def spec_drop_def reply_bool_def)
    next
      case (present a as e s)
      show ?thesis
      proof (cases "ttl = 0")
        case zero: True
        then show ?thesis
          using ttl present(1,3,4) delete_entry_sim [OF inv, of "args ! 1"] set_entry_ttl_zero [OF present(3)]
          by (simp add: handle_pexpire_def spec_pexpire_def)
      next
        case False
        then have "0 < sint ttl" using ttl(3) by (metis less_le sint_0 signed_word_eqI)
        from set_ttl_sim [OF inv present(2,3,5) this, of "env_now env"] show ?thesis
          using ttl present(1,6) False by (simp add: handle_pexpire_def spec_pexpire_def)
      qed
    qed
  next
    case False
    then show ?thesis
      using simulates_error [OF inv] by (auto simp: handle_pexpire_def spec_pexpire_def split: option.splits)
  qed
qed

lemma handle_pttl_sim: "cp_inv em \<Longrightarrow> simulates (handle_pttl env args [] em) (spec_pttl args (em_abs em))"
proof -
  assume inv: "cp_inv em"
  show ?thesis
  proof (cases "length args = 2")
    case True
    from inv show ?thesis
    proof (cases rule: find_entry_cases [where key = "args ! 1"])
      case absent
      then show ?thesis using True inv by (simp add: handle_pttl_def spec_pttl_def simulates_def)
    next
      case (present a as e s)
      have "em_inv em" using inv by (simp add: cp_inv_def)
      from get_expiry_time_ok [OF this present(3), of "env_now env"] show ?thesis
        using True present(1,6) inv by (auto simp: handle_pttl_def spec_pttl_def simulates_def)
    qed
  qed (simp add: handle_pttl_def spec_pttl_def simulates_error inv)
qed

lemma process_command_sim:
  assumes inv: "cp_inv em"
  shows "simulates (process_command env args [] em) (spec_command (env_stod env) args (em_abs em))"
proof (cases "args = []")
  case False
  let ?c = "map tolower (args ! 0)"
  show ?thesis
    using False inv
    by (simp add: process_command_def spec_command_def command_handlers_def spec_handlers_def Let_def
        simulates_error handle_get_sim handle_set_sim handle_del_sim handle_exists_sim handle_zadd_sim
        handle_zrem_sim handle_flushall_sim handle_pexpire_sim handle_pttl_sim)
qed (simp add: process_command_def spec_command_def simulates_error inv)

section \<open>Runs of commands\<close>

text \<open>A run: commands with the time at which each executes, on one entry manager.\<close>

fun run_commands :: "'t env \<Rightarrow> (u64 \<times> string list) list \<Rightarrow> 't entry_manager \<Rightarrow>
    (u8 list list \<times> 't entry_manager) result" where
  "run_commands env [] em = Inr ([], em)"
| "run_commands env ((now, args) # cs) em =
     bindR (process_command (env\<lparr>env_now := now\<rparr>) args [] em) (\<lambda>(response, em).
       bindR (run_commands env cs em) (\<lambda>(responses, em). Inr (response # responses, em)))"

fun spec_commands :: "(string \<Rightarrow> (u64 \<times> nat) option) \<Rightarrow> (u64 \<times> string list) list \<Rightarrow> spec_state \<Rightarrow>
    (reply list \<times> spec_state) option" where
  "spec_commands stod [] st = Some ([], st)"
| "spec_commands stod ((now, args) # cs) st =
     (case spec_command stod args st of
        None \<Rightarrow> None
      | Some (r, st) \<Rightarrow> (case spec_commands stod cs st of
          None \<Rightarrow> None
        | Some (rs, st) \<Rightarrow> Some (r # rs, st)))"

lemma run_commands_sim:
  "cp_inv em \<Longrightarrow>
   (case spec_commands (env_stod env) cs (em_abs em) of
      None \<Rightarrow> run_commands env cs em = Inl Relock
    | Some (rs, st) \<Rightarrow> \<exists>responses em'. run_commands env cs em = Inr (responses, em') \<and>
        list_all2 matches rs responses \<and> cp_inv em' \<and> em_abs em' = st)"
proof (induction cs arbitrary: em)
  case (Cons c cs)
  obtain now args where c: "c = (now, args)" by (cases c)
  have sim: "simulates (process_command (env\<lparr>env_now := now\<rparr>) args [] em)
      (spec_command (env_stod env) args (em_abs em))"
    using process_command_sim [OF Cons.prems, of "env\<lparr>env_now := now\<rparr>" args] by simp
  show ?case
  proof (cases "spec_command (env_stod env) args (em_abs em)")
    case None
    then show ?thesis using sim by (simp add: c simulates_def)
  next
    case (Some r)
    obtain rep st where r: "r = (rep, st)" by (cases r)
    obtain response em1 where em1: "process_command (env\<lparr>env_now := now\<rparr>) args [] em = Inr (response, em1)"
        "matches rep response" "cp_inv em1" "em_abs em1 = st"
      using sim Some r by (auto simp: simulates_def)
    show ?thesis
      using Cons.IH [OF em1(3)] em1 Some r c by (auto split: option.splits)
  qed
qed simp

section \<open>Properties\<close>



text \<open>
  The first word of a command is matched without regard to case.
\<close>

theorem dispatch_case_insensitive:
  "process_command env (map tolower c # args) response em = process_command env (c # args) response em"
proof -
  have low: "tolower (tolower x) = tolower x" for x
  proof -
    have "(of_char (char_of (n :: nat)) :: nat) = n mod 256" for n by simp
    then show ?thesis unfolding tolower_def Let_def by (auto simp: of_char_of)
  qed
  have n: "(w # args) ! 1 = args ! 0" "(w # args) ! 2 = args ! 1" "(w # args) ! 3 = args ! 2" for w
    by simp_all
  have eqs: "handle_get (v # args) response em = handle_get (w # args) response em" "handle_set (v # args) response em = handle_set (w # args) response em"
      "handle_del (v # args) response em = handle_del (w # args) response em" "handle_exists (v # args) response em = handle_exists (w # args) response em"
      "handle_flushall (v # args) response em = handle_flushall (w # args) response em"
      "handle_zadd env (v # args) response em = handle_zadd env (w # args) response em"
      "handle_zrem env (v # args) response em = handle_zrem env (w # args) response em"
      "handle_pexpire env (v # args) response em = handle_pexpire env (w # args) response em"
      "handle_pttl env (v # args) response em = handle_pttl env (w # args) response em" for v w
    unfolding handle_get_def handle_set_def handle_del_def handle_exists_def handle_flushall_def
      handle_zadd_def handle_zrem_def handle_pexpire_def handle_pttl_def n length_Cons by simp_all
  have "f (map tolower c # args) response em = f (c # args) response em"
    if "command_handlers env (map tolower c) = Some f" for f
    using that eqs [of "map tolower c" c] unfolding command_handlers_def
    by (auto simp del: One_nat_def split: if_splits)
  then show ?thesis
    by (simp add: process_command_def Let_def low comp_def split: option.splits)
qed

lemma digit_char: "d < 10 \<Longrightarrow> is_digit (char_of (48 + d)) \<and> (of_char (char_of (48 + d)) :: nat) = 48 + d"
  by (simp add: is_digit_def)

lemma digits_value_snoc: "digits_value (ds @ [c]) = 10 * digits_value ds + (of_char c - 48)"
  by (simp add: digits_value_def)

lemma show_nat_digits: "show_nat n \<noteq> [] \<and> list_all is_digit (show_nat n) \<and> digits_value (show_nat n) = n"
proof (induction n rule: show_nat.induct)
  case (1 n)
  show ?case
  proof (cases "n < 10")
    case True
    then show ?thesis
      using digit_char [of n] by (simp add: show_nat.simps [of n] digits_value_def)
  next
    case False
    then have "show_nat n = show_nat (n div 10) @ [char_of (48 + n mod 10)]"
      by (simp add: show_nat.simps [of n])
    moreover have "10 * (n div 10) + n mod 10 = n" by simp
    ultimately show ?thesis
      using 1 [OF False] digit_char [of "n mod 10"] by (simp add: digits_value_snoc)
  qed
qed

lemma digit_not_space: "is_digit c \<Longrightarrow> \<not> is_space c \<and> c \<noteq> CHR ''-'' \<and> c \<noteq> CHR ''+''"
  by (auto simp: is_digit_def is_space_def Let_def)

lemma stoll_digits:
  assumes "ds \<noteq> []" and "list_all is_digit ds" and "int (digits_value ds) < 2 ^ 63"
  shows "stoll ds = Some (int (digits_value ds), length ds)"
proof -
  obtain c r where ds: "ds = c # r" using assms(1) by (cases ds) auto
  have "is_digit c" using assms(2) ds by simp
  then have "dropWhile is_space ds = ds" "split_sign ds = (False, ds)"
    using digit_not_space ds by (auto simp: split_sign_def)
  moreover have tw: "takeWhile is_digit ds = ds"
    using assms(2) by (simp add: takeWhile_eq_all_conv list_all_iff)
  ultimately show ?thesis using assms(1,3) by (simp add: stoll_def Let_def tw)
qed

lemma stoll_minus:
  assumes "ds \<noteq> []" and "list_all is_digit ds" and "int (digits_value ds) \<le> 2 ^ 63"
  shows "stoll (CHR ''-'' # ds) = Some (- int (digits_value ds), length (CHR ''-'' # ds))"
proof -
  have "dropWhile is_space (CHR ''-'' # ds) = CHR ''-'' # ds" "split_sign (CHR ''-'' # ds) = (True, ds)"
    by (auto simp: split_sign_def is_space_def)
  moreover have tw: "takeWhile is_digit ds = ds"
    using assms(2) by (simp add: takeWhile_eq_all_conv list_all_iff)
  ultimately show ?thesis using assms(1,3) by (simp add: stoll_def Let_def tw)
qed

text \<open>
  Parsing the decimal text of a 64-bit signed integer gives the integer back, over the whole
  range.
\<close>

theorem parse_int_to_string: "parse_int (to_string v) = Some v"
proof -
  have range: "- (2 ^ 63) \<le> sint v" "sint v < 2 ^ 63"
    using sint_greater_eq [of v] sint_less [of v] by simp_all
  have v: "word_of_int (sint v) = v" by simp
  show ?thesis
  proof (cases "sint v < 0")
    case True
    let ?n = "nat (- sint v)"
    have "int ?n \<le> 2 ^ 63" using range by simp
    then have "stoll (to_string v) = Some (sint v, length (to_string v))"
      using True show_nat_digits [of ?n] stoll_minus [of "show_nat ?n"] by (simp add: to_string_def)
    then show ?thesis by (simp add: parse_int_def)
  next
    case False
    let ?n = "nat (sint v)"
    have "int ?n < 2 ^ 63" using range False by simp
    then have "stoll (to_string v) = Some (sint v, length (to_string v))"
      using False show_nat_digits [of ?n] stoll_digits [of "show_nat ?n"] by (simp add: to_string_def)
    then show ?thesis by (simp add: parse_int_def)
  qed
qed

end
