(* ===== verification/Connection.thy ===== *)
theory Connection
  imports Command_Processor
begin

text \<open>
  The connection of \<^verbatim>\<open>src/connection.hpp\<close>.  The server drives a connection through
  \<^verbatim>\<open>process_io\<close>, which reads one chunk of text, splits it into words and executes it as one
  command.  The class also has a second, length-prefixed request path with read and write
  buffers (\<^verbatim>\<open>handle_request\<close> and below), which no code calls; it is modelled as well.

  The results of the system calls \<^verbatim>\<open>read\<close> and \<^verbatim>\<open>write\<close> are inputs: a single result, or the
  sequence of the results of successive calls where the code retries.  \<open>None\<close> is a call that
  does not return within the given results.
\<close>

section \<open>System calls\<close>

datatype read_result = ReadData "u8 list" | ReadError int

datatype write_result = Wrote nat | WriteError int

definition EINTR :: int where
  "EINTR = 4"

definition EAGAIN :: int where
  "EAGAIN = 11"

definition MAX_MSG_SIZE :: nat where
  "MAX_MSG_SIZE = 4096"

datatype ConnectionState = Request | Response | End

record connection =
  c_fd :: int
  c_state :: ConnectionState
  c_rbuf :: "u8 list"
  c_wbuf :: "u8 list"
  c_wbuf_sent :: nat
  c_idle_start :: int

text \<open>Points of the steady clock are numbers of nanoseconds; \<open>now\<close> is that of the construction.\<close>

definition connection_new :: "int \<Rightarrow> int \<Rightarrow> connection" where
  "connection_new fd now = \<lparr>c_fd = fd, c_state = Request, c_rbuf = [], c_wbuf = [],
     c_wbuf_sent = 0, c_idle_start = now\<rparr>"

definition update_idle_time :: "int \<Rightarrow> connection \<Rightarrow> connection" where
  "update_idle_time now c = c\<lparr>c_idle_start := now\<rparr>"

section \<open>The text protocol\<close>

text \<open>The words that \<^verbatim>\<open>iss >> word\<close> extracts.\<close>

function split_words :: "string \<Rightarrow> string list" where
  "split_words s =
     (let r = dropWhile is_space s
      in if r = [] then []
         else takeWhile (\<lambda>c. \<not> is_space c) r # split_words (dropWhile (\<lambda>c. \<not> is_space c) r))"
  by pat_completeness auto
termination
proof (relation "measure length")
  fix s r :: string
  assume r: "r = dropWhile is_space s" "r \<noteq> []"
  then have "\<not> is_space (hd r)" by (simp add: hd_dropWhile)
  then have "length (dropWhile (\<lambda>c. \<not> is_space c) r) < length r"
    using r(2) by (cases r) (auto simp: le_imp_less_Suc length_dropWhile_le)
  also have "length r \<le> length s" using r(1) by (simp add: length_dropWhile_le)
  finally show "(dropWhile (\<lambda>c. \<not> is_space c) r, s) \<in> measure length" by simp
qed simp

declare split_words.simps [simp del]

text \<open>\<^verbatim>\<open>std::string request(buffer)\<close>: the bytes up to the first zero.\<close>

definition c_string :: "u8 list \<Rightarrow> string" where
  "c_string bs = of_bytes (takeWhile (\<lambda>b. b \<noteq> 0) bs)"

text \<open>
  One call of \<^verbatim>\<open>process_io\<close>: its result, the bytes that it hands to \<^verbatim>\<open>write\<close> (one call, whose
  result it only reports), and the changed entry manager.  A buffer of 1024 bytes keeps one
  byte for the terminating zero.
\<close>

definition process_io :: "'t env \<Rightarrow> read_result \<Rightarrow> 't entry_manager \<Rightarrow>
    (unit expected \<times> u8 list \<times> 't entry_manager) result" where
  "process_io env r em =
     (case r of
        ReadData bs \<Rightarrow>
          if bs \<noteq> [] then
            bindR (process_command env (split_words (c_string bs)) [] em) (\<lambda>(response, em).
              Inr (Inr (), response, em))
          else Inr (Inl connection_reset, [], em)
      | ReadError _ \<Rightarrow> Inr (Inl io_error, [], em))"

section \<open>The buffered request path\<close>

text \<open>
  \<^verbatim>\<open>consumed\<close> counts the words of the command, not their bytes.  The copy moves the rest of the
  buffer to its front.
\<close>

definition try_process_request :: "'t env \<Rightarrow> connection \<Rightarrow> 't entry_manager \<Rightarrow>
    (bool expected \<times> connection \<times> 't entry_manager) result" where
  "try_process_request env c em =
     (if length (c_rbuf c) < 4 then Inr (Inr False, c, em)
      else case parse (c_rbuf c) of
        Inl _ \<Rightarrow> Inr (Inr False, c\<lparr>c_state := End\<rparr>, em)
      | Inr cmd \<Rightarrow>
          bindR (process_command env cmd [] em) (\<lambda>(response, em).
            let wbuf = bytes32 (of_nat (length response)) @ response;
                consumed = 4 + length cmd;
                rbuf = (if consumed < length (c_rbuf c) then drop consumed (c_rbuf c) else [])
            in Inr (Inr (length rbuf \<ge> 4),
                 c\<lparr>c_wbuf := wbuf, c_state := Response, c_wbuf_sent := 0, c_rbuf := rbuf\<rparr>, em)))"

text \<open>
  \<^verbatim>\<open>while (try_process_request()) {}\<close>: the condition is the conversion of the \<^verbatim>\<open>expected\<close> to
  \<^verbatim>\<open>bool\<close>, which tells a value from an error, not the value.
\<close>

partial_function (option) request_loop :: "'t env \<Rightarrow> connection \<Rightarrow> 't entry_manager \<Rightarrow>
    (connection \<times> 't entry_manager) result option" where
  "request_loop env c em =
     (case try_process_request env c em of
        Inl e \<Rightarrow> Some (Inl e)
      | Inr (r, c, em) \<Rightarrow>
          (case r of Inl _ \<Rightarrow> Some (Inr (c, em)) | Inr _ \<Rightarrow> request_loop env c em))"

text \<open>The retry of \<^verbatim>\<open>read\<close> while it is interrupted: the final result and the results left.\<close>

fun read_retry :: "read_result list \<Rightarrow> (read_result \<times> read_result list) option" where
  "read_retry [] = None"
| "read_retry (ReadError e # rs) = (if e = EINTR then read_retry rs else Some (ReadError e, rs))"
| "read_retry (ReadData bs # rs) = Some (ReadData bs, rs)"

text \<open>
  The bytes are read behind the end of \<^verbatim>\<open>rbuf_\<close>; the \<^verbatim>\<open>resize\<close> that then makes room for them
  sets the new elements to zero.
\<close>

definition try_fill_buffer :: "'t env \<Rightarrow> read_result list \<Rightarrow> connection \<Rightarrow> 't entry_manager \<Rightarrow>
    ((bool expected \<times> connection \<times> 't entry_manager) result \<times> read_result list) option" where
  "try_fill_buffer env rs c em =
     (if length (c_rbuf c) \<ge> MAX_MSG_SIZE then Some (Inl AssertFail, rs)
      else case read_retry rs of
        None \<Rightarrow> None
      | Some (ReadError e, rs) \<Rightarrow>
          Some (Inr (if e = EAGAIN then Inr False else Inl io_error, c, em), rs)
      | Some (ReadData bs, rs) \<Rightarrow>
          if bs = [] then Some (Inr (Inr False, c\<lparr>c_state := End\<rparr>, em), rs)
          else (case request_loop env (c\<lparr>c_rbuf := vec_resize 0 (c_rbuf c) (length (c_rbuf c) + length bs)\<rparr>) em of
                  None \<Rightarrow> None
                | Some (Inl e) \<Rightarrow> Some (Inl e, rs)
                | Some (Inr (c, em)) \<Rightarrow> Some (Inr (Inr True, c, em), rs)))"

text \<open>The loop of \<^verbatim>\<open>handle_request\<close>; every round consumes at least one result of \<^verbatim>\<open>read\<close>.\<close>

fun handle_request :: "nat \<Rightarrow> 't env \<Rightarrow> read_result list \<Rightarrow> connection \<Rightarrow> 't entry_manager \<Rightarrow>
    (unit expected \<times> connection \<times> 't entry_manager) result option" where
  "handle_request 0 env rs c em = None"
| "handle_request (Suc n) env rs c em =
     (case try_fill_buffer env rs c em of
        None \<Rightarrow> None
      | Some (Inl e, rs) \<Rightarrow> Some (Inl e)
      | Some (Inr (Inl err, c, em), rs) \<Rightarrow> Some (Inr (Inl err, c, em))
      | Some (Inr (Inr again, c, em), rs) \<Rightarrow>
          if again then handle_request n env rs c em else Some (Inr (Inr (), c, em)))"

text \<open>
  The loop of \<^verbatim>\<open>try_flush_buffer\<close> over the results of \<^verbatim>\<open>write\<close>, with the bytes written so far.
\<close>

fun flush_loop :: "write_result list \<Rightarrow> connection \<Rightarrow> u8 list \<Rightarrow>
    (bool expected \<times> connection \<times> u8 list) option" where
  "flush_loop ws c out =
     (if c_wbuf_sent c < length (c_wbuf c) then
        (case ws of
           [] \<Rightarrow> None
         | WriteError e # ws \<Rightarrow>
             if e = EINTR then flush_loop ws c out
             else if e = EAGAIN then Some (Inr False, c, out)
             else Some (Inl io_error, c, out)
         | Wrote n # ws \<Rightarrow>
             flush_loop ws (c\<lparr>c_wbuf_sent := c_wbuf_sent c + n\<rparr>)
               (out @ take n (drop (c_wbuf_sent c) (c_wbuf c))))
      else if c_wbuf_sent c = length (c_wbuf c) then
        Some (Inr False, c\<lparr>c_state := Request, c_wbuf_sent := 0, c_wbuf := []\<rparr>, out)
      else Some (Inr True, c, out))"

declare flush_loop.simps [simp del]

definition try_flush_buffer :: "write_result list \<Rightarrow> connection \<Rightarrow>
    (bool expected \<times> connection \<times> u8 list) option" where
  "try_flush_buffer ws c = flush_loop ws c []"

text \<open>
  \<^verbatim>\<open>handle_response\<close> repeats \<^verbatim>\<open>try_flush_buffer\<close> while it returns true, which happens only with
  more bytes sent than there are, a state that a repetition does not change.
\<close>

definition handle_response :: "write_result list \<Rightarrow> connection \<Rightarrow>
    (unit expected \<times> connection \<times> u8 list) option" where
  "handle_response ws c =
     (case try_flush_buffer ws c of
        None \<Rightarrow> None
      | Some (Inl err, c, out) \<Rightarrow> Some (Inl err, c, out)
      | Some (Inr again, c, out) \<Rightarrow> if again then None else Some (Inr (), c, out))"

section \<open>Words\<close>

definition is_word :: "string \<Rightarrow> bool" where
  "is_word w \<longleftrightarrow> w \<noteq> [] \<and> list_all (\<lambda>c. \<not> is_space c \<and> c \<noteq> CHR 0x00) w"

text \<open>Words written one after the other, each followed by a white-space character.\<close>

definition join_words :: "(string \<times> char) list \<Rightarrow> string" where
  "join_words ws = concat (map (\<lambda>(w, c). w @ [c]) ws)"

lemma split_words_Nil [simp]: "split_words [] = []"
  by (simp add: split_words.simps)

lemma split_words_word:
  assumes "is_word w" and "is_space c"
  shows "split_words (w @ c # s) = w # split_words s"
proof -
  have w: "\<forall>x \<in> set w. \<not> is_space x" "w \<noteq> []" using assms(1) by (auto simp: is_word_def list_all_iff)
  then have drop: "dropWhile is_space (w @ c # s) = w @ c # s" by (cases w) auto
  have take: "takeWhile (\<lambda>c. \<not> is_space c) (w @ c # s) = w" using w(1) assms(2) by (simp add: takeWhile_append2)
  have rest: "dropWhile (\<lambda>c. \<not> is_space c) (w @ c # s) = c # s"
    using w(1) assms(2) by (simp add: dropWhile_append2)
  have "split_words (c # s) = split_words s"
    using assms(2) by (subst (1 2) split_words.simps) simp
  then show ?thesis
    using w(2) by (subst split_words.simps) (simp add: drop take rest Let_def del: dropWhile_append takeWhile_append)
qed

lemma split_join_words:
  "list_all (\<lambda>(w, c). is_word w \<and> is_space c) ws \<Longrightarrow> split_words (join_words ws) = map fst ws"
  by (induction ws) (auto simp: join_words_def split_words_word)

lemma c_string_text: "CHR 0x00 \<notin> set s \<Longrightarrow> c_string (to_bytes s) = s"
proof -
  assume s: "CHR 0x00 \<notin> set s"
  have "(of_char c :: u8) \<noteq> 0" if "c \<in> set s" for c
  proof
    assume "(of_char c :: u8) = 0"
    then have "char_of (unat (of_char c :: u8)) = CHR 0x00" by (simp add: char_of_def)
    then have "c = CHR 0x00" by (simp only: char_of_byte)
    then show False using that s by simp
  qed
  then have "takeWhile (\<lambda>b. b \<noteq> 0) (to_bytes s) = to_bytes s"
    unfolding takeWhile_eq_all_conv by (auto simp: to_bytes_def)
  then show ?thesis by (simp only: c_string_def of_bytes_to_bytes)
qed

section \<open>Properties\<close>

lemma join_words_text:
  "list_all (\<lambda>(w, c). is_word w \<and> is_space c) ws \<Longrightarrow> CHR 0x00 \<notin> set (join_words ws)"
  by (induction ws) (auto simp: join_words_def is_word_def list_all_iff is_space_def)


definition example_env :: "(string, u64) avl_tree env" where
  "example_env = \<lparr>env_now = 0, env_stod = (\<lambda>_. None), env_tree = avl_ops, env_tree_new = avl_new\<rparr>"

lemma get_missing: "process_command example_env [''GET'', ''a''] [] em_new = Inr ([0], em_new)"
proof -
  have low: "map tolower ''GET'' = ''get''" by code_simp
  have "entry_stack (em_new :: (string, u64) avl_tree entry_manager) ''a'' = []"
    by (simp add: em_new_def)
  then have "find_entry ''a'' (em_new :: (string, u64) avl_tree entry_manager) = Inr (None, em_new)"
    by (simp add: find_entry_ok)
  then show ?thesis
    using low by (simp add: process_command_def command_handlers_def handle_get_def serialize_nil_def)
qed

lemma get_missing_io:
  "process_io example_env (ReadData (to_bytes ''GET a '')) em_new = Inr (Inr (), [0], em_new)"
proof -
  have "split_words ''GET a '' = [''GET'', ''a'']" by code_simp
  moreover have "c_string (to_bytes ''GET a '') = ''GET a ''" by (rule c_string_text) simp
  moreover have "to_bytes ''GET a '' \<noteq> []" by (simp add: to_bytes_def)
  ultimately show ?thesis using get_missing by (simp add: process_io_def)
qed


text \<open>
  C33: The loop that executes buffered requests never ends normally: it is left only by a
  failure of a command.  Hence \<^verbatim>\<open>try_fill_buffer\<close> never returns a value after it has read bytes.
\<close>

theorem request_loop_never_returns:
  fixes env :: "'t env"
  shows "request_loop env c em \<noteq> Some (Inr r) \<and>
   (bs = [] \<or> length (c_rbuf c) \<ge> MAX_MSG_SIZE \<or>
     (\<forall>v rs'. try_fill_buffer env (ReadData bs # rs) c em \<noteq> Some (Inr v, rs')))"
proof -
  have no_error: "try_process_request env c em \<noteq> Inr (Inl err, c', em')" for env c em err c' em'
    by (auto simp: try_process_request_def Let_def bindR_def split: sum.splits)
  have loop: "\<exists>e. x = Inl e" if "request_loop env c em = Some x" for c em x
  proof (rule request_loop.raw_induct [where P = "\<lambda>_ _ _ x. \<exists>e. x = Inl e", OF _ that], goal_cases)
    case (1 loop env c em x)
    then show ?case
      using no_error [of env c em] by (auto split: sum.splits prod.splits)
  qed
  then show ?thesis
    by (fastforce simp: try_fill_buffer_def split: option.splits sum.splits prod.splits)
qed

lemmas flush_simps =
  flush_loop.simps [of "[]"] flush_loop.simps [of "Wrote n # ws" for n ws]
  flush_loop.simps [of "WriteError e # ws" for e ws]

lemma flush_loop_no_loss:
  "flush_loop ws c out = Some (r, c', out') \<Longrightarrow>
   out' @ drop (c_wbuf_sent c') (c_wbuf c') = out @ drop (c_wbuf_sent c) (c_wbuf c)"
proof (induction ws arbitrary: c out)
  case Nil
  then show ?case by (auto simp: flush_simps split: if_splits)
next
  case (Cons w ws)
  show ?case
  proof (cases w)
    case (Wrote n)
    have "take n (drop k ys) @ drop (k + n) ys = drop k ys" for k and ys :: "u8 list"
      using append_take_drop_id [of n "drop k ys"] by (simp add: add.commute)
    then show ?thesis
      using Cons.prems Cons.IH by (auto simp: flush_simps Wrote split: if_splits)
  next
    case (WriteError e)
    then show ?thesis using Cons by (auto simp: flush_simps split: if_splits)
  qed
qed

lemma flush_loop_state:
  "flush_loop ws c out = Some (r, c', out') \<Longrightarrow>
   c_state c' = c_state c \<or> c_state c' = Request \<and> c_wbuf c' = [] \<and> r = Inr False"
proof (induction ws arbitrary: c out)
  case Nil
  then show ?case by (auto simp: flush_simps split: if_splits)
next
  case (Cons w ws)
  then show ?case
    by (cases w) (fastforce simp: flush_simps split: if_splits)+
qed

text \<open>
  C31: Whatever the results of the writes, the bytes written by \<^verbatim>\<open>try_flush_buffer\<close> followed by
  those still to be sent are the bytes that were to be sent before: none is lost, repeated or
  reordered.  The state changes only to that of reading requests, with the buffer emptied.
\<close>

theorem flush_no_loss:
  assumes "try_flush_buffer ws c = Some (r, c', out)"
  shows "out @ drop (c_wbuf_sent c') (c_wbuf c') = drop (c_wbuf_sent c) (c_wbuf c) \<and>
    (c_state c' = c_state c \<or> c_state c' = Request \<and> c_wbuf c' = [] \<and> r = Inr False)"
  using flush_loop_no_loss [of ws c "[]"] flush_loop_state [of ws c "[]"] assms
  by (simp add: try_flush_buffer_def)

theorem flush_no_loss_witness:
  "\<exists>c. try_flush_buffer [Wrote 1, WriteError 4, Wrote 2]
     ((connection_new 5 0)\<lparr>c_wbuf := [7, 8, 9], c_state := Response\<rparr>) = Some (Inr False, c, [7, 8, 9]) \<and>
   [7, 8, 9] @ drop (c_wbuf_sent c) (c_wbuf c) = [7, 8, 9 :: u8]"
proof -
  let ?c = "(connection_new 5 0)\<lparr>c_wbuf := [7, 8, 9], c_state := Response\<rparr>"
  have "try_flush_buffer [Wrote 1, WriteError 4, Wrote 2] ?c =
      Some (Inr False, ?c\<lparr>c_state := Request, c_wbuf_sent := 0, c_wbuf := []\<rparr>, [7, 8, 9])"
    by (simp add: try_flush_buffer_def flush_loop.simps connection_new_def EINTR_def)
  from flush_no_loss [OF this] this show ?thesis by (auto simp: connection_new_def)
qed

end
