(* ===== verification/Server.thy ===== *)
theory Server
  imports Connection
begin

text \<open>
  The server of \<^verbatim>\<open>src/server.hpp\<close>, the sockets of \<^verbatim>\<open>src/socket.hpp\<close> and the program's entry
  in \<^verbatim>\<open>src/main.cpp\<close>.  The state is that of the \<^verbatim>\<open>Server\<close> object together with the set of file
  descriptors that the process has open, so that leaks and double closes can be stated.  The
  results of the system calls of one round of the main loop are the input of the round.
\<close>

section \<open>Sockets\<close>

text \<open>
  A \<^verbatim>\<open>Socket\<close> is its descriptor.  The destructor and the move assignment close descriptors,
  the move leaves \<open>-1\<close> behind.
\<close>

type_synonym fds = "int set"

definition socket_destroy :: "int \<Rightarrow> fds \<Rightarrow> fds" where
  "socket_destroy fd opened = (if fd \<noteq> - 1 then opened - {fd} else opened)"

text \<open>\<^verbatim>\<open>a = std::move(b)\<close> for two different sockets: the new \<open>a\<close>, the new \<open>b\<close>, the descriptors.\<close>

definition socket_assign :: "int \<Rightarrow> int \<Rightarrow> fds \<Rightarrow> int \<times> int \<times> fds" where
  "socket_assign a b opened = (b, - 1, if a \<noteq> - 1 then opened - {a} else opened)"

definition O_NONBLOCK :: u32 where
  "O_NONBLOCK = 0x800"

text \<open>
  The result of \<^verbatim>\<open>fcntl(F_GETFL)\<close> is the flags or an error number; that of \<^verbatim>\<open>fcntl(F_SETFL)\<close>
  depends on the flags it is given.
\<close>

definition set_nonblocking :: "int + u32 \<Rightarrow> (u32 \<Rightarrow> int option) \<Rightarrow> unit expected" where
  "set_nonblocking getfl setfl =
     (case getfl of
        Inl e \<Rightarrow> Inl (errno_code e)
      | Inr flags \<Rightarrow> (case setfl (flags OR O_NONBLOCK) of
          Some e \<Rightarrow> Inl (errno_code e)
        | None \<Rightarrow> Inr ()))"

section \<open>State\<close>

text \<open>
  The connections are an association list in the iteration order of the \<^verbatim>\<open>unordered_map\<close>.
  \<open>sv_idle\<close> holds the pointers of \<^verbatim>\<open>idle_list_\<close> as the descriptors of the connections they
  point to.
\<close>

record 't server =
  sv_port :: u16
  sv_listen :: int
  sv_em :: "'t entry_manager"
  sv_should_stop :: bool
  sv_connections :: "(int \<times> connection) list"
  sv_idle :: "int list"
  sv_open :: fds

definition server_new :: "u16 \<Rightarrow> 't server" where
  "server_new port = \<lparr>sv_port = port, sv_listen = - 1, sv_em = em_new, sv_should_stop = False,
     sv_connections = [], sv_idle = [], sv_open = {}\<rparr>"

section \<open>Initialisation\<close>

text \<open>Results of the system calls; a negative number is a failure.\<close>

record listen_calls =
  lc_socket :: int
  lc_setsockopt :: int
  lc_bind :: "u16 \<Rightarrow> int"
  lc_listen :: int
  lc_getfl :: "int + u32"
  lc_setfl :: "u32 \<Rightarrow> int option"

definition create_listen_socket :: "listen_calls \<Rightarrow> u16 \<Rightarrow> fds \<Rightarrow> int expected \<times> fds" where
  "create_listen_socket lc port opened =
     (let sock = lc_socket lc;
          opened = (if sock < 0 then opened else insert sock opened);
          fail = (\<lambda>e. (Inl e, socket_destroy sock opened))
      in if sock < 0 then fail bad_file_descriptor
         else if lc_setsockopt lc < 0 then fail invalid_argument
         else if lc_bind lc port < 0 then fail address_in_use
         else if lc_listen lc < 0 then fail connection_refused
         else case set_nonblocking (lc_getfl lc) (lc_setfl lc) of
           Inl e \<Rightarrow> fail e
         | Inr _ \<Rightarrow> (Inr sock, opened))"

definition initialize :: "listen_calls \<Rightarrow> 't server \<Rightarrow> unit expected \<times> 't server" where
  "initialize lc sv =
     (case create_listen_socket lc (sv_port sv) (sv_open sv) of
        (Inl e, opened) \<Rightarrow> (Inl e, sv\<lparr>sv_open := opened\<rparr>)
      | (Inr sock, opened) \<Rightarrow>
          (case socket_assign (sv_listen sv) sock opened of (self, other, opened) \<Rightarrow>
             (Inr (), sv\<lparr>sv_listen := self, sv_open := socket_destroy other opened\<rparr>)))"

section \<open>Polling\<close>

definition POLLIN :: u16 where
  "POLLIN = 1"

definition POLLOUT :: u16 where
  "POLLOUT = 4"

record pollfd =
  pfd_fd :: int
  pfd_events :: u16
  pfd_revents :: u16

definition prepare_poll_args :: "'t server \<Rightarrow> pollfd list" where
  "prepare_poll_args sv =
     \<lparr>pfd_fd = sv_listen sv, pfd_events = POLLIN, pfd_revents = 0\<rparr> #
     map (\<lambda>(fd, conn). \<lparr>pfd_fd = fd,
            pfd_events = (if c_state conn = Request then POLLIN else POLLOUT), pfd_revents = 0\<rparr>)
       (sv_connections sv)"

section \<open>Connections\<close>

text \<open>
  \<^verbatim>\<open>emplace\<close> with a key that is present destroys the connection it was given, whose socket
  closes its descriptor.
\<close>

definition add_connection :: "connection \<Rightarrow> 't server \<Rightarrow> 't server" where
  "add_connection conn sv =
     (let fd = c_fd conn
      in if map_of (sv_connections sv) fd = None
         then sv\<lparr>sv_connections := (fd, conn) # sv_connections sv\<rparr>
         else sv\<lparr>sv_open := socket_destroy fd (sv_open sv)\<rparr>)"

definition remove_connection :: "int \<Rightarrow> 't server \<Rightarrow> 't server" where
  "remove_connection fd sv =
     (case map_of (sv_connections sv) fd of
        None \<Rightarrow> sv
      | Some conn \<Rightarrow> sv\<lparr>sv_connections := filter (\<lambda>(k, _). k \<noteq> fd) (sv_connections sv),
                      sv_open := socket_destroy (c_fd conn) (sv_open sv)\<rparr>)"

text \<open>
  A result of \<^verbatim>\<open>accept\<close>: an error number, or a new descriptor with the time at which its
  connection is constructed and the results of \<^verbatim>\<open>fcntl\<close> on it.
\<close>

datatype accept_result = AcceptError int | Accepted int int "int + u32" "u32 \<Rightarrow> int option"

text \<open>
  The loop of \<^verbatim>\<open>accept_new_connections\<close>; \<open>None\<close> when the results do not contain the failing
  call that ends it.  Every failure ends the loop, whatever its error number.
\<close>

fun accept_loop :: "accept_result list \<Rightarrow> 't server \<Rightarrow> 't server option" where
  "accept_loop [] sv = None"
| "accept_loop (AcceptError e # rs) sv = Some sv"
| "accept_loop (Accepted fd now getfl setfl # rs) sv =
     (let sv = sv\<lparr>sv_open := insert fd (sv_open sv)\<rparr>
      in case set_nonblocking getfl setfl of
           Inl _ \<Rightarrow> accept_loop rs (sv\<lparr>sv_open := socket_destroy fd (sv_open sv)\<rparr>)
         | Inr _ \<Rightarrow> accept_loop rs (add_connection (connection_new fd now) sv))"

definition accept_new_connections :: "pollfd \<Rightarrow> accept_result list \<Rightarrow> 't server \<Rightarrow> 't server option" where
  "accept_new_connections listen_poll rs sv =
     (if pfd_revents listen_poll AND POLLIN = 0 then Some sv else accept_loop rs sv)"

text \<open>The failures of the model that are C++ exceptions, which the server catches.\<close>

fun is_exception :: "cpp_error \<Rightarrow> bool" where
  "is_exception OutOfRange = True"
| "is_exception (RuntimeError _) = True"
| "is_exception _ = False"

text \<open>
  The loop over the polled descriptors.  \<open>reads fd\<close> is the time and the result of the read that
  \<^verbatim>\<open>process_io\<close> makes on \<open>fd\<close>.  The result lists the responses with the descriptors they are
  written to.  A caught exception closes the connection; no command raises one
  (\<open>process_io_cases\<close> below), so the entry manager it leaves is not an issue.
\<close>

fun process_active_connections :: "'t env \<Rightarrow> (int \<Rightarrow> u64 \<times> read_result) \<Rightarrow> pollfd list \<Rightarrow> 't server \<Rightarrow>
    ((int \<times> u8 list) list \<times> 't server) result" where
  "process_active_connections env reads [] sv = Inr ([], sv)"
| "process_active_connections env reads (p # ps) sv =
     (let fd = pfd_fd p
      in if pfd_revents p = 0 then process_active_connections env reads ps sv
         else case map_of (sv_connections sv) fd of
           None \<Rightarrow> process_active_connections env reads ps sv
         | Some conn \<Rightarrow>
             (case process_io (env\<lparr>env_now := fst (reads fd)\<rparr>) (snd (reads fd)) (sv_em sv) of
                Inl e \<Rightarrow>
                  if is_exception e
                  then process_active_connections env reads ps (remove_connection (c_fd conn) sv)
                  else Inl e
              | Inr (Inl _, _, em) \<Rightarrow>
                  process_active_connections env reads ps (remove_connection (c_fd conn) (sv\<lparr>sv_em := em\<rparr>))
              | Inr (Inr _, response, em) \<Rightarrow>
                  bindR (process_active_connections env reads ps (sv\<lparr>sv_em := em\<rparr>)) (\<lambda>(ws, sv).
                    Inr ((fd, response) # ws, sv))))"

section \<open>Timers\<close>

definition IDLE_TIMEOUT :: int where
  "IDLE_TIMEOUT = 5000 * 1000000"

text \<open>\<^verbatim>\<open>duration_cast\<close> to milliseconds truncates towards zero.\<close>

definition to_milliseconds :: "int \<Rightarrow> int" where
  "to_milliseconds d = sgn d * (\<bar>d\<bar> div 1000000)"

text \<open>Both functions read through the first pointer of the idle list, which may be dangling.\<close>

definition calculate_next_timeout :: "int \<Rightarrow> 't server \<Rightarrow> int result" where
  "calculate_next_timeout now sv =
     (let next_timeout = now + 24 * 3600 * 1000000000
      in case sv_idle sv of
           [] \<Rightarrow> Inr (to_milliseconds (next_timeout - now))
         | p # _ \<Rightarrow> (case map_of (sv_connections sv) p of
             None \<Rightarrow> Inl Dangling
           | Some conn \<Rightarrow>
               Inr (to_milliseconds (min next_timeout (c_idle_start conn + IDLE_TIMEOUT) - now))))"

text \<open>\<open>remove_connection\<close> does not take the connection off the idle list.\<close>

function process_timers :: "int \<Rightarrow> 't server \<Rightarrow> 't server result" where
  "process_timers now sv =
     (case sv_idle sv of
        [] \<Rightarrow> Inr sv
      | p # _ \<Rightarrow> (case map_of (sv_connections sv) p of
          None \<Rightarrow> Inl Dangling
        | Some conn \<Rightarrow>
            if now - c_idle_start conn < IDLE_TIMEOUT then Inr sv
            else if map_of (sv_connections sv) (c_fd conn) = None then Inl Diverges
            else process_timers now (remove_connection (c_fd conn) sv)))"
  by pat_completeness auto
termination
proof (relation "measure (\<lambda>(now, sv). length (sv_connections sv))")
  fix now p ps conn and sv :: "'t server"
  assume "map_of (sv_connections sv) (c_fd conn) \<noteq> None"
  then obtain c where c: "map_of (sv_connections sv) (c_fd conn) = Some c" by auto
  then have "(c_fd conn, c) \<in> set (sv_connections sv)" by (rule map_of_SomeD)
  then show "((now, remove_connection (c_fd conn) sv), (now, sv))
      \<in> measure (\<lambda>(now, sv). length (sv_connections sv))"
    using length_filter_less [of "(c_fd conn, c)" "sv_connections sv" "\<lambda>(k, _). k \<noteq> c_fd conn"] c
    by (simp add: remove_connection_def)
qed simp

declare process_timers.simps [simp del]

section \<open>The main loop\<close>

definition stop_server :: "'t server \<Rightarrow> 't server" where
  "stop_server sv = sv\<lparr>sv_should_stop := True, sv_open := sv_open sv - {sv_listen sv}\<rparr>"

text \<open>
  The inputs of one round of \<^verbatim>\<open>run\<close>: whether \<^verbatim>\<open>stop\<close> is called before the second test of the
  flag, the result of \<^verbatim>\<open>poll\<close> with the \<^verbatim>\<open>revents\<close> it sets, and the results of the system calls.
\<close>

record round_input =
  rd_stop :: bool
  rd_ret :: int
  rd_revents :: "int \<Rightarrow> u16"
  rd_accepts :: "accept_result list"
  rd_reads :: "int \<Rightarrow> u64 \<times> read_result"

definition run_round :: "'t env \<Rightarrow> round_input \<Rightarrow> 't server \<Rightarrow>
    ((int \<times> u8 list) list \<times> 't server) result option" where
  "run_round env r sv =
     (let poll_args = map (\<lambda>p. p\<lparr>pfd_revents := rd_revents r (pfd_fd p)\<rparr>) (prepare_poll_args sv)
      in if rd_stop r then Some (Inr ([], stop_server sv))
         else if rd_ret r > 0 then
           (case accept_new_connections (hd poll_args) (rd_accepts r) sv of
              None \<Rightarrow> None
            | Some sv \<Rightarrow> Some (process_active_connections env (rd_reads r) (tl poll_args) sv))
         else Some (Inr ([], sv)))"

text \<open>
  What the kernel guarantees of \<^verbatim>\<open>accept\<close>: a new descriptor is non-negative and not open.
\<close>

fun fresh_accepts :: "fds \<Rightarrow> accept_result list \<Rightarrow> bool" where
  "fresh_accepts opened [] = True"
| "fresh_accepts opened (AcceptError e # rs) = True"
| "fresh_accepts opened (Accepted fd now getfl setfl # rs) =
     (0 \<le> fd \<and> fd \<notin> opened \<and>
      fresh_accepts (case set_nonblocking getfl setfl of Inl _ \<Rightarrow> opened | Inr _ \<Rightarrow> insert fd opened) rs)"

text \<open>The executions of \<^verbatim>\<open>run\<close>, with the rounds made and the responses written so far.\<close>

inductive run :: "'t env \<Rightarrow> 't server \<Rightarrow> round_input list \<Rightarrow> (int \<times> u8 list) list \<Rightarrow> 't server \<Rightarrow> bool"
  for env :: "'t env" and sv0 :: "'t server" where
  run_start: "run env sv0 [] [] sv0"
| run_next: "run env sv0 (rs @ [r]) (ws @ ws') sv'"
    if "run env sv0 rs ws sv" "\<not> sv_should_stop sv" "fresh_accepts (sv_open sv) (rd_accepts r)"
      "run_round env r sv = Some (Inr (ws', sv'))"

section \<open>The program\<close>

text \<open>
  \<^verbatim>\<open>std::stoi\<close>: the value of the number at the start, \<open>None\<close> for an exception.
\<close>

definition stoi :: "string \<Rightarrow> int option" where
  "stoi s = (case stoll s of
     None \<Rightarrow> None
   | Some (v, _) \<Rightarrow> if - (2 ^ 31) \<le> v \<and> v < 2 ^ 31 then Some v else None)"

text \<open>
  The arguments of \<^verbatim>\<open>main\<close>, \<open>None\<close> for the return with code 1.  The port is converted to 16
  bits before it is checked, the number of threads to 64 bits.
\<close>

definition main_arguments :: "string list \<Rightarrow> (u16 \<times> u64) option" where
  "main_arguments argv =
     (let port = (if length argv > 1 then
                    (case stoi (argv ! 1) of
                       None \<Rightarrow> None
                     | Some v \<Rightarrow> let port = word_of_int v :: u16
                                in if port < 1024 \<or> unat port > 65535 then None else Some port)
                  else Some 1234)
      in case port of
           None \<Rightarrow> None
         | Some port \<Rightarrow>
             if length argv > 2 then
               (case stoi (argv ! 2) of
                  None \<Rightarrow> None
                | Some v \<Rightarrow> let thread_pool_size = word_of_int v :: u64
                           in if thread_pool_size = 0 then None else Some (port, thread_pool_size))
             else Some (port, 4))"

text \<open>
  \<^verbatim>\<open>main\<close> up to the main loop: the exit code, or the server that runs.  \<open>threads_ok\<close> tells whether
  the system can create that many threads.
\<close>

definition main_start :: "(u64 \<Rightarrow> bool) \<Rightarrow> listen_calls \<Rightarrow> string list \<Rightarrow> int + 't server" where
  "main_start threads_ok lc argv =
     (case main_arguments argv of
        None \<Rightarrow> Inl 1
      | Some (port, n) \<Rightarrow>
          if \<not> threads_ok n then Inl 1
          else (case initialize lc (server_new port) of
             (Inl _, _) \<Rightarrow> Inl 1
           | (Inr _, sv) \<Rightarrow> Inr sv))"

section \<open>The invariant\<close>

definition conn_fds :: "'t server \<Rightarrow> fds" where
  "conn_fds sv = fst ` set (sv_connections sv)"

text \<open>
  Every connection is stored under its own descriptor, and the open descriptors are those of the
  connections and, until \<^verbatim>\<open>stop\<close>, of the listening socket.
\<close>

definition sv_inv :: "'t server \<Rightarrow> bool" where
  "sv_inv sv \<longleftrightarrow>
     distinct (map fst (sv_connections sv)) \<and>
     list_all (\<lambda>(k, c). c_fd c = k \<and> c_state c = Request \<and> 0 \<le> k) (sv_connections sv) \<and>
     0 \<le> sv_listen sv \<and> sv_listen sv \<notin> conn_fds sv \<and>
     sv_open sv = (if sv_should_stop sv then {} else {sv_listen sv}) \<union> conn_fds sv \<and>
     sv_idle sv = [] \<and> cp_inv (sv_em sv)"

lemma conn_fds_lookup: "fd \<in> conn_fds sv \<longleftrightarrow> map_of (sv_connections sv) fd \<noteq> None"
  by (simp add: conn_fds_def map_of_eq_None_iff)

lemma sv_inv_lookup:
  assumes "sv_inv sv" "map_of (sv_connections sv) fd = Some conn"
  shows "c_fd conn = fd" "0 \<le> fd" "fd \<noteq> sv_listen sv"
  using assms map_of_SomeD [OF assms(2)]
  by (force simp: sv_inv_def list_all_iff conn_fds_def)+

lemma sv_inv_em: "sv_inv sv \<Longrightarrow> cp_inv em \<Longrightarrow> sv_inv (sv\<lparr>sv_em := em\<rparr>)"
  by (simp add: sv_inv_def conn_fds_def)

lemma conn_fds_em [simp]: "conn_fds (sv\<lparr>sv_em := em\<rparr>) = conn_fds sv"
  by (simp add: conn_fds_def)

lemma sv_inv_accept:
  assumes "sv_inv sv" "fd \<notin> sv_open sv" "0 \<le> fd" "\<not> sv_should_stop sv"
  shows "sv_inv (add_connection (connection_new fd now) (sv\<lparr>sv_open := insert fd (sv_open sv)\<rparr>))"
    and "conn_fds (add_connection (connection_new fd now) (sv\<lparr>sv_open := insert fd (sv_open sv)\<rparr>)) =
      insert fd (conn_fds sv)"
    and "sv_open (add_connection (connection_new fd now) (sv\<lparr>sv_open := insert fd (sv_open sv)\<rparr>)) =
      insert fd (sv_open sv)"
proof -
  have "fd \<notin> conn_fds sv" "fd \<noteq> sv_listen sv" using assms by (auto simp: sv_inv_def)
  moreover from this have "map_of (sv_connections sv) fd = None" by (simp add: conn_fds_lookup)
  ultimately show "sv_inv (add_connection (connection_new fd now) (sv\<lparr>sv_open := insert fd (sv_open sv)\<rparr>))"
    and "conn_fds (add_connection (connection_new fd now) (sv\<lparr>sv_open := insert fd (sv_open sv)\<rparr>)) =
      insert fd (conn_fds sv)"
    and "sv_open (add_connection (connection_new fd now) (sv\<lparr>sv_open := insert fd (sv_open sv)\<rparr>)) =
      insert fd (sv_open sv)"
    using assms by (auto simp: sv_inv_def add_connection_def connection_new_def conn_fds_def)
qed

lemma sv_inv_remove:
  assumes "sv_inv sv"
  shows "sv_inv (remove_connection fd sv)" "conn_fds (remove_connection fd sv) = conn_fds sv - {fd}"
    and "sv_em (remove_connection fd sv) = sv_em sv"
    and "sv_should_stop (remove_connection fd sv) = sv_should_stop sv"
proof -
  have d: "distinct (map fst (filter P (sv_connections sv)))" for P
    using assms distinct_map_filter by (auto simp: sv_inv_def)
  have fds: "fst ` {x \<in> set (sv_connections sv). fst x \<noteq> fd} = conn_fds sv - {fd}"
    by (auto simp: conn_fds_def)
  have conn: "sv_inv (remove_connection fd sv) \<and> conn_fds (remove_connection fd sv) = conn_fds sv - {fd}"
  proof (cases "map_of (sv_connections sv) fd")
    case None
    then show ?thesis
      using assms conn_fds_lookup [of fd sv] by (simp add: remove_connection_def)
  next
    case (Some c)
    have sv': "remove_connection fd sv = sv\<lparr>sv_connections := filter (\<lambda>x. fst x \<noteq> fd) (sv_connections sv),
        sv_open := sv_open sv - {fd}\<rparr>"
      using sv_inv_lookup [OF assms Some] Some
      by (simp add: remove_connection_def socket_destroy_def case_prod_unfold)
    have "conn_fds (remove_connection fd sv) = conn_fds sv - {fd}"
      unfolding sv' using fds by (simp add: conn_fds_def)
    then show ?thesis
      using assms d sv_inv_lookup(3) [OF assms Some]
      by (auto simp: sv_inv_def sv' list_all_iff)
  qed
  then show "sv_inv (remove_connection fd sv)" "conn_fds (remove_connection fd sv) = conn_fds sv - {fd}"
    by simp_all
  show "sv_em (remove_connection fd sv) = sv_em sv"
    and "sv_should_stop (remove_connection fd sv) = sv_should_stop sv"
    by (simp_all add: remove_connection_def split: option.split)
qed

lemma accept_loop_inv:
  "accept_loop rs sv = Some sv' \<Longrightarrow> sv_inv sv \<Longrightarrow> \<not> sv_should_stop sv \<Longrightarrow> fresh_accepts (sv_open sv) rs \<Longrightarrow>
   sv_inv sv' \<and> \<not> sv_should_stop sv' \<and> sv_em sv' = sv_em sv \<and> conn_fds sv \<subseteq> conn_fds sv'"
proof (induction rs arbitrary: sv)
  case (Cons r rs)
  show ?case
  proof (cases r)
    case (Accepted fd now getfl setfl)
    have new: "fd \<notin> sv_open sv" "0 \<le> fd" using Cons.prems(4) by (auto simp: Accepted)
    have same: "sv\<lparr>sv_open := socket_destroy fd (insert fd (sv_open sv))\<rparr> = sv"
      using new by (simp add: socket_destroy_def)
    have keep: "sv_should_stop (add_connection c sv) = sv_should_stop sv"
      "sv_em (add_connection c sv) = sv_em sv" for c and sv :: "'a server"
      by (simp_all add: add_connection_def Let_def)
    show ?thesis
    proof (cases "set_nonblocking getfl setfl")
      case (Inl e)
      then show ?thesis using Cons same by (simp add: Accepted)
    next
      case (Inr u)
      note acc = sv_inv_accept [OF Cons.prems(2) new Cons.prems(3), of now]
      have "accept_loop rs (add_connection (connection_new fd now) (sv\<lparr>sv_open := insert fd (sv_open sv)\<rparr>)) = Some sv'"
        using Cons.prems(1) Inr by (simp add: Accepted)
      from Cons.IH [OF this acc(1)] show ?thesis
        using Cons.prems(3,4) Inr acc(2,3) by (auto simp: Accepted keep)
    qed
  qed (use Cons in auto)
qed simp

lemma process_io_cases:
  assumes "cp_inv em"
  shows "process_io env r em = Inl Relock \<or>
    (\<exists>res response em'. process_io env r em = Inr (res, response, em') \<and> cp_inv em')"
proof (cases r)
  case (ReadData bs)
  show ?thesis
    using assms process_command_sim [OF assms, of env "split_words (c_string bs)"]
    by (auto simp: process_io_def ReadData simulates_def bindR_def split: option.splits sum.splits)
qed (use assms in \<open>simp add: process_io_def\<close>)

section \<open>Requests and responses of a round\<close>

text \<open>The command that a read is executed as: its time and its words.\<close>

definition request_of :: "u64 \<times> read_result \<Rightarrow> (u64 \<times> string list) option" where
  "request_of nr = (case snd nr of
     ReadData bs \<Rightarrow> if bs \<noteq> [] then Some (fst nr, split_words (c_string bs)) else None
   | ReadError _ \<Rightarrow> None)"

text \<open>The commands of the polled descriptors that are ready and connected, in the polled order.\<close>

definition requests :: "(int \<Rightarrow> u64 \<times> read_result) \<Rightarrow> pollfd list \<Rightarrow> fds \<Rightarrow> (int \<times> u64 \<times> string list) list" where
  "requests reads ps conns =
     List.map_filter (\<lambda>p. map_option (Pair (pfd_fd p)) (request_of (reads (pfd_fd p))))
       (filter (\<lambda>p. pfd_revents p \<noteq> 0 \<and> pfd_fd p \<in> conns) ps)"

lemma requests_simps [simp]:
  "requests reads [] conns = []"
  "requests reads (p # ps) conns =
     (if pfd_revents p \<noteq> 0 \<and> pfd_fd p \<in> conns then
        (case request_of (reads (pfd_fd p)) of
           None \<Rightarrow> requests reads ps conns
         | Some c \<Rightarrow> (pfd_fd p, c) # requests reads ps conns)
      else requests reads ps conns)"
  by (auto simp: requests_def List.map_filter_simps split: option.split)

lemma requests_remove: "fd \<notin> pfd_fd ` set ps \<Longrightarrow> requests reads ps (conns - {fd}) = requests reads ps conns"
  by (induction ps) (auto split: option.split)

lemma process_io_request:
  "case request_of (now, r) of
      None \<Rightarrow> \<exists>e. process_io (env\<lparr>env_now := now\<rparr>) r em = Inr (Inl e, [], em)
    | Some (_, args) \<Rightarrow> process_io (env\<lparr>env_now := now\<rparr>) r em =
        bindR (process_command (env\<lparr>env_now := now\<rparr>) args [] em) (\<lambda>(response, em). Inr (Inr (), response, em))"
  by (auto simp: request_of_def process_io_def split: read_result.split)

text \<open>
  The loop over the ready descriptors executes exactly the commands that were read, in the polled
  order, each response goes to the descriptor its command came from, and the only failure is that
  of a command.
\<close>

lemma process_active_connections_run:
  "sv_inv sv \<Longrightarrow> distinct (map pfd_fd ps) \<Longrightarrow>
   (case run_commands env (map snd (requests reads ps (conn_fds sv))) (sv_em sv) of
      Inl e \<Rightarrow> process_active_connections env reads ps sv = Inl e
    | Inr (responses, em) \<Rightarrow> \<exists>sv'. process_active_connections env reads ps sv =
          Inr (zip (map fst (requests reads ps (conn_fds sv))) responses, sv') \<and>
        sv_em sv' = em \<and> sv_inv sv' \<and> sv_should_stop sv' = sv_should_stop sv \<and>
        length responses = length (requests reads ps (conn_fds sv)))"
proof (induction ps arbitrary: sv)
  case Nil
  then show ?case by simp
next
  case (Cons p ps)
  let ?fd = "pfd_fd p"
  obtain now r where nr: "reads ?fd = (now, r)" by (cases "reads ?fd")
  have em: "cp_inv (sv_em sv)" using Cons.prems(1) by (simp add: sv_inv_def)
  have d: "distinct (map pfd_fd ps)" "?fd \<notin> pfd_fd ` set ps" using Cons.prems(2) by auto
  show ?case
  proof (cases "pfd_revents p \<noteq> 0 \<and> ?fd \<in> conn_fds sv")
    case False
    then have step: "process_active_connections env reads (p # ps) sv = process_active_connections env reads ps sv"
      by (auto simp: conn_fds_lookup Let_def)
    have req: "requests reads (p # ps) (conn_fds sv) = requests reads ps (conn_fds sv)"
      using False by auto
    show ?thesis unfolding step req by (rule Cons.IH [OF Cons.prems(1) d(1)])
  next
    case ready: True
    then obtain conn where conn: "map_of (sv_connections sv) ?fd = Some conn"
      by (auto simp: conn_fds_lookup)
    have fd: "c_fd conn = ?fd" by (rule sv_inv_lookup [OF Cons.prems(1) conn])
    show ?thesis
    proof (cases "request_of (reads ?fd)")
      case None
      then obtain e where "process_io (env\<lparr>env_now := now\<rparr>) r (sv_em sv) = Inr (Inl e, [], sv_em sv)"
        using process_io_request [where now = now and r = r and env = env and em = "sv_em sv"] by (auto simp: nr)
      then have step: "process_active_connections env reads (p # ps) sv =
          process_active_connections env reads ps (remove_connection ?fd sv)"
        using ready conn fd by (simp add: nr)
      note rm = sv_inv_remove [OF Cons.prems(1), of ?fd]
      have req: "requests reads (p # ps) (conn_fds sv) = requests reads ps (conn_fds (remove_connection ?fd sv))"
        using ready None requests_remove [OF d(2)] by (simp add: rm(2))
      show ?thesis
        using Cons.IH [OF rm(1) d(1)] unfolding step req by (simp only: rm(3,4))
    next
      case (Some c)
      then obtain args where args: "c = (now, args)"
        by (auto simp: request_of_def nr split: read_result.splits if_splits)
      have io: "process_io (env\<lparr>env_now := now\<rparr>) r (sv_em sv) =
          bindR (process_command (env\<lparr>env_now := now\<rparr>) args [] (sv_em sv)) (\<lambda>(response, em). Inr (Inr (), response, em))"
        using process_io_request [where now = now and r = r and env = env and em = "sv_em sv"] Some by (simp add: nr args)
      show ?thesis
      proof (cases "process_command (env\<lparr>env_now := now\<rparr>) args [] (sv_em sv)")
        case (Inl e)
        have "e = Relock"
          using process_io_cases [OF em, of "env\<lparr>env_now := now\<rparr>" r] by (simp add: io Inl)
        moreover have "requests reads (p # ps) (conn_fds sv) = (?fd, now, args) # requests reads ps (conn_fds sv)"
          using ready Some by (simp add: args)
        ultimately show ?thesis using ready conn by (simp add: nr io Inl)
      next
        case (Inr x)
        obtain response em' where x: "x = (response, em')" by (cases x)
        have em': "cp_inv em'"
          using process_io_cases [OF em, of "env\<lparr>env_now := now\<rparr>" r] by (simp add: io Inr x)
        have step: "process_active_connections env reads (p # ps) sv =
            bindR (process_active_connections env reads ps (sv\<lparr>sv_em := em'\<rparr>)) (\<lambda>(ws, sv).
              Inr ((?fd, response) # ws, sv))"
          using ready conn by (simp add: nr io Inr x)
        have req: "requests reads (p # ps) (conn_fds sv) = (?fd, now, args) # requests reads ps (conn_fds sv)"
          using ready Some by (simp add: args)
        show ?thesis
          unfolding step req
          using Cons.IH [OF sv_inv_em [OF Cons.prems(1) em'] d(1)]
          by (auto simp: Inr x split: sum.splits)
      qed
    qed
  qed
qed

section \<open>Executions of the main loop\<close>

lemma run_commands_append:
  "run_commands env (cs @ ds) em =
     bindR (run_commands env cs em) (\<lambda>(responses, em).
       bindR (run_commands env ds em) (\<lambda>(responses', em). Inr (responses @ responses', em)))"
  by (induction env cs em rule: run_commands.induct)
    (auto simp: bindR_def split: sum.splits)

lemma initialize_inv:
  assumes "initialize lc (server_new port) = (Inr (), sv)"
  shows "sv_inv sv" "sv_em sv = em_new" "\<not> sv_should_stop sv" "sv_connections sv = []"
    "sv_listen sv = lc_socket lc"
  using assms
  by (auto simp: initialize_def create_listen_socket_def server_new_def sv_inv_def conn_fds_def
      socket_assign_def socket_destroy_def Let_def split: if_splits sum.splits)

lemma sv_inv_stop: "sv_inv sv \<Longrightarrow> sv_inv (stop_server sv)"
  by (auto simp: sv_inv_def stop_server_def conn_fds_def)

lemma poll_fds:
  assumes "sv_inv sv"
  shows "distinct (map pfd_fd (tl (map (\<lambda>p. p\<lparr>pfd_revents := f (pfd_fd p)\<rparr>) (prepare_poll_args sv))))"
proof -
  have "map pfd_fd (tl (map (\<lambda>p. p\<lparr>pfd_revents := f (pfd_fd p)\<rparr>) (prepare_poll_args sv))) =
      map fst (sv_connections sv)"
    by (simp add: prepare_poll_args_def case_prod_unfold)
  then show ?thesis using assms by (simp add: sv_inv_def)
qed

text \<open>The commands of the reads of a round.\<close>

definition reads_from :: "round_input \<Rightarrow> int \<times> u64 \<times> string list \<Rightarrow> bool" where
  "reads_from r c = (request_of (rd_reads r (fst c)) = Some (snd c))"

lemma requests_reads_from:
  assumes "c \<in> set (requests (rd_reads r) ps conns)"
  shows "reads_from r c"
  using assms by (induction ps) (auto simp: reads_from_def split: if_splits option.splits)

lemma accept_new_connections_inv:
  assumes "accept_new_connections p rs sv = Some sv'" "sv_inv sv" "\<not> sv_should_stop sv" "fresh_accepts (sv_open sv) rs"
  shows "sv_inv sv' \<and> \<not> sv_should_stop sv' \<and> sv_em sv' = sv_em sv"
  using assms accept_loop_inv [of rs sv sv'] by (auto simp: accept_new_connections_def split: if_splits)

lemma run_round_run:
  assumes "run_round env r sv = Some (Inr (ws, sv'))" "sv_inv sv" "\<not> sv_should_stop sv"
    "fresh_accepts (sv_open sv) (rd_accepts r)"
  shows "sv_inv sv' \<and> (\<exists>cs. run_commands env (map snd cs) (sv_em sv) = Inr (map snd ws, sv_em sv') \<and>
    map fst cs = map fst ws \<and> list_all (reads_from r) cs)"
proof (cases "rd_stop r \<or> rd_ret r \<le> 0")
  case True
  then have "ws = []" "sv_em sv' = sv_em sv" "sv_inv sv'"
    using assms(1,2) sv_inv_stop [of sv] by (auto simp: run_round_def Let_def stop_server_def split: if_splits)
  then show ?thesis by (intro conjI exI [of _ "[]"]) simp_all
next
  case False
  let ?ps = "map (\<lambda>p. p\<lparr>pfd_revents := rd_revents r (pfd_fd p)\<rparr>) (prepare_poll_args sv)"
  obtain sv1 where sv1: "accept_new_connections (hd ?ps) (rd_accepts r) sv = Some sv1"
      "process_active_connections env (rd_reads r) (tl ?ps) sv1 = Inr (ws, sv')"
    using assms(1) False by (auto simp: run_round_def Let_def split: option.splits)
  note inv1 = accept_new_connections_inv [OF sv1(1) assms(2-4)]
  let ?cs = "requests (rd_reads r) (tl ?ps) (conn_fds sv1)"
  have "list_all (reads_from r) ?cs" by (auto simp: list_all_iff requests_reads_from)
  moreover obtain responses where "run_commands env (map snd ?cs) (sv_em sv1) = Inr (responses, sv_em sv')"
      "ws = zip (map fst ?cs) responses" "length responses = length ?cs" "sv_inv sv'"
    using process_active_connections_run [OF _ poll_fds [OF assms(2), of "rd_revents r"], of sv1 env "rd_reads r"] inv1 sv1(2)
    by (auto split: sum.splits)
  ultimately show ?thesis using inv1 by (intro conjI exI [of _ ?cs]) simp_all
qed

lemma run_commands_of:
  assumes "run env sv0 rs ws sv" "sv_inv sv0"
  shows "sv_inv sv \<and> (\<exists>cs. run_commands env (map snd cs) (sv_em sv0) = Inr (map snd ws, sv_em sv) \<and>
    map fst cs = map fst ws \<and> list_all (\<lambda>c. \<exists>r\<in>set rs. reads_from r c) cs)"
  using assms(1)
proof (induction rule: run.induct)
  case run_start
  then show ?case using assms(2) by (intro conjI exI [of _ "[]"]) simp_all
next
  case (run_next rs ws sv r ws' sv')
  obtain cs where cs: "run_commands env (map snd cs) (sv_em sv0) = Inr (map snd ws, sv_em sv)"
      "map fst cs = map fst ws" "list_all (\<lambda>c. \<exists>r\<in>set rs. reads_from r c) cs"
    using run_next.IH by blast
  obtain ds where ds: "run_commands env (map snd ds) (sv_em sv) = Inr (map snd ws', sv_em sv')"
      "map fst ds = map fst ws'" "list_all (reads_from r) ds" "sv_inv sv'"
    using run_round_run [OF run_next.hyps(4) _ run_next.hyps(2,3)] run_next.IH by blast
  have "run_commands env (map snd (cs @ ds)) (sv_em sv0) = Inr (map snd (ws @ ws'), sv_em sv')"
    using cs(1) ds(1) by (simp add: run_commands_append)
  moreover have "list_all (\<lambda>c. \<exists>r'\<in>set (rs @ [r]). reads_from r' c) (cs @ ds)"
    using cs(3) ds(3) by (auto simp: list_all_iff)
  ultimately show ?case
    using cs(2) ds(2,4) by (intro conjI exI [of _ "cs @ ds"]) simp_all
qed

lemma listen_connections [simp]:
  "sv_listen (add_connection conn sv) = sv_listen sv"
  "sv_listen (remove_connection fd sv) = sv_listen sv"
  by (simp_all add: add_connection_def remove_connection_def Let_def split: option.split)

lemma accept_loop_listen: "accept_loop rs sv = Some sv' \<Longrightarrow> sv_listen sv' = sv_listen sv"
  by (induction rs sv rule: accept_loop.induct) (auto simp: Let_def split: sum.splits)

lemma process_active_connections_listen:
  "process_active_connections env reads ps sv = Inr (ws, sv') \<Longrightarrow> sv_listen sv' = sv_listen sv"
proof (induction ps arbitrary: sv ws)
  case (Cons p ps)
  show ?case
    using Cons.prems
    by (auto simp: Let_def result_simps dest!: Cons.IH split: if_splits option.splits sum.splits prod.splits)
qed simp

lemma run_round_listen: "run_round env r sv = Some (Inr (ws, sv')) \<Longrightarrow> sv_listen sv' = sv_listen sv"
  by (auto simp: run_round_def accept_new_connections_def Let_def stop_server_def
      dest!: accept_loop_listen process_active_connections_listen split: if_splits option.splits)

section \<open>Properties\<close>


text \<open>
  C17: No descriptor leaks and none is closed twice: in every execution after a successful
  initialisation the descriptors the process has open are those of the connections and, until
  \<^verbatim>\<open>stop\<close>, the listening socket; every connection is stored under its own descriptor.
\<close>

theorem server_no_fd_leak:
  assumes "initialize lc (server_new port) = (Inr (), sv0)" and "run env sv0 rs ws sv"
  shows "sv_open sv = (if sv_should_stop sv then {} else {lc_socket lc}) \<union> fst ` set (sv_connections sv) \<and>
    lc_socket lc \<notin> fst ` set (sv_connections sv) \<and> distinct (map fst (sv_connections sv)) \<and>
    (\<forall>(fd, conn) \<in> set (sv_connections sv). c_fd conn = fd)"
proof -
  note init = initialize_inv [OF assms(1)]
  have "sv_listen sv = sv_listen sv0"
    using assms(2)
  proof (induction rule: run.induct)
    case (run_next rs ws sv r ws' sv')
    then show ?case using run_round_listen [OF run_next.hyps(4)] by simp
  qed simp
  then show ?thesis
    using run_commands_of [OF assms(2) init(1)] init(5)
    by (auto simp: sv_inv_def conn_fds_def list_all_iff)
qed


definition example_calls :: listen_calls where
  "example_calls = \<lparr>lc_socket = 3, lc_setsockopt = 0, lc_bind = (\<lambda>_. 0), lc_listen = 0, lc_getfl = Inr 2,
     lc_setfl = (\<lambda>_. None)\<rparr>"

text \<open>A first round in which a client connects, and a second in which it sends a request.\<close>

definition example_rounds :: "round_input list" where
  "example_rounds =
     [\<lparr>rd_stop = False, rd_ret = 1, rd_revents = (\<lambda>fd. if fd = 3 then 1 else 0),
       rd_accepts = [Accepted 4 0 (Inr 2) (\<lambda>_. None), AcceptError 11], rd_reads = (\<lambda>_. (0, ReadError 11))\<rparr>,
      \<lparr>rd_stop = False, rd_ret = 1, rd_revents = (\<lambda>fd. if fd = 4 then 1 else 0),
       rd_accepts = [], rd_reads = (\<lambda>_. (0, ReadData (to_bytes ''GET a '')))\<rparr>]"

definition example_server :: "(string, u64) avl_tree server" where
  "example_server = (server_new 1234)\<lparr>sv_listen := 3, sv_open := {3}\<rparr>"

definition example_server' :: "(string, u64) avl_tree server" where
  "example_server' = (server_new 1234)\<lparr>sv_listen := 3, sv_open := {3, 4},
     sv_connections := [(4, connection_new 4 0)]\<rparr>"

lemma example_initialize: "initialize example_calls (server_new 1234) = (Inr (), example_server)"
  by (simp add: initialize_def create_listen_socket_def example_calls_def server_new_def
      example_server_def set_nonblocking_def socket_assign_def socket_destroy_def)

lemma example_run: "run example_env example_server example_rounds [(4, [0])] example_server'"
proof -
  let ?r1 = "example_rounds ! 0" and ?r2 = "example_rounds ! 1"
  have io: "process_io example_env (ReadData (to_bytes ''GET a '')) em_new = Inr (Inr (), [0], em_new)"
    by (rule get_missing_io)
  have env: "example_env\<lparr>env_now := 0\<rparr> = example_env" by (simp add: example_env_def)
  have ins: "insert 4 {3 :: int} = {3, 4}" by auto
  have r1: "run_round example_env ?r1 example_server = Some (Inr ([], example_server'))"
    by (simp add: run_round_def example_rounds_def example_server_def example_server'_def ins
        prepare_poll_args_def server_new_def accept_new_connections_def POLLIN_def set_nonblocking_def
        add_connection_def connection_new_def)
  have r2: "run_round example_env ?r2 example_server' = Some (Inr ([(4, [0])], example_server'))"
    using io by (simp add: run_round_def example_rounds_def example_server_def example_server'_def env
        prepare_poll_args_def server_new_def accept_new_connections_def POLLIN_def connection_new_def)
  have ok: "fresh_accepts (sv_open example_server) (rd_accepts ?r1)" "fresh_accepts (sv_open example_server') (rd_accepts ?r2)"
    "\<not> sv_should_stop example_server" "\<not> sv_should_stop example_server'"
    by (simp_all add: example_rounds_def example_server_def example_server'_def server_new_def)
  note start = run.run_next [OF run.run_start ok(3,1) r1]
  have "([] @ [?r1]) @ [?r2] = example_rounds" by (simp add: example_rounds_def)
  then show ?thesis using run.run_next [OF start ok(4,2) r2] by simp
qed


theorem server_no_fd_leak_witness:
  "sv_open example_server' = {3} \<union> fst ` set (sv_connections example_server') \<and>
   \<not> sv_should_stop example_server' \<and> sv_connections example_server' \<noteq> []"
proof -
  have "\<not> sv_should_stop example_server'" "sv_connections example_server' \<noteq> []"
    by (simp_all add: example_server'_def server_new_def)
  moreover have "lc_socket example_calls = 3" by (simp add: example_calls_def)
  ultimately show ?thesis
    using server_no_fd_leak [OF example_initialize example_run] by simp
qed

text \<open>
  Every failing path of \<^verbatim>\<open>create_listen_socket\<close> closes the descriptor it made, each
  failing call has its error code, and success leaves exactly one more open descriptor.
\<close>

theorem create_listen_socket_correct:
  assumes "lc_socket lc \<notin> opened" and "- 1 \<le> lc_socket lc"
  shows "case create_listen_socket lc port opened of
      (Inl e, opened') \<Rightarrow> opened' = opened \<and>
        (e = bad_file_descriptor \<and> lc_socket lc < 0 \<or> e = invalid_argument \<and> lc_setsockopt lc < 0 \<or>
         e = address_in_use \<and> lc_bind lc port < 0 \<or> e = connection_refused \<and> lc_listen lc < 0 \<or>
         set_nonblocking (lc_getfl lc) (lc_setfl lc) = Inl e)
    | (Inr sock, opened') \<Rightarrow> sock = lc_socket lc \<and> 0 \<le> sock \<and> opened' = insert sock opened \<and>
        0 \<le> lc_bind lc port \<and> 0 \<le> lc_listen lc \<and> set_nonblocking (lc_getfl lc) (lc_setfl lc) = Inr ()"
  using assms by (auto simp: create_listen_socket_def socket_destroy_def Let_def split: sum.split)

theorem create_listen_socket_correct_witness:
  "create_listen_socket (example_calls\<lparr>lc_bind := \<lambda>_. - 1\<rparr>) 1234 {0, 1, 2} = (Inl address_in_use, {0, 1, 2}) \<and>
   create_listen_socket example_calls 1234 {0, 1, 2} = (Inr 3, {0, 1, 2, 3})"
proof -
  have "create_listen_socket (example_calls\<lparr>lc_bind := \<lambda>_. - 1\<rparr>) 1234 {0, 1, 2} = (Inl address_in_use, {0, 1, 2})"
    by (simp add: create_listen_socket_def example_calls_def socket_destroy_def)
  moreover have "fst (create_listen_socket example_calls 1234 {0, 1, 2}) = Inr 3"
    by (simp add: create_listen_socket_def example_calls_def set_nonblocking_def)
  ultimately show ?thesis
    using create_listen_socket_correct [of example_calls "{0, 1, 2}" 1234]
    by (cases "create_listen_socket example_calls 1234 {0, 1, 2}") (auto simp: example_calls_def)
qed

text \<open>
  The port is checked after its conversion to 16 bits: a number is accepted exactly when its
  residue modulo 65536 is at least 1024, and the server then listens on the residue.
\<close>

theorem main_port_wraps:
  assumes "stoi arg = Some v"
  shows "main_arguments [prog, arg] =
    (if 1024 \<le> v mod 65536 then Some (word_of_int (v mod 65536), 4) else None)"
proof -
  have "(word_of_int v :: u16) < 1024 \<longleftrightarrow> v mod 65536 < 1024"
    by (simp add: word_less_def uint_word_of_int)
  moreover have "unat (word_of_int v :: u16) \<le> 65535"
    using unsigned_less [of "word_of_int v :: u16", where ?'a = nat] by simp
  moreover have "(word_of_int (v mod 65536) :: u16) = word_of_int v"
    using word_uint_eq_iff [of "word_of_int (v mod 65536) :: u16" "word_of_int v"] by (simp add: uint_word_of_int)
  ultimately show ?thesis using assms by (auto simp: main_arguments_def Let_def)
qed

theorem main_port_wraps_witness:
  "stoi ''66560'' = Some 66560 \<and> main_arguments [''server'', ''66560''] = Some (1024, 4)"
proof -
  have "stoi ''66560'' = Some 66560"
    by (simp add: stoi_def stoll_def is_space_def is_digit_def split_sign_def digits_value_def)
  from main_port_wraps [OF this, of "''server''"] this show ?thesis by simp
qed

text \<open>
  The timers are never run.  If they were, an expired connection at the front of the idle list
  would be destroyed and then read again, since nothing takes it off the list.
\<close>

lemma process_timers_dangling:
  assumes "sv_inv (sv\<lparr>sv_idle := []\<rparr>)" "sv_idle sv = p # ps" "map_of (sv_connections sv) p = Some conn"
    "IDLE_TIMEOUT \<le> now - c_idle_start conn"
  shows "process_timers now sv = Inl Dangling"
proof -
  have p: "c_fd conn = p" using sv_inv_lookup(1) [OF assms(1), of p conn] assms(3) by simp
  have "process_timers now sv = process_timers now (remove_connection p sv)"
    using assms by (subst process_timers.simps) (simp add: p)
  also have "\<dots> = Inl Dangling"
  proof -
    have "map_of (filter (\<lambda>(k, _). k \<noteq> p) (sv_connections sv)) p = None"
      by (auto simp: map_of_eq_None_iff)
    then have "sv_idle (remove_connection p sv) = p # ps" "map_of (sv_connections (remove_connection p sv)) p = None"
      using assms by (simp_all add: remove_connection_def)
    then show ?thesis by (subst process_timers.simps) simp
  qed
  finally show ?thesis .
qed

end
