(* ===== verification/Raft_Log.thy ===== *)
theory Raft_Log
  imports Interfaces
begin

text \<open>
  The entry log of \<^verbatim>\<open>src/src/raft/raft.hpp\<close> (lines 838 to 1047): an array used as a ring, with
  the positions \<open>front\<close> and \<open>back\<close>, the number of its entries, and the index \<open>base\<close> up to which
  entries have been compacted away.  Indices, counts and terms are the C type \<^verbatim>\<open>int\<close>, taken as
  mathematical integers.

  Callbacks of the user are events: every operation returns the calls that it makes, in order.
  A callback that is not set makes no event.
\<close>

section \<open>Entries and callbacks\<close>

record raft_entry =
  ety_term :: int
  ety_id :: int
  ety_type :: int
  ety_data :: "u8 list"

text \<open>The members of \<^verbatim>\<open>raft_cbs_t\<close> that are set.\<close>

record raft_cbs =
  cb_send_requestvote :: bool
  cb_send_appendentries :: bool
  cb_applylog :: bool
  cb_persist_vote :: bool
  cb_persist_term :: bool
  cb_log_offer :: bool
  cb_log_poll :: bool
  cb_log_pop :: bool
  cb_node_has_sufficient_logs :: bool

datatype log_event = LogOffer raft_entry int | LogPoll raft_entry int | LogPop raft_entry int

section \<open>State\<close>

record raft_log =
  lg_size :: int
  lg_count :: int
  lg_front :: int
  lg_back :: int
  lg_base :: int
  lg_entries :: "raft_entry list"
  lg_cb :: "raft_cbs option"

definition INITIAL_CAPACITY :: int where
  "INITIAL_CAPACITY = 10"

text \<open>The entry that \<^verbatim>\<open>calloc\<close> makes.\<close>

definition entry_zero :: raft_entry where
  "entry_zero = \<lparr>ety_term = 0, ety_id = 0, ety_type = 0, ety_data = []\<rparr>"

definition log_new :: raft_log where
  "log_new = \<lparr>lg_size = INITIAL_CAPACITY, lg_count = 0, lg_front = 0, lg_back = 0, lg_base = 0,
     lg_entries = replicate (nat INITIAL_CAPACITY) entry_zero, lg_cb = None\<rparr>"

definition log_set_callbacks :: "raft_cbs \<Rightarrow> raft_log \<Rightarrow> raft_log" where
  "log_set_callbacks funcs me = me\<lparr>lg_cb := Some funcs\<rparr>"

text \<open>An event of a callback that is present.\<close>

definition log_call :: "(raft_cbs \<Rightarrow> bool) \<Rightarrow> log_event \<Rightarrow> raft_log \<Rightarrow> log_event list" where
  "log_call present ev me = (case lg_cb me of None \<Rightarrow> [] | Some cb \<Rightarrow> if present cb then [ev] else [])"

text \<open>Access to the array through an \<^verbatim>\<open>int\<close> index.\<close>

definition arr_at :: "'a list \<Rightarrow> int \<Rightarrow> 'a result" where
  "arr_at xs i = (if 0 \<le> i \<and> i < int (length xs) then Inr (xs ! nat i) else Inl OutOfBounds)"

definition arr_set :: "'a list \<Rightarrow> int \<Rightarrow> 'a \<Rightarrow> 'a list result" where
  "arr_set xs i x = (if 0 \<le> i \<and> i < int (length xs) then Inr (xs[nat i := x]) else Inl OutOfBounds)"

text \<open>The remainder of C, whose sign is that of the dividend.\<close>

definition c_rem :: "int \<Rightarrow> int \<Rightarrow> int" where
  "c_rem a b = sgn a * (\<bar>a\<bar> mod \<bar>b\<bar>)"

section \<open>Operations\<close>

text \<open>The copying loop of \<^verbatim>\<open>__raft__ensurecapacity\<close>: \<open>n\<close> entries from position \<open>j\<close> around the ring.\<close>

fun copy_ring :: "nat \<Rightarrow> int \<Rightarrow> raft_log \<Rightarrow> raft_entry list result" where
  "copy_ring 0 j me = Inr []"
| "copy_ring (Suc n) j me =
     (let j = (if j = lg_size me then 0 else j)
      in bindR (arr_at (lg_entries me) j) (\<lambda>e.
           bindR (copy_ring n (j + 1) me) (\<lambda>es. Inr (e # es))))"

definition ensurecapacity :: "raft_log \<Rightarrow> raft_log result" where
  "ensurecapacity me =
     (if lg_count me < lg_size me then Inr me
      else bindR (copy_ring (nat (lg_count me)) (lg_front me) me) (\<lambda>es.
        Inr (me\<lparr>lg_size := lg_size me * 2,
          lg_entries := es @ replicate (nat (lg_size me * 2) - length es) entry_zero,
          lg_front := 0, lg_back := lg_count me\<rparr>)))"

definition log_append_entry :: "raft_entry \<Rightarrow> raft_log \<Rightarrow> (int \<times> log_event list \<times> raft_log) result" where
  "log_append_entry c me =
     (if ety_id c = 0 then Inr (- 1, [], me)
      else bindR (ensurecapacity me) (\<lambda>me.
        bindR (arr_set (lg_entries me) (lg_back me) c) (\<lambda>es.
          Inr (0, log_call cb_log_offer (LogOffer c (lg_back me)) me,
            me\<lparr>lg_entries := es, lg_count := lg_count me + 1, lg_back := lg_back me + 1\<rparr>))))"

text \<open>
  The entries from an index: \<open>None\<close> is a null pointer with zero entries, otherwise the entries up
  to the end of the log or of the array.
\<close>

definition log_get_from_idx :: "int \<Rightarrow> raft_log \<Rightarrow> raft_entry list option result" where
  "log_get_from_idx idx me =
     (if \<not> 0 \<le> idx - 1 then Inl AssertFail
      else if lg_base me + lg_count me < idx \<or> idx < lg_base me then Inr None
      else let i = c_rem (lg_front me + (idx - 1) - lg_base me) (lg_size me);
               n = (if i < lg_back me then lg_back me - i else lg_size me - i)
           in if 0 \<le> i \<and> i + n \<le> int (length (lg_entries me))
              then Inr (Some (take (nat n) (drop (nat i) (lg_entries me))))
              else Inl OutOfBounds)"

definition log_get_at_idx :: "int \<Rightarrow> raft_log \<Rightarrow> raft_entry option result" where
  "log_get_at_idx idx me =
     (if \<not> 0 \<le> idx - 1 then Inl AssertFail
      else if lg_base me + lg_count me < idx \<or> idx < lg_base me then Inr None
      else let i = c_rem (lg_front me + (idx - 1) - lg_base me) (lg_size me)
           in bindR (arr_at (lg_entries me) i) (\<lambda>e. Inr (Some e)))"

definition log_count :: "raft_log \<Rightarrow> int" where
  "log_count me = lg_count me"

text \<open>The call of the callback \<^verbatim>\<open>log_pop\<close> with the last entry.\<close>

definition log_pop_call :: "raft_log \<Rightarrow> log_event list result" where
  "log_pop_call me =
     (if (case lg_cb me of None \<Rightarrow> False | Some cb \<Rightarrow> cb_log_pop cb)
      then bindR (arr_at (lg_entries me) (lg_back me - 1)) (\<lambda>e. Inr [LogPop e (lg_back me)])
      else Inr [])"

text \<open>The loop of \<^verbatim>\<open>log_delete\<close>, with the number of its iterations, fixed by its first line.\<close>

fun log_delete_loop :: "nat \<Rightarrow> raft_log \<Rightarrow> (log_event list \<times> raft_log) result" where
  "log_delete_loop 0 me = Inr ([], me)"
| "log_delete_loop (Suc n) me =
     bindR (log_pop_call me) (\<lambda>ev.
       bindR (log_delete_loop n (me\<lparr>lg_back := lg_back me - 1, lg_count := lg_count me - 1\<rparr>)) (\<lambda>(evs, me).
         Inr (ev @ evs, me)))"

definition log_delete :: "int \<Rightarrow> raft_log \<Rightarrow> (log_event list \<times> raft_log) result" where
  "log_delete idx me = log_delete_loop (nat (log_count me - (idx - 1 - lg_base me))) me"

definition log_poll :: "raft_log \<Rightarrow> (raft_entry option \<times> log_event list \<times> raft_log) result" where
  "log_poll me =
     (if log_count me = 0 then Inr (None, [], me)
      else bindR (arr_at (lg_entries me) (lg_front me)) (\<lambda>e.
        Inr (Some e, log_call cb_log_poll (LogPoll e (lg_front me)) me,
          me\<lparr>lg_front := lg_front me + 1, lg_count := lg_count me - 1, lg_base := lg_base me + 1\<rparr>)))"

definition log_peektail :: "raft_log \<Rightarrow> raft_entry option result" where
  "log_peektail me =
     (if log_count me = 0 then Inr None
      else bindR (arr_at (lg_entries me) (if lg_back me = 0 then lg_size me - 1 else lg_back me - 1)) (\<lambda>e.
        Inr (Some e)))"

definition log_empty :: "raft_log \<Rightarrow> raft_log" where
  "log_empty me = me\<lparr>lg_front := 0, lg_back := 0, lg_count := 0\<rparr>"

definition log_get_current_idx :: "raft_log \<Rightarrow> int" where
  "log_get_current_idx me = log_count me + lg_base me"

section \<open>Abstraction\<close>

text \<open>A log that has not wrapped around: its entries are a segment of the array.\<close>

definition lg_inv :: "raft_log \<Rightarrow> bool" where
  "lg_inv me \<longleftrightarrow> 0 < lg_size me \<and> int (length (lg_entries me)) = lg_size me \<and> 0 \<le> lg_front me \<and>
     0 \<le> lg_count me \<and> lg_back me = lg_front me + lg_count me \<and> lg_back me \<le> lg_size me \<and> 0 \<le> lg_base me"

definition lg_abs :: "raft_log \<Rightarrow> raft_entry list" where
  "lg_abs me = take (nat (lg_count me)) (drop (nat (lg_front me)) (lg_entries me))"

text \<open>The array has a place behind the last entry, or is completely used and will be enlarged.\<close>

definition lg_room :: "raft_log \<Rightarrow> bool" where
  "lg_room me \<longleftrightarrow> lg_back me < lg_size me \<or> lg_count me = lg_size me"

lemma length_lg_abs: "lg_inv me \<Longrightarrow> int (length (lg_abs me)) = lg_count me"
  by (auto simp: lg_inv_def lg_abs_def)

lemma arr_at_in [simp]: "0 \<le> i \<Longrightarrow> i < int (length xs) \<Longrightarrow> arr_at xs i = Inr (xs ! nat i)"
  by (simp add: arr_at_def)

lemma arr_set_in [simp]: "0 \<le> i \<Longrightarrow> i < int (length xs) \<Longrightarrow> arr_set xs i x = Inr (xs[nat i := x])"
  by (simp add: arr_set_def)

lemma c_rem_small: "0 \<le> a \<Longrightarrow> a < b \<Longrightarrow> c_rem a b = a"
  by (cases "a = 0") (simp_all add: c_rem_def)

lemma copy_ring_segment:
  assumes "int (length (lg_entries me)) = lg_size me"
  shows "0 \<le> j \<Longrightarrow> j + int n \<le> lg_size me \<Longrightarrow> copy_ring n j me = Inr (take n (drop (nat j) (lg_entries me)))"
proof (induction n arbitrary: j)
  case (Suc n)
  have j: "j < int (length (lg_entries me))" "nat j < length (lg_entries me)" "nat (j + 1) = Suc (nat j)"
    using Suc.prems assms by linarith+
  have "copy_ring (Suc n) j me = Inr (lg_entries me ! nat j # take n (drop (Suc (nat j)) (lg_entries me)))"
    using Suc.IH [of "j + 1"] Suc.prems j assms by simp
  then show ?case using Cons_nth_drop_Suc [OF j(2)] by (metis take_Suc_Cons)
qed simp

lemma ensurecapacity_ok:
  assumes "lg_inv me" "lg_room me"
  shows "\<exists>me'. ensurecapacity me = Inr me' \<and> lg_inv me' \<and> lg_abs me' = lg_abs me \<and> lg_back me' < lg_size me' \<and>
    lg_base me' = lg_base me \<and> lg_cb me' = lg_cb me \<and> lg_count me' = lg_count me \<and>
    (lg_front me = 0 \<longrightarrow> lg_front me' = 0)"
proof (cases "lg_count me < lg_size me")
  case True
  then show ?thesis using assms by (auto simp: ensurecapacity_def lg_room_def)
next
  case False
  then have full: "lg_count me = lg_size me" "lg_front me = 0"
    using assms by (auto simp: lg_inv_def)
  have "copy_ring (nat (lg_count me)) 0 me = Inr (lg_entries me)"
    using copy_ring_segment [of me 0 "nat (lg_count me)"] assms(1) full by (simp add: lg_inv_def)
  then show ?thesis
    using full assms(1) by (auto simp: ensurecapacity_def lg_inv_def lg_abs_def)
qed

lemma log_append_entry_ok:
  assumes "lg_inv me" "lg_room me" "ety_id c \<noteq> 0"
  shows "\<exists>v me'. log_append_entry c me = Inr (0, v, me') \<and> lg_inv me' \<and> lg_abs me' = lg_abs me @ [c] \<and>
    lg_base me' = lg_base me \<and> (lg_front me = 0 \<longrightarrow> lg_front me' = 0)"
proof -
  obtain me1 where me1: "ensurecapacity me = Inr me1" "lg_inv me1" "lg_abs me1 = lg_abs me" "lg_back me1 < lg_size me1"
      "lg_base me1 = lg_base me" "lg_front me = 0 \<longrightarrow> lg_front me1 = 0"
    using ensurecapacity_ok [OF assms(1,2)] by blast
  let ?f = "nat (lg_front me1)" and ?n = "nat (lg_count me1)"
  have pos: "nat (lg_back me1) = ?f + ?n" "?f + ?n < length (lg_entries me1)" "nat (lg_count me1 + 1) = Suc ?n"
    using me1(2,4) by (auto simp: lg_inv_def)
  have "take (Suc ?n) (drop ?f ((lg_entries me1)[?f + ?n := c])) = take ?n (drop ?f (lg_entries me1)) @ [c]"
    using pos(2) by (simp add: drop_update_swap take_Suc_conv_app_nth)
  then have "lg_abs (me1\<lparr>lg_entries := (lg_entries me1)[nat (lg_back me1) := c], lg_count := lg_count me1 + 1,
      lg_back := lg_back me1 + 1\<rparr>) = lg_abs me @ [c]"
    using me1(3) pos by (simp add: lg_abs_def)
  then show ?thesis
    using me1 assms(3) by (auto simp: log_append_entry_def lg_inv_def)
qed

lemma log_delete_loop_ok:
  "lg_inv me \<Longrightarrow> int n \<le> lg_count me \<Longrightarrow>
   \<exists>v. log_delete_loop n me = Inr (v, me\<lparr>lg_back := lg_back me - int n, lg_count := lg_count me - int n\<rparr>)"
proof (induction n arbitrary: me)
  case (Suc n)
  let ?me = "me\<lparr>lg_back := lg_back me - 1, lg_count := lg_count me - 1\<rparr>"
  have "lg_inv ?me" using Suc.prems by (auto simp: lg_inv_def)
  then obtain v where "log_delete_loop n ?me =
      Inr (v, ?me\<lparr>lg_back := lg_back ?me - int n, lg_count := lg_count ?me - int n\<rparr>)"
    using Suc.IH [of ?me] Suc.prems by auto
  moreover have "arr_at (lg_entries me) (lg_back me - 1) = Inr (lg_entries me ! nat (lg_back me - 1))"
    using Suc.prems by (intro arr_at_in) (auto simp: lg_inv_def)
  then obtain ev where "log_pop_call me = Inr ev"
    by (cases "case lg_cb me of None \<Rightarrow> False | Some cb \<Rightarrow> cb_log_pop cb") (simp_all add: log_pop_call_def)
  ultimately show ?case by (simp add: algebra_simps)
qed simp

lemma log_delete_ok:
  assumes "lg_inv me" "lg_base me < idx"
  shows "\<exists>v me'. log_delete idx me = Inr (v, me') \<and> lg_inv me' \<and>
    lg_abs me' = take (nat (idx - 1 - lg_base me)) (lg_abs me) \<and> lg_base me' = lg_base me \<and>
    lg_front me' = lg_front me"
proof -
  let ?n = "nat (log_count me - (idx - 1 - lg_base me))"
  have n: "int ?n \<le> lg_count me" using assms by (auto simp: log_count_def lg_inv_def)
  obtain v where v: "log_delete idx me =
      Inr (v, me\<lparr>lg_back := lg_back me - int ?n, lg_count := lg_count me - int ?n\<rparr>)"
    using log_delete_loop_ok [OF assms(1) n] by (auto simp: log_delete_def)
  have "nat (lg_count me - int ?n) = min (nat (lg_count me)) (nat (idx - 1 - lg_base me))"
    using assms by (auto simp: log_count_def lg_inv_def)
  then have "lg_abs (me\<lparr>lg_back := lg_back me - int ?n, lg_count := lg_count me - int ?n\<rparr>) =
      take (nat (idx - 1 - lg_base me)) (lg_abs me)"
    by (simp add: lg_abs_def min.commute)
  then show ?thesis using v assms n by (auto simp: lg_inv_def)
qed

lemma lg_position:
  assumes "lg_inv me" "lg_base me < idx" "idx \<le> lg_base me + lg_count me"
  shows "c_rem (lg_front me + (idx - 1) - lg_base me) (lg_size me) = lg_front me + (idx - 1 - lg_base me)"
  using assms by (subst c_rem_small) (auto simp: lg_inv_def)

lemma log_get_at_idx_ok:
  assumes "lg_inv me" "lg_base me < idx"
  shows "log_get_at_idx idx me = Inr (if idx \<le> lg_base me + lg_count me
    then Some (lg_abs me ! nat (idx - 1 - lg_base me)) else None)"
proof (cases "idx \<le> lg_base me + lg_count me")
  case True
  have "lg_abs me ! nat (idx - 1 - lg_base me) = lg_entries me ! nat (lg_front me + (idx - 1 - lg_base me))"
    using assms True by (auto simp: lg_abs_def lg_inv_def nat_add_distrib)
  then show ?thesis
    using assms True lg_position [OF assms True]
    by (simp add: log_get_at_idx_def Let_def lg_inv_def)
next
  case False
  then show ?thesis using assms by (simp add: log_get_at_idx_def lg_inv_def)
qed

lemma log_get_from_idx_ok:
  assumes "lg_inv me" "lg_base me < idx"
  shows "log_get_from_idx idx me = Inr (if idx \<le> lg_base me + lg_count me
    then Some (drop (nat (idx - 1 - lg_base me)) (lg_abs me)) else None)"
proof (cases "idx \<le> lg_base me + lg_count me")
  case True
  let ?k = "idx - 1 - lg_base me"
  have "drop (nat ?k) (lg_abs me) = take (nat (lg_count me - ?k)) (drop (nat (lg_front me + ?k)) (lg_entries me))"
    using assms True by (simp add: lg_abs_def lg_inv_def drop_take nat_diff_distrib nat_add_distrib add.commute)
  moreover have "lg_back me - (lg_front me + ?k) = lg_count me - ?k"
    using assms by (simp add: lg_inv_def)
  ultimately have seg: "drop (nat ?k) (lg_abs me) =
      take (nat (lg_back me - (lg_front me + ?k))) (drop (nat (lg_front me + ?k)) (lg_entries me))"
    by (simp only:)
  show ?thesis
    unfolding log_get_from_idx_def Let_def lg_position [OF assms True] seg
    using assms True by (simp add: lg_inv_def)
next
  case False
  then show ?thesis using assms by (simp add: log_get_from_idx_def lg_inv_def)
qed

section \<open>The log as a list\<close>

text \<open>The logs of a server, which never polls: nothing is compacted away.\<close>

definition lg_ok :: "raft_log \<Rightarrow> bool" where
  "lg_ok me \<longleftrightarrow> lg_inv me \<and> lg_base me = 0 \<and> lg_front me = 0"

lemma lg_ok_room: "lg_ok me \<Longrightarrow> lg_room me"
  by (auto simp: lg_ok_def lg_inv_def lg_room_def)

interpretation rl: indexed_log log_new lg_ok lg_abs "\<lambda>e. ety_id e \<noteq> 0" log_append_entry log_delete
  log_get_at_idx log_get_current_idx
proof unfold_locales
  show "lg_ok log_new" "lg_abs log_new = []"
    by (simp_all add: lg_ok_def lg_inv_def log_new_def lg_abs_def INITIAL_CAPACITY_def)
  fix l :: raft_log and e :: raft_entry and i :: int
  show "log_append_entry e l = Inr (- 1, [], l)" if "\<not> ety_id e \<noteq> 0"
    using that by (simp add: log_append_entry_def)
  assume ok: "lg_ok l"
  show "\<exists>v l'. log_append_entry e l = Inr (0, v, l') \<and> lg_ok l' \<and> lg_abs l' = lg_abs l @ [e]" if "ety_id e \<noteq> 0"
    using log_append_entry_ok [OF _ lg_ok_room [OF ok] that] ok by (auto simp: lg_ok_def)
  show "log_get_current_idx l = int (length (lg_abs l))"
    using length_lg_abs [of l] ok by (simp add: lg_ok_def log_get_current_idx_def log_count_def)
  assume i: "1 \<le> i"
  show "\<exists>v l'. log_delete i l = Inr (v, l') \<and> lg_ok l' \<and> lg_abs l' = take (nat (i - 1)) (lg_abs l)"
    using log_delete_ok [of l i] ok i by (auto simp: lg_ok_def)
  show "log_get_at_idx i l = Inr (if i \<le> int (length (lg_abs l)) then Some (lg_abs l ! nat (i - 1)) else None)"
    using log_get_at_idx_ok [of l i] length_lg_abs [of l] ok i by (simp add: lg_ok_def)
qed

section \<open>Properties\<close>

text \<open>Operations on a log, and the list they compute.\<close>

datatype log_op = OpAppend raft_entry | OpDelete int | OpPoll | OpEmpty

fun log_step :: "log_op \<Rightarrow> raft_log \<Rightarrow> raft_log result" where
  "log_step (OpAppend c) me = bindR (log_append_entry c me) (\<lambda>(_, _, me). Inr me)"
| "log_step (OpDelete idx) me = bindR (log_delete idx me) (\<lambda>(_, me). Inr me)"
| "log_step OpPoll me = bindR (log_poll me) (\<lambda>(_, _, me). Inr me)"
| "log_step OpEmpty me = Inr (log_empty me)"

fun log_steps :: "log_op list \<Rightarrow> raft_log \<Rightarrow> raft_log result" where
  "log_steps [] me = Inr me"
| "log_steps (p # ps) me = bindR (log_step p me) (log_steps ps)"

fun spec_step :: "log_op \<Rightarrow> raft_entry list \<Rightarrow> raft_entry list" where
  "spec_step (OpAppend c) es = (if ety_id c = 0 then es else es @ [c])"
| "spec_step (OpDelete idx) es = take (nat (idx - 1)) es"
| "spec_step OpPoll es = tl es"
| "spec_step OpEmpty es = []"

text \<open>The operations a server performs: it never polls and deletes from valid indices only.\<close>

fun server_op :: "log_op \<Rightarrow> bool" where
  "server_op (OpDelete idx) = (1 \<le> idx)"
| "server_op OpPoll = False"
| "server_op _ = True"

lemma log_step_refines:
  assumes "lg_ok me" "server_op p"
  shows "\<exists>me'. log_step p me = Inr me' \<and> lg_ok me' \<and> lg_abs me' = spec_step p (lg_abs me)"
proof (cases p)
  case (OpAppend c)
  show ?thesis
    using rl.append_valid [OF assms(1), of c] rl.append_invalid [of c me] assms(1)
    by (cases "ety_id c = 0") (auto simp: OpAppend)
next
  case (OpDelete idx)
  then show ?thesis using rl.delete_from [OF assms(1), of idx] assms(2) by auto
next
  case OpEmpty
  then show ?thesis using assms(1) by (simp add: log_empty_def lg_ok_def lg_inv_def lg_abs_def)
qed (use assms in simp)

lemma log_steps_refine:
  "lg_ok me \<Longrightarrow> list_all server_op ps \<Longrightarrow>
   \<exists>me'. log_steps ps me = Inr me' \<and> lg_ok me' \<and> lg_abs me' = fold spec_step ps (lg_abs me)"
proof (induction ps arbitrary: me)
  case (Cons p ps)
  obtain me1 where me1: "log_step p me = Inr me1" "lg_ok me1" "lg_abs me1 = spec_step p (lg_abs me)"
    using log_step_refines [OF Cons.prems(1), of p] Cons.prems(2) by auto
  then show ?case using Cons.IH [OF me1(2)] Cons.prems(2) by auto
qed simp

text \<open>
  C14: The ring refines a list: after any sequence of appends, deletions and clearings of a new
  log, every one of which returns, the entry at index \<open>i\<close>, the entries from \<open>i\<close> on and the current
  index are those of the list that the operations compute; enlarging the array loses nothing.
\<close>

theorem raft_log_refines_list:
  assumes "list_all server_op ps" and "1 \<le> i"
  shows "\<exists>me. log_steps ps log_new = Inr me \<and>
    (let es = fold spec_step ps []
     in log_get_current_idx me = int (length es) \<and>
        log_get_at_idx i me = Inr (if i \<le> int (length es) then Some (es ! nat (i - 1)) else None) \<and>
        log_get_from_idx i me = Inr (if i \<le> int (length es) then Some (drop (nat (i - 1)) es) else None))"
proof -
  obtain me where me: "log_steps ps log_new = Inr me" "lg_ok me" "lg_abs me = fold spec_step ps []"
    using log_steps_refine [OF rl.new_ok assms(1)] by (auto simp: rl.contents_new)
  then show ?thesis
    using rl.get_at [OF me(2) assms(2)] rl.current_length [OF me(2)] log_get_from_idx_ok [of me i]
      length_lg_abs [of me] assms(2)
    by (auto simp: lg_ok_def Let_def)
qed

definition example_entry :: "int \<Rightarrow> int \<Rightarrow> raft_entry" where
  "example_entry t i = \<lparr>ety_term = t, ety_id = i, ety_type = 0, ety_data = []\<rparr>"

theorem raft_log_refines_list_witness:
  "\<exists>me. log_steps (map (\<lambda>i. OpAppend (example_entry 1 i)) [1..12] @ [OpDelete 12]) log_new = Inr me \<and>
     log_get_current_idx me = 11 \<and> log_get_at_idx 11 me = Inr (Some (example_entry 1 11))"
proof -
  let ?ps = "map (\<lambda>i. OpAppend (example_entry 1 i)) [1..12] @ [OpDelete 12]"
  have "[1..12 :: int] = [1, 2, 3, 4, 5, 6, 7, 8, 9, 10, 11, 12]" by (simp add: upto.simps)
  then have ps: "fold spec_step ?ps [] = map (example_entry 1) [1, 2, 3, 4, 5, 6, 7, 8, 9, 10, 11]"
    by (simp add: example_entry_def)
  have "list_all server_op ?ps" by (simp add: list_all_iff)
  from raft_log_refines_list [OF this, of 11] show ?thesis unfolding ps Let_def by auto
qed

text \<open>
  A log that has been polled loses its place at the end of the array: when its last entry is
  in the last place and the array is not full, an append writes behind the array.  The position
  \<^verbatim>\<open>back\<close> is never wrapped around.
\<close>

theorem append_after_poll_overflows:
  assumes "lg_inv me" and "lg_back me = lg_size me" and "lg_count me < lg_size me" and "ety_id c \<noteq> 0"
  shows "log_append_entry c me = Inl OutOfBounds"
  using assms by (simp add: log_append_entry_def ensurecapacity_def arr_set_def lg_inv_def)

theorem append_after_poll_overflows_witness:
  "\<exists>me. log_steps (map (\<lambda>i. OpAppend (example_entry 1 i)) [1..10] @ [OpPoll]) log_new = Inr me \<and>
     log_append_entry (example_entry 1 11) me = Inl OutOfBounds"
proof -
  let ?es = "map (example_entry 1) [1, 2, 3, 4, 5, 6, 7, 8, 9, 10]"
  let ?me = "\<lparr>lg_size = 10, lg_count = 9, lg_front = 1, lg_back = 10, lg_base = 1, lg_entries = ?es, lg_cb = None\<rparr>"
  have "[1..10 :: int] = [1, 2, 3, 4, 5, 6, 7, 8, 9, 10]" by (simp add: upto.simps)
  then have "log_steps (map (\<lambda>i. OpAppend (example_entry 1 i)) [1..10] @ [OpPoll]) log_new = Inr ?me"
    by (simp add: log_append_entry_def ensurecapacity_def arr_set_def log_new_def INITIAL_CAPACITY_def
        example_entry_def numeral_eq_Suc log_poll_def arr_at_def log_count_def)
  moreover have "log_append_entry (example_entry 1 11) ?me = Inl OutOfBounds"
    by (rule append_after_poll_overflows) (simp_all add: lg_inv_def example_entry_def)
  ultimately show ?thesis by blast
qed

end
