(* ===== verification/Raft_Server.thy ===== *)
theory Raft_Server
  imports Raft_Log
begin

text \<open>
  The Raft server of \<^verbatim>\<open>src/src/raft/raft.hpp\<close> (lines 1048 to 2175) with its peers.  A pointer to
  a node is the number of its allocation; the nodes of the configuration are an association list
  from these numbers, in the order of the array.  The calls of the user's callbacks are recorded in
  \<open>rs_trace\<close>; callbacks are assumed not to call back into the server.  The debugging output of
  \<^verbatim>\<open>__raft__log\<close> is left out.  Terms, indices and times are mathematical integers.
\<close>

section \<open>Messages\<close>

record msg_requestvote =
  rv_term :: int
  rv_candidate_id :: int
  rv_last_log_idx :: int
  rv_last_log_term :: int

record msg_requestvote_response =
  rvr_term :: int
  rvr_vote_granted :: int

text \<open>\<^verbatim>\<open>n_entries\<close> is the length of the entries.\<close>

record msg_appendentries =
  ae_term :: int
  ae_prev_log_idx :: int
  ae_prev_log_term :: int
  ae_leader_commit :: int
  ae_entries :: "raft_entry list"

record msg_appendentries_response =
  aer_term :: int
  aer_success :: int
  aer_current_idx :: int
  aer_first_idx :: int

record msg_entry_response =
  mer_id :: int
  mer_term :: int
  mer_idx :: int

section \<open>Nodes\<close>

definition RAFT_NODE_VOTED_FOR_ME :: u32 where
  "RAFT_NODE_VOTED_FOR_ME = 1"

definition RAFT_NODE_VOTING :: u32 where
  "RAFT_NODE_VOTING = push_bit 1 1"

definition RAFT_NODE_HAS_SUFFICIENT_LOG :: u32 where
  "RAFT_NODE_HAS_SUFFICIENT_LOG = push_bit 2 1"

record raft_node =
  nd_next_idx :: int
  nd_match_idx :: int
  nd_flags :: u32
  nd_id :: int

definition raft_node_new :: "int \<Rightarrow> raft_node" where
  "raft_node_new nodeid = \<lparr>nd_next_idx = 1, nd_match_idx = 0, nd_flags = RAFT_NODE_VOTING, nd_id = nodeid\<rparr>"

definition raft_node_set_next_idx :: "int \<Rightarrow> raft_node \<Rightarrow> raft_node" where
  "raft_node_set_next_idx nextIdx me = me\<lparr>nd_next_idx := (if nextIdx < 1 then 1 else nextIdx)\<rparr>"

definition raft_node_set_match_idx :: "int \<Rightarrow> raft_node \<Rightarrow> raft_node" where
  "raft_node_set_match_idx matchIdx me = me\<lparr>nd_match_idx := matchIdx\<rparr>"

definition raft_node_vote_for_me :: "bool \<Rightarrow> raft_node \<Rightarrow> raft_node" where
  "raft_node_vote_for_me vote me =
     me\<lparr>nd_flags := (if vote then nd_flags me OR RAFT_NODE_VOTED_FOR_ME
                     else nd_flags me AND NOT RAFT_NODE_VOTED_FOR_ME)\<rparr>"

definition raft_node_has_vote_for_me :: "raft_node \<Rightarrow> bool" where
  "raft_node_has_vote_for_me me \<longleftrightarrow> nd_flags me AND RAFT_NODE_VOTED_FOR_ME \<noteq> 0"

text \<open>The macro has no parentheses: \<^verbatim>\<open>~RAFT_NODE_VOTING\<close> is \<^verbatim>\<open>~1 << 1\<close>.\<close>

definition raft_node_set_voting :: "bool \<Rightarrow> raft_node \<Rightarrow> raft_node" where
  "raft_node_set_voting voting me =
     me\<lparr>nd_flags := (if voting then nd_flags me OR RAFT_NODE_VOTING
                     else nd_flags me AND push_bit 1 (NOT 1))\<rparr>"

definition raft_node_is_voting :: "raft_node \<Rightarrow> bool" where
  "raft_node_is_voting me \<longleftrightarrow> nd_flags me AND RAFT_NODE_VOTING \<noteq> 0"

definition raft_node_set_has_sufficient_logs :: "raft_node \<Rightarrow> raft_node" where
  "raft_node_set_has_sufficient_logs me = me\<lparr>nd_flags := nd_flags me OR RAFT_NODE_HAS_SUFFICIENT_LOG\<rparr>"

definition raft_node_has_sufficient_logs :: "raft_node \<Rightarrow> bool" where
  "raft_node_has_sufficient_logs me \<longleftrightarrow> nd_flags me AND RAFT_NODE_HAS_SUFFICIENT_LOG \<noteq> 0"

section \<open>State\<close>

datatype raft_state = RAFT_STATE_NONE | RAFT_STATE_FOLLOWER | RAFT_STATE_CANDIDATE | RAFT_STATE_LEADER

definition RAFT_LOGTYPE_NORMAL :: int where
  "RAFT_LOGTYPE_NORMAL = 0"

definition RAFT_LOGTYPE_ADD_NONVOTING_NODE :: int where
  "RAFT_LOGTYPE_ADD_NONVOTING_NODE = 1"

definition RAFT_LOGTYPE_ADD_NODE :: int where
  "RAFT_LOGTYPE_ADD_NODE = 2"

definition RAFT_LOGTYPE_REMOVE_NODE :: int where
  "RAFT_LOGTYPE_REMOVE_NODE = 3"

datatype raft_event =
    SendRequestVote nat msg_requestvote
  | SendAppendEntries nat msg_appendentries
  | ApplyLog raft_entry
  | PersistVote int
  | PersistTerm int
  | LogEvent log_event
  | NodeHasSufficientLogs nat

record raft_server =
  rs_current_term :: int
  rs_voted_for :: int
  rs_log :: raft_log
  rs_commit_idx :: int
  rs_last_applied_idx :: int
  rs_state :: raft_state
  rs_timeout_elapsed :: int
  rs_nodes :: "(nat \<times> raft_node) list"
  rs_election_timeout :: int
  rs_request_timeout :: int
  rs_current_leader :: "nat option"
  rs_cb :: raft_cbs
  rs_node :: "nat option"
  rs_voting_cfg_change_log_idx :: int
  rs_allocated :: nat
  rs_trace :: "raft_event list"

definition rs_emit :: "bool \<Rightarrow> raft_event \<Rightarrow> raft_server \<Rightarrow> raft_server" where
  "rs_emit present ev me = (if present then me\<lparr>rs_trace := rs_trace me @ [ev]\<rparr> else me)"

definition no_cbs :: raft_cbs where
  "no_cbs = \<lparr>cb_send_requestvote = False, cb_send_appendentries = False, cb_applylog = False,
     cb_persist_vote = False, cb_persist_term = False, cb_log_offer = False, cb_log_poll = False,
     cb_log_pop = False, cb_node_has_sufficient_logs = False\<rparr>"

definition raft_set_state :: "raft_state \<Rightarrow> raft_server \<Rightarrow> raft_server" where
  "raft_set_state state me =
     (let me = (if state = RAFT_STATE_LEADER then me\<lparr>rs_current_leader := rs_node me\<rparr> else me)
      in me\<lparr>rs_state := state\<rparr>)"

definition raft_new :: raft_server where
  "raft_new = raft_set_state RAFT_STATE_FOLLOWER
     \<lparr>rs_current_term = 0, rs_voted_for = - 1, rs_log = log_new, rs_commit_idx = 0, rs_last_applied_idx = 0,
      rs_state = RAFT_STATE_NONE, rs_timeout_elapsed = 0, rs_nodes = [], rs_election_timeout = 1000,
      rs_request_timeout = 200, rs_current_leader = None, rs_cb = no_cbs, rs_node = None,
      rs_voting_cfg_change_log_idx = - 1, rs_allocated = 0, rs_trace = []\<rparr>"

definition raft_set_callbacks :: "raft_cbs \<Rightarrow> raft_server \<Rightarrow> raft_server" where
  "raft_set_callbacks funcs me = me\<lparr>rs_cb := funcs, rs_log := log_set_callbacks funcs (rs_log me)\<rparr>"

text \<open>Access through a pointer to a node.\<close>

definition node_at :: "nat option \<Rightarrow> raft_server \<Rightarrow> raft_node result" where
  "node_at p me =
     (case p of
        None \<Rightarrow> Inl NullDeref
      | Some a \<Rightarrow> (case map_of (rs_nodes me) a of None \<Rightarrow> Inl Dangling | Some n \<Rightarrow> Inr n))"

definition node_update :: "nat \<Rightarrow> (raft_node \<Rightarrow> raft_node) \<Rightarrow> raft_server \<Rightarrow> raft_server" where
  "node_update a f me =
     me\<lparr>rs_nodes := map (\<lambda>(b, n). if b = a then (b, f n) else (b, n)) (rs_nodes me)\<rparr>"

section \<open>Properties of the server\<close>

definition raft_get_num_nodes :: "raft_server \<Rightarrow> int" where
  "raft_get_num_nodes me = int (length (rs_nodes me))"

definition raft_get_nodeid :: "raft_server \<Rightarrow> int result" where
  "raft_get_nodeid me = bindR (node_at (rs_node me) me) (\<lambda>n. Inr (nd_id n))"

definition raft_get_current_idx :: "raft_server \<Rightarrow> int" where
  "raft_get_current_idx me = log_get_current_idx (rs_log me)"

definition raft_get_log_count :: "raft_server \<Rightarrow> int" where
  "raft_get_log_count me = log_count (rs_log me)"

definition raft_get_entry_from_idx :: "int \<Rightarrow> raft_server \<Rightarrow> raft_entry option result" where
  "raft_get_entry_from_idx etyidx me = log_get_at_idx etyidx (rs_log me)"

definition raft_get_entries_from_idx :: "int \<Rightarrow> raft_server \<Rightarrow> raft_entry list option result" where
  "raft_get_entries_from_idx idx me = log_get_from_idx idx (rs_log me)"

definition raft_get_last_log_term :: "raft_server \<Rightarrow> int result" where
  "raft_get_last_log_term me =
     (if 0 < raft_get_current_idx me then
        bindR (raft_get_entry_from_idx (raft_get_current_idx me) me) (\<lambda>e.
          Inr (case e of Some ety \<Rightarrow> ety_term ety | None \<Rightarrow> 0))
      else Inr 0)"

definition raft_set_current_term :: "int \<Rightarrow> raft_server \<Rightarrow> raft_server" where
  "raft_set_current_term term me =
     (if rs_current_term me < term
      then rs_emit (cb_persist_term (rs_cb me)) (PersistTerm term)
             (me\<lparr>rs_current_term := term, rs_voted_for := - 1\<rparr>)
      else me)"

definition raft_set_commit_idx :: "int \<Rightarrow> raft_server \<Rightarrow> raft_server result" where
  "raft_set_commit_idx idx me =
     (if rs_commit_idx me \<le> idx \<and> idx \<le> raft_get_current_idx me
      then Inr (me\<lparr>rs_commit_idx := idx\<rparr>) else Inl AssertFail)"

definition raft_set_last_applied_idx :: "int \<Rightarrow> raft_server \<Rightarrow> raft_server" where
  "raft_set_last_applied_idx idx me = me\<lparr>rs_last_applied_idx := idx\<rparr>"

definition raft_set_election_timeout :: "int \<Rightarrow> raft_server \<Rightarrow> raft_server" where
  "raft_set_election_timeout millisec me = me\<lparr>rs_election_timeout := millisec\<rparr>"

definition raft_set_request_timeout :: "int \<Rightarrow> raft_server \<Rightarrow> raft_server" where
  "raft_set_request_timeout millisec me = me\<lparr>rs_request_timeout := millisec\<rparr>"

definition raft_get_node :: "int \<Rightarrow> raft_server \<Rightarrow> nat option" where
  "raft_get_node nodeid me = map_option fst (List.find (\<lambda>(_, n). nodeid = nd_id n) (rs_nodes me))"

definition raft_get_node_from_idx :: "int \<Rightarrow> raft_server \<Rightarrow> nat result" where
  "raft_get_node_from_idx idx me = bindR (arr_at (rs_nodes me) idx) (\<lambda>(a, _). Inr a)"

definition raft_get_current_leader :: "raft_server \<Rightarrow> int result" where
  "raft_get_current_leader me =
     (case rs_current_leader me of
        None \<Rightarrow> Inr (- 1)
      | Some a \<Rightarrow> bindR (node_at (Some a) me) (\<lambda>n. Inr (nd_id n)))"

definition raft_is_leader :: "raft_server \<Rightarrow> bool" where
  "raft_is_leader me \<longleftrightarrow> rs_state me = RAFT_STATE_LEADER"

definition raft_is_candidate :: "raft_server \<Rightarrow> bool" where
  "raft_is_candidate me \<longleftrightarrow> rs_state me = RAFT_STATE_CANDIDATE"

definition raft_is_follower :: "raft_server \<Rightarrow> bool" where
  "raft_is_follower me \<longleftrightarrow> rs_state me = RAFT_STATE_FOLLOWER"

definition raft_entry_is_voting_cfg_change :: "raft_entry \<Rightarrow> bool" where
  "raft_entry_is_voting_cfg_change ety \<longleftrightarrow>
     RAFT_LOGTYPE_ADD_NODE = ety_type ety \<or> RAFT_LOGTYPE_REMOVE_NODE = ety_type ety"

definition raft_entry_is_cfg_change :: "raft_entry \<Rightarrow> bool" where
  "raft_entry_is_cfg_change ety \<longleftrightarrow>
     RAFT_LOGTYPE_ADD_NODE = ety_type ety \<or> RAFT_LOGTYPE_ADD_NONVOTING_NODE = ety_type ety \<or>
     RAFT_LOGTYPE_REMOVE_NODE = ety_type ety"

section \<open>Sending\<close>

definition raft_send_requestvote :: "nat \<Rightarrow> raft_server \<Rightarrow> raft_server result" where
  "raft_send_requestvote node me =
     (if Some node = rs_node me then Inl AssertFail
      else bindR (raft_get_last_log_term me) (\<lambda>last_log_term.
        bindR (raft_get_nodeid me) (\<lambda>candidate_id.
          Inr (rs_emit (cb_send_requestvote (rs_cb me))
            (SendRequestVote node \<lparr>rv_term = rs_current_term me, rv_candidate_id = candidate_id,
               rv_last_log_idx = raft_get_current_idx me, rv_last_log_term = last_log_term\<rparr>) me))))"

definition raft_send_appendentries :: "nat \<Rightarrow> raft_server \<Rightarrow> (int \<times> raft_server) result" where
  "raft_send_appendentries node me =
     (if Some node = rs_node me then Inl AssertFail
      else if \<not> cb_send_appendentries (rs_cb me) then Inr (- 1, me)
      else bindR (node_at (Some node) me) (\<lambda>n.
        let next_idx = nd_next_idx n
        in bindR (raft_get_entries_from_idx next_idx me) (\<lambda>entries.
             bindR (if 1 < next_idx then raft_get_entry_from_idx (next_idx - 1) me else Inr None) (\<lambda>prev_ety.
               let ae = \<lparr>ae_term = rs_current_term me,
                     ae_prev_log_idx = (if 1 < next_idx then next_idx - 1 else 0),
                     ae_prev_log_term = (case prev_ety of Some e \<Rightarrow> ety_term e | None \<Rightarrow> 0),
                     ae_leader_commit = rs_commit_idx me,
                     ae_entries = (case entries of Some es \<Rightarrow> es | None \<Rightarrow> [])\<rparr>
               in Inr (0, rs_emit True (SendAppendEntries node ae) me)))))"

text \<open>A loop over the array of nodes; \<open>body\<close> gets the pointer, and reads the node itself.\<close>

fun for_nodes :: "(nat \<Rightarrow> raft_server \<Rightarrow> raft_server result) \<Rightarrow> nat list \<Rightarrow> raft_server \<Rightarrow> raft_server result" where
  "for_nodes body [] me = Inr me"
| "for_nodes body (a # as) me = bindR (body a me) (for_nodes body as)"

definition node_ptrs :: "raft_server \<Rightarrow> nat list" where
  "node_ptrs me = map fst (rs_nodes me)"

definition raft_send_appendentries_all :: "raft_server \<Rightarrow> raft_server result" where
  "raft_send_appendentries_all me =
     (let me = me\<lparr>rs_timeout_elapsed := 0\<rparr>
      in for_nodes (\<lambda>a me.
           if rs_node me \<noteq> Some a then bindR (raft_send_appendentries a me) (\<lambda>(_, me). Inr me) else Inr me)
         (node_ptrs me) me)"

section \<open>Votes and roles\<close>

definition raft_vote_for_nodeid :: "int \<Rightarrow> raft_server \<Rightarrow> raft_server" where
  "raft_vote_for_nodeid nodeid me =
     rs_emit (cb_persist_vote (rs_cb me)) (PersistVote nodeid) (me\<lparr>rs_voted_for := nodeid\<rparr>)"

definition raft_vote :: "nat option \<Rightarrow> raft_server \<Rightarrow> raft_server result" where
  "raft_vote node me =
     (case node of
        None \<Rightarrow> Inr (raft_vote_for_nodeid (- 1) me)
      | Some a \<Rightarrow> bindR (node_at (Some a) me) (\<lambda>n. Inr (raft_vote_for_nodeid (nd_id n) me)))"

definition raft_get_nvotes_for_me :: "raft_server \<Rightarrow> int result" where
  "raft_get_nvotes_for_me me =
     (let votes = int (length (filter (\<lambda>(a, n). rs_node me \<noteq> Some a \<and> raft_node_is_voting n \<and>
                                          raft_node_has_vote_for_me n) (rs_nodes me)))
      in bindR (raft_get_nodeid me) (\<lambda>nodeid. Inr (if rs_voted_for me = nodeid then votes + 1 else votes)))"

text \<open>\<^verbatim>\<open>/\<close> on non-negative integers.\<close>

definition raft_votes_is_majority :: "int \<Rightarrow> int \<Rightarrow> bool" where
  "raft_votes_is_majority num_nodes nvotes =
     (if num_nodes < nvotes then False else num_nodes div 2 + 1 \<le> nvotes)"

definition raft_become_follower :: "raft_server \<Rightarrow> raft_server" where
  "raft_become_follower me = raft_set_state RAFT_STATE_FOLLOWER me"

definition raft_become_leader :: "raft_server \<Rightarrow> raft_server result" where
  "raft_become_leader me =
     (let me = raft_set_state RAFT_STATE_LEADER me
      in for_nodes (\<lambda>a me.
           bindR (node_at (Some a) me) (\<lambda>n.
             if rs_node me = Some a \<or> \<not> raft_node_is_voting n then Inr me
             else let me = node_update a (\<lambda>n. raft_node_set_match_idx 0
                        (raft_node_set_next_idx (raft_get_current_idx me + 1) n)) me
                  in bindR (raft_send_appendentries a me) (\<lambda>(_, me). Inr me)))
         (node_ptrs me) me)"

text \<open>\<open>rnd\<close> is the result of \<^verbatim>\<open>rand() % election_timeout\<close>.\<close>

definition raft_become_candidate :: "int \<Rightarrow> raft_server \<Rightarrow> raft_server result" where
  "raft_become_candidate rnd me =
     (let me = raft_set_current_term (rs_current_term me + 1) me;
          me = me\<lparr>rs_nodes := map (\<lambda>(a, n). (a, raft_node_vote_for_me False n)) (rs_nodes me)\<rparr>
      in bindR (raft_vote (rs_node me) me) (\<lambda>me.
           let me = raft_set_state RAFT_STATE_CANDIDATE (me\<lparr>rs_current_leader := None\<rparr>);
               me = me\<lparr>rs_timeout_elapsed := rnd\<rparr>
           in for_nodes (\<lambda>a me.
                bindR (node_at (Some a) me) (\<lambda>n.
                  if rs_node me \<noteq> Some a \<and> raft_node_is_voting n then raft_send_requestvote a me else Inr me))
              (node_ptrs me) me))"

definition raft_election_start :: "int \<Rightarrow> raft_server \<Rightarrow> raft_server result" where
  "raft_election_start rnd me = raft_become_candidate rnd me"

section \<open>Applying entries\<close>

definition raft_apply_entry :: "raft_server \<Rightarrow> (int \<times> raft_server) result" where
  "raft_apply_entry me =
     (if rs_last_applied_idx me = rs_commit_idx me then Inr (- 1, me)
      else let log_idx = rs_last_applied_idx me + 1
        in bindR (raft_get_entry_from_idx log_idx me) (\<lambda>e.
             case e of
               None \<Rightarrow> Inr (- 1, me)
             | Some e \<Rightarrow>
                 let me = rs_emit (cb_applylog (rs_cb me)) (ApplyLog e) (me\<lparr>rs_last_applied_idx := log_idx\<rparr>);
                     me = (if log_idx = rs_voting_cfg_change_log_idx me
                           then me\<lparr>rs_voting_cfg_change_log_idx := - 1\<rparr> else me)
                 in Inr (0, me)))"

partial_function (option) raft_apply_all :: "raft_server \<Rightarrow> raft_server result option" where
  "raft_apply_all me =
     (if rs_last_applied_idx me < rs_commit_idx me then
        (case raft_apply_entry me of
           Inl e \<Rightarrow> Some (Inl e)
         | Inr (_, me) \<Rightarrow> raft_apply_all me)
      else Some (Inr me))"

definition raft_periodic :: "int \<Rightarrow> int \<Rightarrow> raft_server \<Rightarrow> (int \<times> raft_server) result" where
  "raft_periodic rnd msec_since_last_period me =
     (let me = me\<lparr>rs_timeout_elapsed := rs_timeout_elapsed me + msec_since_last_period\<rparr>
      in bindR
           (if rs_state me = RAFT_STATE_LEADER then
              if rs_request_timeout me \<le> rs_timeout_elapsed me then raft_send_appendentries_all me else Inr me
            else if rs_election_timeout me \<le> rs_timeout_elapsed me then
              if 1 < raft_get_num_nodes me then raft_election_start rnd me else Inr me
            else Inr me)
           (\<lambda>me.
              if rs_last_applied_idx me < rs_commit_idx me then
                bindR (raft_apply_entry me) (\<lambda>(r, me). if r = - 1 then Inr (- 1, me) else Inr (0, me))
              else Inr (0, me)))"

section \<open>Appending entries\<close>

definition raft_append_entry :: "raft_entry \<Rightarrow> raft_server \<Rightarrow> (int \<times> raft_server) result" where
  "raft_append_entry ety me =
     (let me = (if raft_entry_is_voting_cfg_change ety
                then me\<lparr>rs_voting_cfg_change_log_idx := raft_get_current_idx me\<rparr> else me)
      in bindR (log_append_entry ety (rs_log me)) (\<lambda>(r, evs, log).
           Inr (r, me\<lparr>rs_log := log, rs_trace := rs_trace me @ map LogEvent evs\<rparr>)))"

definition raft_log_delete :: "int \<Rightarrow> raft_server \<Rightarrow> raft_server result" where
  "raft_log_delete idx me =
     bindR (log_delete idx (rs_log me)) (\<lambda>(evs, log).
       Inr (me\<lparr>rs_log := log, rs_trace := rs_trace me @ map LogEvent evs\<rparr>))"

definition raft_recv_entry :: "raft_entry \<Rightarrow> raft_server \<Rightarrow> (int \<times> msg_entry_response option \<times> raft_server) result" where
  "raft_recv_entry e me =
     (if raft_entry_is_voting_cfg_change e \<and> rs_voting_cfg_change_log_idx me \<noteq> - 1 then Inr (- 1, None, me)
      else if \<not> raft_is_leader me then Inr (- 1, None, me)
      else bindR (raft_append_entry (e\<lparr>ety_term := rs_current_term me\<rparr>) me) (\<lambda>(_, me).
        bindR (for_nodes (\<lambda>a me.
            bindR (node_at (Some a) me) (\<lambda>n.
              if rs_node me = Some a \<or> \<not> raft_node_is_voting n then Inr me
              else if nd_next_idx n = raft_get_current_idx me
                   then bindR (raft_send_appendentries a me) (\<lambda>(_, me). Inr me)
                   else Inr me))
            (node_ptrs me) me) (\<lambda>me.
          let me = (if raft_get_num_nodes me = 1 then me\<lparr>rs_commit_idx := raft_get_current_idx me\<rparr> else me);
              r = \<lparr>mer_id = ety_id e, mer_term = rs_current_term me, mer_idx = raft_get_current_idx me\<rparr>;
              me = (if raft_entry_is_voting_cfg_change e
                    then me\<lparr>rs_voting_cfg_change_log_idx := raft_get_current_idx me\<rparr> else me)
          in Inr (0, Some r, me))))"

text \<open>
  The first loop of \<^verbatim>\<open>raft_recv_appendentries\<close> over the entries from number \<open>i\<close> on: the entries
  left for the second loop, the response's \<open>current_idx\<close>, and the server, where a conflicting
  suffix has been deleted.
\<close>

fun ae_match_loop :: "int \<Rightarrow> raft_entry list \<Rightarrow> int \<Rightarrow> raft_server \<Rightarrow> (raft_entry list \<times> int \<times> raft_server) result" where
  "ae_match_loop ety_index [] current_idx me = Inr ([], current_idx, me)"
| "ae_match_loop ety_index (ety # etys) current_idx me =
     bindR (raft_get_entry_from_idx ety_index me) (\<lambda>existing_ety.
       case existing_ety of
         Some ex \<Rightarrow>
           if ety_term ex \<noteq> ety_term ety then
             if rs_commit_idx me < ety_index
             then bindR (raft_log_delete ety_index me) (\<lambda>me. Inr (ety # etys, ety_index, me))
             else Inl AssertFail
           else ae_match_loop (ety_index + 1) etys ety_index me
       | None \<Rightarrow> Inr (ety # etys, ety_index, me))"

text \<open>The second loop appends the rest; \<open>False\<close> when an append fails.\<close>

fun ae_append_loop :: "int \<Rightarrow> raft_entry list \<Rightarrow> int \<Rightarrow> raft_server \<Rightarrow> (bool \<times> int \<times> raft_server) result" where
  "ae_append_loop ety_index [] current_idx me = Inr (True, current_idx, me)"
| "ae_append_loop ety_index (ety # etys) current_idx me =
     bindR (raft_append_entry ety me) (\<lambda>(e, me).
       if e = - 1 then Inr (False, current_idx, me)
       else ae_append_loop (ety_index + 1) etys ety_index me)"

definition ae_fail :: "int \<Rightarrow> int \<Rightarrow> raft_server \<Rightarrow> (int \<times> msg_appendentries_response \<times> raft_server) result" where
  "ae_fail term current_idx me =
     Inr (- 1, \<lparr>aer_term = term, aer_success = 0, aer_current_idx = current_idx, aer_first_idx = 0\<rparr>, me)"

text \<open>Lines 1515 to 1566: everything after the check of the previous entry.\<close>

definition ae_accept :: "nat option \<Rightarrow> msg_appendentries \<Rightarrow> int \<Rightarrow> raft_server \<Rightarrow>
    (int \<times> msg_appendentries_response \<times> raft_server) result" where
  "ae_accept node ae term me =
     bindR
       (if ae_entries ae = [] \<and> 0 < ae_prev_log_idx ae \<and> ae_prev_log_idx ae + 1 < raft_get_current_idx me then
          if rs_commit_idx me < ae_prev_log_idx ae + 1 then raft_log_delete (ae_prev_log_idx ae + 1) me
          else Inl AssertFail
        else Inr me) (\<lambda>me.
     bindR (ae_match_loop (ae_prev_log_idx ae + 1) (ae_entries ae) (ae_prev_log_idx ae) me) (\<lambda>(etys, current_idx, me).
     bindR (ae_append_loop (ae_prev_log_idx ae + 1 + int (length (ae_entries ae) - length etys)) etys current_idx me)
       (\<lambda>(ok, current_idx, me).
     if \<not> ok then ae_fail term (raft_get_current_idx me) me
     else
       bindR
         (if rs_commit_idx me < ae_leader_commit ae then
            let last_log_idx = max (raft_get_current_idx me) 1
            in raft_set_commit_idx (min last_log_idx (ae_leader_commit ae)) me
          else Inr me) (\<lambda>me.
       Inr (0, \<lparr>aer_term = term, aer_success = 1, aer_current_idx = current_idx,
              aer_first_idx = ae_prev_log_idx ae + 1\<rparr>,
            me\<lparr>rs_current_leader := node\<rparr>)))))"

text \<open>Lines 1465 to 1484: the term of the response and the change of role.\<close>

definition ae_role :: "msg_appendentries \<Rightarrow> raft_server \<Rightarrow> int \<times> raft_server" where
  "ae_role ae me =
     (if raft_is_candidate me \<and> rs_current_term me = ae_term ae
      then (rs_current_term me, raft_become_follower (me\<lparr>rs_voted_for := - 1\<rparr>))
      else if rs_current_term me < ae_term ae
      then (ae_term ae, raft_become_follower (raft_set_current_term (ae_term ae) me))
      else (rs_current_term me, me))"

definition raft_recv_appendentries :: "nat option \<Rightarrow> msg_appendentries \<Rightarrow> raft_server \<Rightarrow>
    (int \<times> msg_appendentries_response \<times> raft_server) result" where
  "raft_recv_appendentries node ae me =
     (let stale = (ae_term ae < rs_current_term me);
          (term, me) = ae_role ae (me\<lparr>rs_timeout_elapsed := 0\<rparr>)
      in if stale then ae_fail term (raft_get_current_idx me) me
         else if 0 < ae_prev_log_idx ae then
           bindR (raft_get_entry_from_idx (ae_prev_log_idx ae) me) (\<lambda>e.
             case e of
               None \<Rightarrow> ae_fail term (raft_get_current_idx me) me
             | Some e \<Rightarrow>
                 if raft_get_current_idx me < ae_prev_log_idx ae then ae_fail term (raft_get_current_idx me) me
                 else if ety_term e \<noteq> ae_prev_log_term ae then
                   if rs_commit_idx me < ae_prev_log_idx ae
                   then bindR (raft_log_delete (ae_prev_log_idx ae) me) (\<lambda>me.
                          ae_fail term (ae_prev_log_idx ae - 1) me)
                   else Inl AssertFail
                 else ae_accept node ae term me)
         else ae_accept node ae term me)"

section \<open>Responses to appended entries\<close>

text \<open>The vote count of lines 1414 to 1430.\<close>

fun count_matches :: "int \<Rightarrow> (nat \<times> raft_node) list \<Rightarrow> int \<Rightarrow> raft_server \<Rightarrow> int result" where
  "count_matches point [] votes me = Inr votes"
| "count_matches point ((a, n) # ns) votes me =
     (if rs_node me = Some a \<or> \<not> raft_node_is_voting n then count_matches point ns votes me
      else if 0 < nd_match_idx n then
        bindR (raft_get_entry_from_idx (nd_match_idx n) me) (\<lambda>e.
          case e of
            None \<Rightarrow> Inl NullDeref
          | Some ety \<Rightarrow> count_matches point ns
              (if ety_term ety = rs_current_term me \<and> point \<le> nd_match_idx n then votes + 1 else votes) me)
      else count_matches point ns votes me)"

text \<open>Lines 1397 to 1441: the node \<open>a\<close> has acknowledged the entries up to an index.\<close>

definition aer_acknowledged :: "nat \<Rightarrow> msg_appendentries_response \<Rightarrow> raft_server \<Rightarrow> (int \<times> raft_server) result" where
  "aer_acknowledged a r me =
     (if \<not> aer_current_idx r \<le> raft_get_current_idx me then Inl AssertFail
      else
        let me = node_update a (\<lambda>n. raft_node_set_match_idx (aer_current_idx r)
                   (raft_node_set_next_idx (aer_current_idx r + 1) n)) me
        in bindR (node_at (Some a) me) (\<lambda>n.
           let me = (if \<not> raft_node_is_voting n \<and> rs_voting_cfg_change_log_idx me = - 1 \<and>
                        raft_get_current_idx me \<le> aer_current_idx r + 1 \<and>
                        cb_node_has_sufficient_logs (rs_cb me) \<and> \<not> raft_node_has_sufficient_logs n
                     then rs_emit True (NodeHasSufficientLogs a)
                            (node_update a raft_node_set_has_sufficient_logs me)
                     else me);
               point = aer_current_idx r
           in bindR (count_matches point (rs_nodes me) 1 me) (\<lambda>votes.
              bindR (if raft_get_num_nodes me div 2 < votes \<and> rs_commit_idx me < point
                     then raft_set_commit_idx point me else Inr me) (\<lambda>me.
              bindR (raft_get_entry_from_idx (nd_next_idx n) me) (\<lambda>e.
                case e of
                  None \<Rightarrow> Inr (0, me)
                | Some _ \<Rightarrow> bindR (raft_send_appendentries a me) (\<lambda>(_, me). Inr (0, me)))))))"

definition raft_recv_appendentries_response :: "nat option \<Rightarrow> msg_appendentries_response \<Rightarrow> raft_server \<Rightarrow>
    (int \<times> raft_server) result" where
  "raft_recv_appendentries_response node r me =
     bindR (if aer_current_idx r \<noteq> 0
            then bindR (node_at node me) (\<lambda>n. Inr (aer_current_idx r \<le> nd_match_idx n))
            else Inr False) (\<lambda>stale.
     if stale then Inr (0, me)
     else if \<not> raft_is_leader me then Inr (- 1, me)
     else if rs_current_term me < aer_term r then
       Inr (0, raft_become_follower (raft_set_current_term (aer_term r) me))
     else if rs_current_term me \<noteq> aer_term r then Inr (0, me)
     else case node of
       None \<Rightarrow> Inr (0, me)
     | Some a \<Rightarrow>
         if aer_success r = 0 then
           bindR (node_at (Some a) me) (\<lambda>n.
             if \<not> 0 \<le> nd_next_idx n then Inl AssertFail
             else let next_idx = nd_next_idx n;
                      me = node_update a (raft_node_set_next_idx
                             (if aer_current_idx r < next_idx - 1
                              then min (aer_current_idx r + 1) (raft_get_current_idx me) else next_idx - 1)) me
                  in bindR (raft_send_appendentries a me) (\<lambda>(_, me). Inr (0, me)))
         else aer_acknowledged a r me)"

section \<open>Elections\<close>

definition raft_already_voted :: "raft_server \<Rightarrow> bool" where
  "raft_already_voted me \<longleftrightarrow> rs_voted_for me \<noteq> - 1"

definition should_grant_vote :: "msg_requestvote \<Rightarrow> raft_server \<Rightarrow> bool result" where
  "should_grant_vote vr me =
     (if rv_term vr < rs_current_term me then Inr False
      else if raft_already_voted me then Inr False
      else let current_idx = raft_get_current_idx me
        in if current_idx = 0 then Inr True
           else bindR (raft_get_entry_from_idx current_idx me) (\<lambda>e.
             case e of
               None \<Rightarrow> Inl NullDeref
             | Some e \<Rightarrow>
                 if ety_term e < rv_last_log_term vr then Inr True
                 else if rv_last_log_term vr = ety_term e \<and> current_idx \<le> rv_last_log_idx vr then Inr True
                 else Inr False))"

definition raft_recv_requestvote :: "msg_requestvote \<Rightarrow> raft_server \<Rightarrow>
    (msg_requestvote_response \<times> raft_server) result" where
  "raft_recv_requestvote vr me =
     (let me = (if rs_current_term me < rv_term vr
                then raft_become_follower (raft_set_current_term (rv_term vr) me) else me)
      in bindR (should_grant_vote vr me) (\<lambda>grant.
           if grant then
             if raft_is_leader me \<or> raft_is_candidate me then Inl AssertFail
             else let me = raft_vote_for_nodeid (rv_candidate_id vr) me;
                      me = me\<lparr>rs_current_leader := None, rs_timeout_elapsed := 0\<rparr>
                  in Inr (\<lparr>rvr_term = rs_current_term me, rvr_vote_granted = 1\<rparr>, me)
           else Inr (\<lparr>rvr_term = rs_current_term me, rvr_vote_granted = 0\<rparr>, me)))"

definition raft_recv_requestvote_response :: "nat option \<Rightarrow> msg_requestvote_response \<Rightarrow> raft_server \<Rightarrow>
    raft_server result" where
  "raft_recv_requestvote_response node r me =
     (if \<not> raft_is_candidate me then Inr me
      else if rs_current_term me < rvr_term r then
        Inr (raft_become_follower (raft_set_current_term (rvr_term r) me))
      else if rs_current_term me \<noteq> rvr_term r then Inr me
      else if rvr_vote_granted r = 1 then
        bindR (case node of
                 None \<Rightarrow> Inr me
               | Some a \<Rightarrow> bindR (node_at (Some a) me) (\<lambda>_. Inr (node_update a (raft_node_vote_for_me True) me)))
          (\<lambda>me.
             bindR (raft_get_nvotes_for_me me) (\<lambda>votes.
               if raft_votes_is_majority (raft_get_num_nodes me) votes then raft_become_leader me else Inr me))
      else Inr me)"

section \<open>Configuration\<close>

definition raft_add_node :: "int \<Rightarrow> bool \<Rightarrow> raft_server \<Rightarrow> nat \<times> raft_server" where
  "raft_add_node nodeid is_self me =
     (case raft_get_node nodeid me of
        Some a \<Rightarrow> (a, node_update a (raft_node_set_voting True) me)
      | None \<Rightarrow>
          let a = rs_allocated me;
              me = me\<lparr>rs_nodes := rs_nodes me @ [(a, raft_node_new nodeid)], rs_allocated := Suc a\<rparr>
          in (a, if is_self then me\<lparr>rs_node := Some a\<rparr> else me))"

definition raft_add_non_voting_node :: "int \<Rightarrow> bool \<Rightarrow> raft_server \<Rightarrow> nat \<times> raft_server" where
  "raft_add_non_voting_node nodeid is_self me =
     (case raft_add_node nodeid is_self me of (a, me) \<Rightarrow> (a, node_update a (raft_node_set_voting False) me))"

text \<open>The new array has one place less; a node that is not in the configuration does not fit.\<close>

definition raft_remove_node :: "nat \<Rightarrow> raft_server \<Rightarrow> raft_server result" where
  "raft_remove_node node me =
     (if node \<in> set (node_ptrs me)
      then Inr (me\<lparr>rs_nodes := filter (\<lambda>(a, _). a \<noteq> node) (rs_nodes me)\<rparr>)
      else Inl OutOfBounds)"

definition raft_msg_entry_response_committed :: "msg_entry_response \<Rightarrow> raft_server \<Rightarrow> int result" where
  "raft_msg_entry_response_committed r me =
     bindR (raft_get_entry_from_idx (mer_idx r) me) (\<lambda>e.
       case e of
         None \<Rightarrow> Inr 0
       | Some ety \<Rightarrow>
           if mer_term r \<noteq> ety_term ety then Inr (- 1)
           else Inr (if mer_idx r \<le> rs_commit_idx me then 1 else 0))"

section \<open>Frames\<close>

text \<open>What an operation leaves alone: the part of the state that elections use, and the log.\<close>

definition node_view :: "nat \<times> raft_node \<Rightarrow> nat \<times> int \<times> bool \<times> bool" where
  "node_view x = (case x of (a, n) \<Rightarrow> (a, nd_id n, raft_node_is_voting n, raft_node_has_vote_for_me n))"

definition node_views :: "raft_server \<Rightarrow> (nat \<times> int \<times> bool \<times> bool) list" where
  "node_views me = map node_view (rs_nodes me)"

definition same_peers :: "raft_server \<Rightarrow> raft_server \<Rightarrow> bool" where
  "same_peers me me' \<longleftrightarrow> rs_node me' = rs_node me \<and> node_views me' = node_views me \<and>
     rs_allocated me' = rs_allocated me \<and> rs_cb me' = rs_cb me"

definition same_vote :: "raft_server \<Rightarrow> raft_server \<Rightarrow> bool" where
  "same_vote me me' \<longleftrightarrow> rs_current_term me' = rs_current_term me \<and> rs_voted_for me' = rs_voted_for me \<and>
     rs_state me' = rs_state me \<and> same_peers me me'"

definition same_log :: "raft_server \<Rightarrow> raft_server \<Rightarrow> bool" where
  "same_log me me' \<longleftrightarrow> rs_log me' = rs_log me \<and> rs_commit_idx me' = rs_commit_idx me \<and>
     rs_last_applied_idx me' = rs_last_applied_idx me"

lemmas frame_defs = same_vote_def same_peers_def same_log_def

lemma same_refl [simp]: "same_peers me me" "same_vote me me" "same_log me me"
  by (simp_all add: frame_defs)

lemma same_trans:
  "same_peers a b \<Longrightarrow> same_peers b c \<Longrightarrow> same_peers a c"
  "same_vote a b \<Longrightarrow> same_vote b c \<Longrightarrow> same_vote a c"
  "same_log a b \<Longrightarrow> same_log b c \<Longrightarrow> same_log a c"
  by (simp_all add: frame_defs)

lemma for_nodes_rel:
  assumes "\<And>me. R me me" and "\<And>x y z. R x y \<Longrightarrow> R y z \<Longrightarrow> R x z"
    and "\<And>a me me'. body a me = Inr me' \<Longrightarrow> R me me'"
  shows "for_nodes body as me = Inr me' \<Longrightarrow> R me me'"
proof (induction as arbitrary: me)
  case (Cons a as)
  then show ?case using assms(2,3) by (auto simp: result_simps) blast
qed (simp add: assms(1))

lemma emit_frame [simp]:
  "same_vote me (rs_emit p ev me)" "same_log me (rs_emit p ev me)"
  "rs_current_term (rs_emit p ev me) = rs_current_term me" "rs_voted_for (rs_emit p ev me) = rs_voted_for me"
  "rs_state (rs_emit p ev me) = rs_state me" "rs_nodes (rs_emit p ev me) = rs_nodes me"
  "rs_node (rs_emit p ev me) = rs_node me" "rs_log (rs_emit p ev me) = rs_log me"
  "rs_commit_idx (rs_emit p ev me) = rs_commit_idx me" "rs_cb (rs_emit p ev me) = rs_cb me"
  "rs_last_applied_idx (rs_emit p ev me) = rs_last_applied_idx me"
  "rs_voting_cfg_change_log_idx (rs_emit p ev me) = rs_voting_cfg_change_log_idx me"
  "rs_allocated (rs_emit p ev me) = rs_allocated me"
  by (simp_all add: rs_emit_def frame_defs node_views_def)

lemma node_update_views:
  assumes "\<And>n. nd_id (f n) = nd_id n \<and> raft_node_is_voting (f n) = raft_node_is_voting n \<and>
    raft_node_has_vote_for_me (f n) = raft_node_has_vote_for_me n"
  shows "same_vote me (node_update a f me)" "same_log me (node_update a f me)"
  using assms by (auto simp: frame_defs node_update_def node_views_def node_view_def)

lemma node_update_ptrs [simp]: "node_ptrs (node_update a f me) = node_ptrs me"
  by (induction "rs_nodes me") (auto simp: node_ptrs_def node_update_def)

lemma flag_frame [simp]:
  "raft_node_is_voting (raft_node_set_next_idx i n) = raft_node_is_voting n"
  "raft_node_is_voting (raft_node_set_match_idx i n) = raft_node_is_voting n"
  "raft_node_has_vote_for_me (raft_node_set_next_idx i n) = raft_node_has_vote_for_me n"
  "raft_node_has_vote_for_me (raft_node_set_match_idx i n) = raft_node_has_vote_for_me n"
  "nd_id (raft_node_set_next_idx i n) = nd_id n" "nd_id (raft_node_set_match_idx i n) = nd_id n"
  "nd_id (raft_node_vote_for_me v n) = nd_id n" "nd_id (raft_node_set_has_sufficient_logs n) = nd_id n"
  by (simp_all add: raft_node_set_next_idx_def raft_node_set_match_idx_def raft_node_is_voting_def
      raft_node_has_vote_for_me_def raft_node_vote_for_me_def raft_node_set_has_sufficient_logs_def)

lemma flag_bits:
  "raft_node_has_vote_for_me (raft_node_vote_for_me v n) = v"
  "raft_node_is_voting (raft_node_vote_for_me v n) = raft_node_is_voting n"
  "raft_node_is_voting (raft_node_set_voting v n) = v"
  "raft_node_is_voting (raft_node_set_has_sufficient_logs n) = raft_node_is_voting n"
  "raft_node_has_vote_for_me (raft_node_set_has_sufficient_logs n) = raft_node_has_vote_for_me n"
proof -
  have and_bit: "w AND push_bit k 1 \<noteq> 0 \<longleftrightarrow> bit w k" if "k < 32" for w :: u32 and k
    using that bit_eq_iff [of "w AND push_bit k 1" 0] by (auto simp: bit_simps)
  have voted: "raft_node_has_vote_for_me m = bit (nd_flags m) 0" for m
    using and_bit [of 0 "nd_flags m"] by (simp add: raft_node_has_vote_for_me_def RAFT_NODE_VOTED_FOR_ME_def)
  have voting: "raft_node_is_voting m = bit (nd_flags m) 1" for m
    using and_bit [of 1 "nd_flags m"] by (simp add: raft_node_is_voting_def RAFT_NODE_VOTING_def)
  note bits = RAFT_NODE_VOTED_FOR_ME_def RAFT_NODE_VOTING_def RAFT_NODE_HAS_SUFFICIENT_LOG_def bit_simps
  show "raft_node_has_vote_for_me (raft_node_vote_for_me v n) = v"
    "raft_node_is_voting (raft_node_vote_for_me v n) = raft_node_is_voting n"
    "raft_node_is_voting (raft_node_set_voting v n) = v"
    "raft_node_is_voting (raft_node_set_has_sufficient_logs n) = raft_node_is_voting n"
    "raft_node_has_vote_for_me (raft_node_set_has_sufficient_logs n) = raft_node_has_vote_for_me n"
    by (simp_all add: voted voting raft_node_vote_for_me_def raft_node_set_voting_def
        raft_node_set_has_sufficient_logs_def bits)
qed

lemma raft_send_appendentries_frame:
  assumes "raft_send_appendentries a me = Inr (r, me')"
  shows "same_vote me me' \<and> same_log me me' \<and> rs_nodes me' = rs_nodes me"
  using assms by (auto simp: raft_send_appendentries_def result_simps Let_def split: if_splits)

lemma raft_send_requestvote_frame:
  assumes "raft_send_requestvote a me = Inr me'"
  shows "same_vote me me' \<and> same_log me me' \<and> rs_nodes me' = rs_nodes me"
  using assms by (auto simp: raft_send_requestvote_def result_simps Let_def split: if_splits)

lemma raft_send_appendentries_all_frame:
  assumes "raft_send_appendentries_all me = Inr me'"
  shows "same_vote me me' \<and> same_log me me'"
proof -
  let ?me = "me\<lparr>rs_timeout_elapsed := 0\<rparr>"
  have "same_vote ?me me' \<and> same_log ?me me'"
    by (rule for_nodes_rel [OF _ _ _ assms [unfolded raft_send_appendentries_all_def Let_def]])
      (auto intro: same_trans dest: raft_send_appendentries_frame simp: result_simps split: if_splits)
  then show ?thesis by (simp add: frame_defs node_views_def)
qed

lemma raft_set_state_frame [simp]:
  "rs_current_term (raft_set_state s me) = rs_current_term me" "rs_voted_for (raft_set_state s me) = rs_voted_for me"
  "rs_state (raft_set_state s me) = s" "same_peers me (raft_set_state s me)" "same_log me (raft_set_state s me)"
  "rs_log (raft_set_state s me) = rs_log me" "rs_nodes (raft_set_state s me) = rs_nodes me"
  "rs_node (raft_set_state s me) = rs_node me" "rs_commit_idx (raft_set_state s me) = rs_commit_idx me"
  by (simp_all add: raft_set_state_def frame_defs node_views_def Let_def)

lemma raft_become_leader_frame:
  assumes "raft_become_leader me = Inr me'"
  shows "same_log me me'" "same_vote (me\<lparr>rs_state := RAFT_STATE_LEADER\<rparr>) me'"
proof -
  let ?me = "raft_set_state RAFT_STATE_LEADER me"
  have "same_vote ?me me' \<and> same_log ?me me'"
  proof (rule for_nodes_rel [OF _ _ _ assms [unfolded raft_become_leader_def Let_def]], goal_cases)
    case (3 a x y)
    let ?x = "node_update a (\<lambda>n. raft_node_set_match_idx 0
        (raft_node_set_next_idx (raft_get_current_idx x + 1) n)) x"
    have "same_vote x ?x" "same_log x ?x" by (rule node_update_views; simp)+
    then show ?case
      using 3 by (auto simp: result_simps dest!: raft_send_appendentries_frame intro: same_trans split: if_splits)
  qed (auto intro: same_trans)
  then show "same_log me me'" "same_vote (me\<lparr>rs_state := RAFT_STATE_LEADER\<rparr>) me'"
    by (simp_all add: frame_defs node_views_def raft_set_state_def)
qed

section \<open>The log of a server\<close>

definition rlog :: "raft_server \<Rightarrow> raft_entry list" where
  "rlog me = lg_abs (rs_log me)"

definition rs_ok :: "raft_server \<Rightarrow> bool" where
  "rs_ok me \<longleftrightarrow> lg_ok (rs_log me) \<and> 0 \<le> rs_last_applied_idx me \<and>
     rs_last_applied_idx me \<le> rs_commit_idx me \<and> rs_commit_idx me \<le> int (length (rlog me))"

text \<open>The invariant holds, the commit index does not decrease, the committed entries are kept.\<close>

definition keeps :: "raft_server \<Rightarrow> raft_server \<Rightarrow> bool" where
  "keeps me me' \<longleftrightarrow> rs_ok me' \<and> rs_commit_idx me \<le> rs_commit_idx me' \<and>
     take (nat (rs_commit_idx me)) (rlog me') = take (nat (rs_commit_idx me)) (rlog me)"

lemma keeps_refl: "rs_ok me \<Longrightarrow> keeps me me"
  by (simp add: keeps_def)

lemma keeps_trans:
  assumes "keeps a b" "keeps b c"
  shows "keeps a c"
proof -
  let ?a = "nat (rs_commit_idx a)" and ?b = "nat (rs_commit_idx b)"
  have "?a \<le> ?b" using assms(1) by (intro nat_mono) (simp add: keeps_def)
  then have cut: "take ?a (take ?b xs) = take ?a xs" for xs :: "raft_entry list"
    by (simp add: min_absorb1)
  have "take ?a (rlog c) = take ?a (take ?b (rlog c))" by (simp only: cut)
  also have "\<dots> = take ?a (rlog b)" using assms(2) by (simp only: keeps_def cut)
  finally show ?thesis using assms by (simp add: keeps_def)
qed

lemma same_log_keeps: "rs_ok me \<Longrightarrow> same_log me me' \<Longrightarrow> keeps me me'"
  by (simp add: keeps_def rs_ok_def same_log_def rlog_def)

lemma same_log_ok: "same_log me me' \<Longrightarrow> rs_ok me' = rs_ok me" "same_log me me' \<Longrightarrow> rlog me' = rlog me"
  by (simp_all add: rs_ok_def same_log_def rlog_def)

lemma current_idx_rlog: "rs_ok me \<Longrightarrow> raft_get_current_idx me = int (length (rlog me))"
  by (simp add: raft_get_current_idx_def rs_ok_def rlog_def rl.current_length)

lemma get_entry_rlog:
  "rs_ok me \<Longrightarrow> 1 \<le> i \<Longrightarrow> raft_get_entry_from_idx i me =
     Inr (if i \<le> int (length (rlog me)) then Some (rlog me ! nat (i - 1)) else None)"
  by (simp add: raft_get_entry_from_idx_def rs_ok_def rlog_def rl.get_at)

lemma get_entry_InrD: "raft_get_entry_from_idx i me = Inr x \<Longrightarrow> 1 \<le> i"
  by (auto simp: raft_get_entry_from_idx_def log_get_at_idx_def split: if_splits)

lemma raft_append_entry_ok:
  assumes "rs_ok me" "raft_append_entry e me = Inr (r, me')"
  shows "same_vote me me' \<and> keeps me me' \<and> rs_commit_idx me' = rs_commit_idx me \<and>
    rs_last_applied_idx me' = rs_last_applied_idx me \<and>
    (r = 0 \<and> ety_id e \<noteq> 0 \<and> rlog me' = rlog me @ [e] \<or> r = - 1 \<and> ety_id e = 0 \<and> rlog me' = rlog me)"
proof -
  obtain evs log where log: "log_append_entry e (rs_log me) = Inr (r, evs, log)"
      "rs_log me' = log" "same_vote me me'" "rs_commit_idx me' = rs_commit_idx me"
      "rs_last_applied_idx me' = rs_last_applied_idx me"
    using assms(2)
    by (auto simp: raft_append_entry_def result_simps Let_def frame_defs node_views_def split: if_splits)
  have ok: "lg_ok (rs_log me)" using assms(1) by (simp add: rs_ok_def)
  show ?thesis
    using rl.append_InrD [OF ok log(1)] log(2-) assms(1)
    by (auto simp: rs_ok_def rlog_def keeps_def)
qed

lemma raft_log_delete_ok:
  assumes "rs_ok me" "raft_log_delete i me = Inr me'" "rs_commit_idx me < i"
  shows "same_vote me me' \<and> keeps me me' \<and> rs_commit_idx me' = rs_commit_idx me \<and>
    rs_last_applied_idx me' = rs_last_applied_idx me \<and> rlog me' = take (nat (i - 1)) (rlog me)"
proof -
  obtain evs log where log: "log_delete i (rs_log me) = Inr (evs, log)" "rs_log me' = log" "same_vote me me'"
      "rs_commit_idx me' = rs_commit_idx me" "rs_last_applied_idx me' = rs_last_applied_idx me"
    using assms(2) by (auto simp: raft_log_delete_def result_simps frame_defs node_views_def)
  have ok: "lg_ok (rs_log me)" "1 \<le> i" using assms(1,3) by (auto simp: rs_ok_def)
  have cut: "lg_ok log" "lg_abs log = take (nat (i - 1)) (lg_abs (rs_log me))"
    using rl.delete_InrD [OF ok log(1)] by auto
  have "nat (rs_commit_idx me) \<le> nat (i - 1)" using assms(3) ok(2) by simp
  then have "take (nat (rs_commit_idx me)) (take (nat (i - 1)) (rlog me)) = take (nat (rs_commit_idx me)) (rlog me)"
    by (simp add: min_absorb1)
  then show ?thesis
    using cut log(2-) assms(1,3) by (auto simp: rs_ok_def rlog_def keeps_def)
qed

lemma raft_set_commit_idx_ok:
  assumes "rs_ok me" "raft_set_commit_idx i me = Inr me'"
  shows "me' = me\<lparr>rs_commit_idx := i\<rparr> \<and> same_vote me me' \<and> keeps me me' \<and> rlog me' = rlog me \<and>
    rs_commit_idx me \<le> i \<and> i \<le> int (length (rlog me))"
  using assms current_idx_rlog [OF assms(1)]
  by (auto simp: raft_set_commit_idx_def rs_ok_def keeps_def frame_defs node_views_def rlog_def split: if_splits)

lemma raft_apply_entry_ok:
  assumes "rs_ok me" "raft_apply_entry me = Inr (r, me')"
  shows "same_vote me me' \<and> keeps me me' \<and> rlog me' = rlog me \<and> rs_commit_idx me' = rs_commit_idx me \<and>
    (r = - 1 \<and> me' = me \<and> rs_last_applied_idx me = rs_commit_idx me \<or>
     r = 0 \<and> rs_last_applied_idx me' = rs_last_applied_idx me + 1 \<and> rs_last_applied_idx me < rs_commit_idx me \<and>
     rs_cb me' = rs_cb me \<and>
     rs_trace me' = rs_trace me @
       (if cb_applylog (rs_cb me) then [ApplyLog (rlog me ! nat (rs_last_applied_idx me))] else []))"
proof (cases "rs_last_applied_idx me = rs_commit_idx me")
  case True
  then show ?thesis using assms keeps_refl by (simp add: raft_apply_entry_def)
next
  case False
  let ?i = "rs_last_applied_idx me + 1"
  have i: "1 \<le> ?i" "?i \<le> int (length (rlog me))" "rs_last_applied_idx me < rs_commit_idx me"
    using assms(1) False by (auto simp: rs_ok_def)
  then have "raft_get_entry_from_idx ?i me = Inr (Some (rlog me ! nat (rs_last_applied_idx me)))"
    using get_entry_rlog [OF assms(1) i(1)] by simp
  then show ?thesis
    using assms False i(3)
    by (auto simp: raft_apply_entry_def Let_def rs_emit_def rs_ok_def keeps_def frame_defs node_views_def rlog_def
        split: if_splits)
qed

section \<open>Receiving entries\<close>

lemma ae_match_loop_ok:
  "rs_ok me \<Longrightarrow> ae_match_loop i etys cur me = Inr (rest, cur', me') \<Longrightarrow> i - 1 \<le> int (length (rlog me)) \<Longrightarrow>
   same_vote me me' \<and> keeps me me' \<and> rs_commit_idx me' = rs_commit_idx me \<and>
   (\<exists>done. etys = done @ rest \<and> (etys \<noteq> [] \<longrightarrow> 1 \<le> i) \<and>
     i - 1 + int (length done) \<le> int (length (rlog me)) \<and>
     map ety_term (take (length done) (drop (nat (i - 1)) (rlog me))) = map ety_term done \<and>
     rlog me' = (if rest = [] then rlog me else take (nat (i - 1) + length done) (rlog me)) \<and>
     (rest \<noteq> [] \<longrightarrow> length (rlog me') = nat (i - 1) + length done) \<and>
     (rest = [] \<longrightarrow> cur' = (if etys = [] then cur else i + int (length etys) - 1)))"
proof (induction etys arbitrary: i cur me)
  case Nil
  then show ?case using keeps_refl by simp
next
  case (Cons ety etys)
  obtain ex where ex: "raft_get_entry_from_idx i me = Inr ex" using Cons.prems(2) by (auto simp: result_simps)
  have i: "1 \<le> i" by (rule get_entry_InrD [OF ex])
  have at: "ex = (if i \<le> int (length (rlog me)) then Some (rlog me ! nat (i - 1)) else None)"
    using get_entry_rlog [OF Cons.prems(1) i] ex by simp
  show ?case
  proof (cases ex)
    case None
    then have "length (rlog me) = nat (i - 1)" using at Cons.prems(3) i by (auto split: if_splits)
    then show ?thesis
      using Cons.prems None ex i keeps_refl by (auto intro!: exI [of _ "[]"])
  next
    case (Some e)
    then have e: "i \<le> int (length (rlog me))" "e = rlog me ! nat (i - 1)" using at by (auto split: if_splits)
    show ?thesis
    proof (cases "ety_term e = ety_term ety")
      case True
      have "ae_match_loop (i + 1) etys i me = Inr (rest, cur', me')"
        using Cons.prems(2) ex Some True by simp
      moreover have "i + 1 - 1 \<le> int (length (rlog me))" using e(1) by simp
      ultimately have IH: "same_vote me me' \<and> keeps me me' \<and> rs_commit_idx me' = rs_commit_idx me \<and>
         (\<exists>dn. etys = dn @ rest \<and> (etys \<noteq> [] \<longrightarrow> 1 \<le> i + 1) \<and>
           i + 1 - 1 + int (length dn) \<le> int (length (rlog me)) \<and>
           map ety_term (take (length dn) (drop (nat (i + 1 - 1)) (rlog me))) = map ety_term dn \<and>
           rlog me' = (if rest = [] then rlog me else take (nat (i + 1 - 1) + length dn) (rlog me)) \<and>
           (rest \<noteq> [] \<longrightarrow> length (rlog me') = nat (i + 1 - 1) + length dn) \<and>
           (rest = [] \<longrightarrow> cur' = (if etys = [] then i else i + 1 + int (length etys) - 1)))"
        by (rule Cons.IH [OF Cons.prems(1)])
      have n: "nat (i + 1 - 1) = Suc (nat (i - 1))" "nat (i - 1) < length (rlog me)" using i e(1) by auto
      obtain dn where dn: "etys = dn @ rest" "i + 1 - 1 + int (length dn) \<le> int (length (rlog me))"
          "map ety_term (take (length dn) (drop (Suc (nat (i - 1))) (rlog me))) = map ety_term dn"
          "rlog me' = (if rest = [] then rlog me else take (Suc (nat (i - 1)) + length dn) (rlog me))"
          "rest \<noteq> [] \<longrightarrow> length (rlog me') = Suc (nat (i - 1)) + length dn"
          "rest = [] \<longrightarrow> cur' = (if etys = [] then i else i + 1 + int (length etys) - 1)"
        using IH unfolding n(1) by blast
      have "drop (nat (i - 1)) (rlog me) = e # drop (Suc (nat (i - 1))) (rlog me)"
        using Cons_nth_drop_Suc [OF n(2)] e(2) by simp
      then have terms: "map ety_term (take (length (ety # dn)) (drop (nat (i - 1)) (rlog me))) = map ety_term (ety # dn)"
        using dn(3) True by simp
      have frame: "same_vote me me' \<and> keeps me me' \<and> rs_commit_idx me' = rs_commit_idx me"
        using IH by blast
      show ?thesis
        using dn(1,2,4-6) i terms frame
        by (intro conjI exI [of _ "ety # dn"]) (simp_all split: if_splits)
    next
      case False
      then have "rs_commit_idx me < i" "raft_log_delete i me = Inr me'" "rest = ety # etys"
        using Cons.prems(2) ex Some by (auto simp: result_simps split: if_splits)
      then show ?thesis
        using raft_log_delete_ok [OF Cons.prems(1), of i me'] i e(1)
        by (auto intro!: exI [of _ "[]"] simp: min_def)
    qed
  qed
qed

lemma ae_append_loop_ok:
  "rs_ok me \<Longrightarrow> ae_append_loop i etys cur me = Inr (ok, cur', me') \<Longrightarrow>
   same_vote me me' \<and> keeps me me' \<and> rs_commit_idx me' = rs_commit_idx me \<and>
   (ok \<longrightarrow> rlog me' = rlog me @ etys \<and> cur' = (if etys = [] then cur else i + int (length etys) - 1))"
proof (induction etys arbitrary: i cur me)
  case (Cons e etys)
  obtain r me1 where r: "raft_append_entry e me = Inr (r, me1)" using Cons.prems(2) by (auto simp: result_simps)
  note app = raft_append_entry_ok [OF Cons.prems(1) r]
  show ?case
  proof (cases "r = - 1")
    case True
    then show ?thesis using Cons.prems(2) r app by auto
  next
    case False
    then have rest: "ae_append_loop (i + 1) etys i me1 = Inr (ok, cur', me')" using Cons.prems(2) r by simp
    have "rs_ok me1" using app by (simp add: keeps_def)
    note IH = Cons.IH [OF this rest]
    then show ?thesis
      using app False keeps_trans [of me me1 me'] same_trans(2) [of me me1 me'] by auto
  qed
qed (simp add: keeps_refl)

text \<open>What a successful \<^verbatim>\<open>appendentries\<close> establishes, for an entry before the new ones that is present.\<close>

definition ae_matched :: "msg_appendentries \<Rightarrow> msg_appendentries_response \<Rightarrow> raft_server \<Rightarrow> raft_server \<Rightarrow> bool" where
  "ae_matched ae r me me' \<longleftrightarrow>
     (let p = nat (ae_prev_log_idx ae); n = length (ae_entries ae)
      in aer_current_idx r = ae_prev_log_idx ae + int n \<and> aer_first_idx r = ae_prev_log_idx ae + 1 \<and>
         p + n \<le> length (rlog me') \<and> take p (rlog me') = take p (rlog me) \<and>
         map ety_term (take n (drop p (rlog me'))) = map ety_term (ae_entries ae))"

lemma ae_delete_ok:
  assumes "rs_ok me"
    and "(if ae_entries ae = [] \<and> 0 < ae_prev_log_idx ae \<and> ae_prev_log_idx ae + 1 < raft_get_current_idx me then
          if rs_commit_idx me < ae_prev_log_idx ae + 1 then raft_log_delete (ae_prev_log_idx ae + 1) me
          else Inl AssertFail
        else Inr me) = Inr me1"
    and "ae_prev_log_idx ae \<le> int (length (rlog me))"
  shows "same_vote me me1 \<and> keeps me me1 \<and> rs_commit_idx me1 = rs_commit_idx me \<and>
    take (nat (ae_prev_log_idx ae)) (rlog me1) = take (nat (ae_prev_log_idx ae)) (rlog me) \<and>
    ae_prev_log_idx ae \<le> int (length (rlog me1))"
  using assms raft_log_delete_ok [OF assms(1), of "ae_prev_log_idx ae + 1" me1] keeps_refl [OF assms(1)]
  by (auto split: if_splits)

lemma ae_fail_InrD:
  "ae_fail t c me = Inr (ret, r, me') \<Longrightarrow> ret = - 1 \<and> me' = me \<and> aer_success r = 0 \<and> aer_term r = t"
  by (auto simp: ae_fail_def)

lemma ae_accept_ok:
  assumes ok: "rs_ok me" and acc: "ae_accept node ae t me = Inr (ret, r, me')"
    and prev: "ae_prev_log_idx ae \<le> int (length (rlog me))"
  shows "same_vote me me' \<and> keeps me me' \<and>
    (aer_success r = 1 \<and> 0 \<le> ae_prev_log_idx ae \<longrightarrow> ae_matched ae r me me')"
proof -
  let ?p = "ae_prev_log_idx ae" and ?es = "ae_entries ae"
  obtain me1 rest cur me2 added cur' me3 where
    del: "(if ?es = [] \<and> 0 < ?p \<and> ?p + 1 < raft_get_current_idx me then
          if rs_commit_idx me < ?p + 1 then raft_log_delete (?p + 1) me else Inl AssertFail
        else Inr me) = Inr me1"
    and match: "ae_match_loop (?p + 1) ?es ?p me1 = Inr (rest, cur, me2)"
    and app: "ae_append_loop (?p + 1 + int (length ?es - length rest)) rest cur me2 = Inr (added, cur', me3)"
    and fin: "(if \<not> added then ae_fail t (raft_get_current_idx me3) me3
     else bindR (if rs_commit_idx me3 < ae_leader_commit ae then
            let last_log_idx = max (raft_get_current_idx me3) 1
            in raft_set_commit_idx (min last_log_idx (ae_leader_commit ae)) me3
          else Inr me3) (\<lambda>me.
       Inr (0, \<lparr>aer_term = t, aer_success = 1, aer_current_idx = cur', aer_first_idx = ?p + 1\<rparr>,
            me\<lparr>rs_current_leader := node\<rparr>))) = Inr (ret, r, me')"
    using acc unfolding ae_accept_def bindR_eq_Inr by (auto simp: bindR_eq_Inr)
  note d = ae_delete_ok [OF ok del prev]
  have ok1: "rs_ok me1" using d by (simp add: keeps_def)
  obtain dn where dn: "same_vote me1 me2" "keeps me1 me2" "?es = dn @ rest"
      "?p + 1 - 1 + int (length dn) \<le> int (length (rlog me1))"
      "map ety_term (take (length dn) (drop (nat (?p + 1 - 1)) (rlog me1))) = map ety_term dn"
      "rlog me2 = (if rest = [] then rlog me1 else take (nat (?p + 1 - 1) + length dn) (rlog me1))"
      "rest \<noteq> [] \<longrightarrow> length (rlog me2) = nat (?p + 1 - 1) + length dn"
      "rest = [] \<longrightarrow> cur = (if ?es = [] then ?p else ?p + 1 + int (length ?es) - 1)"
    using ae_match_loop_ok [OF ok1 match] d by auto
  have ok2: "rs_ok me2" using dn(2) by (simp add: keeps_def)
  note a = ae_append_loop_ok [OF ok2 app]
  have ok3: "rs_ok me3" using a by (simp add: keeps_def)
  have to3: "same_vote me me3" "keeps me me3"
    using d dn(1,2) a by (meson keeps_trans same_trans(2))+
  have last: "same_vote me3 me' \<and> keeps me3 me' \<and> rlog me' = rlog me3 \<and>
      (aer_success r = 1 \<longrightarrow> added \<and> aer_current_idx r = cur' \<and> aer_first_idx r = ?p + 1)"
  proof (cases added)
    case False
    then show ?thesis using fin keeps_refl [OF ok3] ae_fail_InrD [of t "raft_get_current_idx me3" me3 ret r me'] by auto
  next
    case True
    then obtain me4 where me4: "(if rs_commit_idx me3 < ae_leader_commit ae then
            let last_log_idx = max (raft_get_current_idx me3) 1
            in raft_set_commit_idx (min last_log_idx (ae_leader_commit ae)) me3 else Inr me3) = Inr me4"
        "me' = me4\<lparr>rs_current_leader := node\<rparr>" "aer_current_idx r = cur'" "aer_first_idx r = ?p + 1"
      using fin by (auto simp: result_simps)
    have "same_vote me3 me4 \<and> keeps me3 me4 \<and> rlog me4 = rlog me3"
      using me4(1) keeps_refl [OF ok3] raft_set_commit_idx_ok [OF ok3]
      by (auto simp: Let_def split: if_splits)
    moreover have "same_log me4 me'" "same_vote me4 me'"
      using me4(2) by (simp_all add: frame_defs node_views_def)
    ultimately show ?thesis
      using me4(3,4) True same_log_ok [of me4 me'] same_log_keeps [of me4 me'] keeps_trans [of me3 me4 me'] same_trans(2) [of me3 me4 me']
      by (auto simp: keeps_def)
  qed
  have "ae_matched ae r me me'" if "aer_success r = 1" "0 \<le> ?p"
  proof -
    have r: "added" "aer_current_idx r = cur'" "aer_first_idx r = ?p + 1" "rlog me' = rlog me2 @ rest"
      using last a that(1) by auto
    have len: "nat ?p + length dn \<le> length (rlog me1)" using dn(4) that(2) by simp
    have "rlog me' = (if rest = [] then rlog me1 else take (nat ?p + length dn) (rlog me1) @ rest)"
      using dn(6) r(4) by auto
    moreover have "map ety_term (take (length dn) (drop (nat ?p) (rlog me1))) = map ety_term dn"
      using dn(5) by simp
    moreover have "cur' = ?p + int (length ?es)" using a r(1) dn(3,8) by auto
    ultimately show ?thesis
      using len d dn(3) r(2,3) by (auto simp: ae_matched_def Let_def drop_take min_def)
  qed
  then show ?thesis
    using to3 last keeps_trans [of me me3 me'] same_trans(2) [of me me3 me'] by blast
qed


lemma raft_set_current_term_frame:
  "same_log me (raft_set_current_term t me)" "same_peers me (raft_set_current_term t me)"
  "rs_current_term (raft_set_current_term t me) = max (rs_current_term me) t"
  "rs_voted_for (raft_set_current_term t me) = (if rs_current_term me < t then - 1 else rs_voted_for me)"
  "rs_state (raft_set_current_term t me) = rs_state me"
  by (simp_all add: raft_set_current_term_def rs_emit_def frame_defs node_views_def)

lemma ae_role_frame:
  assumes "ae_role ae me = (t, me')"
  shows "same_log me me' \<and> same_peers me me' \<and> t = rs_current_term me' \<and>
    rs_current_term me' = max (rs_current_term me) (ae_term ae) \<and>
    (rs_current_term me' = rs_current_term me \<and> rs_voted_for me' = rs_voted_for me \<and> rs_state me' = rs_state me \<or>
     rs_current_term me' = rs_current_term me \<and> rs_voted_for me' = - 1 \<and> rs_state me = RAFT_STATE_CANDIDATE \<and>
       rs_state me' = RAFT_STATE_FOLLOWER \<or>
     rs_current_term me < rs_current_term me' \<and> rs_voted_for me' = - 1 \<and> rs_state me' = RAFT_STATE_FOLLOWER)"
  using assms raft_set_current_term_frame [where me = me and t = "ae_term ae"]

  by (auto simp: ae_role_def raft_become_follower_def raft_is_candidate_def frame_defs raft_set_state_def
      node_views_def split: if_splits)

lemma raft_recv_appendentries_ok:
  assumes ok: "rs_ok me" and recv: "raft_recv_appendentries node ae me = Inr (ret, r, me')"
  shows "keeps me me' \<and> same_vote (snd (ae_role ae (me\<lparr>rs_timeout_elapsed := 0\<rparr>))) me' \<and>
    (aer_success r = 1 \<longrightarrow> rs_current_term me \<le> ae_term ae \<and>
      (0 \<le> ae_prev_log_idx ae \<longrightarrow> ae_matched ae r me me') \<and>
      (0 < ae_prev_log_idx ae \<longrightarrow> ae_prev_log_idx ae \<le> int (length (rlog me)) \<and>
        ety_term (rlog me ! nat (ae_prev_log_idx ae - 1)) = ae_prev_log_term ae))"
proof -
  let ?p = "ae_prev_log_idx ae" and ?me = "me\<lparr>rs_timeout_elapsed := 0\<rparr>"
  obtain t me1 where role: "ae_role ae ?me = (t, me1)" by (cases "ae_role ae ?me")
  have "same_log ?me me1" using ae_role_frame [OF role] by blast
  then have log1: "same_log me me1" by (simp add: same_log_def)
  then have ok1: "rs_ok me1" and rlog1: "rlog me1 = rlog me" using ok same_log_ok by auto
  have keep1: "keeps me me1" using same_log_keeps [OF ok log1] .
  let ?T = "keeps me1 me' \<and> same_vote me1 me' \<and> (aer_success r = 1 \<longrightarrow> \<not> ae_term ae < rs_current_term me \<and>
      (0 \<le> ?p \<longrightarrow> ae_matched ae r me1 me') \<and>
      (0 < ?p \<longrightarrow> ?p \<le> int (length (rlog me)) \<and> ety_term (rlog me ! nat (?p - 1)) = ae_prev_log_term ae))"
  have failed: ?T if "ae_fail t c me1 = Inr (ret, r, me')" for c
    using ae_fail_InrD [OF that] keeps_refl [OF ok1] by simp
  have accepted: ?T if "ae_accept node ae t me1 = Inr (ret, r, me')" "\<not> ae_term ae < rs_current_term me"
      "0 < ?p \<longrightarrow> ?p \<le> int (length (rlog me)) \<and> ety_term (rlog me ! nat (?p - 1)) = ae_prev_log_term ae"
    using ae_accept_ok [OF ok1 that(1)] that(2,3) rlog1 by (cases "0 < ?p") auto
  have ?T
  proof (cases "ae_term ae < rs_current_term me \<or> \<not> 0 < ?p")
    case True
    then show ?thesis
      using recv role failed accepted by (cases "ae_term ae < rs_current_term me")
        (simp_all add: raft_recv_appendentries_def)
  next
    case False
    have get: "raft_get_entry_from_idx ?p me1 =
        Inr (if ?p \<le> int (length (rlog me)) then Some (rlog me ! nat (?p - 1)) else None)"
      using get_entry_rlog [OF ok1, of ?p] False rlog1 by simp
    have idx: "raft_get_current_idx me1 = int (length (rlog me))" using current_idx_rlog [OF ok1] rlog1 by simp
    consider c where "ae_fail t c me1 = Inr (ret, r, me')"
      | me2 c where "rs_commit_idx me1 < ?p" "raft_log_delete ?p me1 = Inr me2" "ae_fail t c me2 = Inr (ret, r, me')"
      | "ae_accept node ae t me1 = Inr (ret, r, me')" "?p \<le> int (length (rlog me))"
        "ety_term (rlog me ! nat (?p - 1)) = ae_prev_log_term ae"
      using recv role False get idx
      by (cases "?p \<le> int (length (rlog me))") (auto simp: raft_recv_appendentries_def result_simps split: if_splits)
    then show ?thesis
    proof cases
      case 2
      then show ?thesis using raft_log_delete_ok [OF ok1 2(2,1)] ae_fail_InrD [OF 2(3)] by simp
    qed (use failed accepted False in simp_all)
  qed
  then show ?thesis
    using keeps_trans [OF keep1, of me'] role rlog1 by (auto simp: ae_matched_def)
qed

section \<open>Effects of the other operations\<close>

text \<open>A server that learns of a newer term.\<close>

definition stepped_down :: "int \<Rightarrow> raft_server \<Rightarrow> raft_server \<Rightarrow> bool" where
  "stepped_down t me me' \<longleftrightarrow> rs_current_term me < t \<and> rs_current_term me' = t \<and> rs_voted_for me' = - 1 \<and>
     rs_state me' = RAFT_STATE_FOLLOWER \<and> same_peers me me'"

lemma step_down_frame:
  assumes "rs_current_term me < t"
  shows "stepped_down t me (raft_become_follower (raft_set_current_term t me))"
    "same_log me (raft_become_follower (raft_set_current_term t me))"
  using assms raft_set_current_term_frame [where me = me and t = t]
  by (simp_all add: stepped_down_def raft_become_follower_def raft_set_state_def frame_defs node_views_def)

lemma raft_vote_frame:
  assumes "raft_vote p me = Inr me'"
  shows "same_log me me' \<and> same_peers me me' \<and> rs_current_term me' = rs_current_term me \<and>
    rs_state me' = rs_state me \<and> rs_nodes me' = rs_nodes me \<and>
    (case p of None \<Rightarrow> rs_voted_for me' = - 1 | Some a \<Rightarrow> \<exists>n. node_at p me = Inr n \<and> rs_voted_for me' = nd_id n)"
  using assms
  by (auto simp: raft_vote_def raft_vote_for_nodeid_def result_simps rs_emit_def frame_defs node_views_def
      split: option.splits)

text \<open>A server that starts an election: it votes for itself and forgets the votes it had.\<close>

definition became_candidate :: "raft_server \<Rightarrow> raft_server \<Rightarrow> bool" where
  "became_candidate me me' \<longleftrightarrow> rs_current_term me' = rs_current_term me + 1 \<and>
     rs_state me' = RAFT_STATE_CANDIDATE \<and> rs_node me' = rs_node me \<and>
     node_views me' = map (\<lambda>(a, i, v, _). (a, i, v, False)) (node_views me) \<and>
     (case rs_node me of None \<Rightarrow> rs_voted_for me' = - 1 |
        Some a \<Rightarrow> \<exists>n. map_of (rs_nodes me) a = Some n \<and> rs_voted_for me' = nd_id n)"

lemma raft_become_candidate_ok:
  assumes "raft_become_candidate rnd me = Inr me'"
  shows "same_log me me' \<and> became_candidate me me'"
proof -
  let ?m1 = "raft_set_current_term (rs_current_term me + 1) me"
  let ?clear = "map (\<lambda>(a, n). (a, raft_node_vote_for_me False n))"
  let ?m2 = "?m1\<lparr>rs_nodes := ?clear (rs_nodes ?m1)\<rparr>"
  obtain m3 where m3: "raft_vote (rs_node ?m2) ?m2 = Inr m3"
    and send: "for_nodes (\<lambda>a me.
                bindR (node_at (Some a) me) (\<lambda>n.
                  if rs_node me \<noteq> Some a \<and> raft_node_is_voting n then raft_send_requestvote a me else Inr me))
              (node_ptrs (raft_set_state RAFT_STATE_CANDIDATE (m3\<lparr>rs_current_leader := None\<rparr>)\<lparr>rs_timeout_elapsed := rnd\<rparr>))
              (raft_set_state RAFT_STATE_CANDIDATE (m3\<lparr>rs_current_leader := None\<rparr>)\<lparr>rs_timeout_elapsed := rnd\<rparr>) = Inr me'"
    using assms by (auto simp: raft_become_candidate_def Let_def result_simps)
  let ?m4 = "raft_set_state RAFT_STATE_CANDIDATE (m3\<lparr>rs_current_leader := None\<rparr>)\<lparr>rs_timeout_elapsed := rnd\<rparr>"
  have s4: "same_vote ?m4 me' \<and> same_log ?m4 me'"
    by (rule for_nodes_rel [OF _ _ _ send])
      (auto intro: same_trans dest: raft_send_requestvote_frame simp: result_simps split: if_splits)
  have m1: "rs_nodes ?m1 = rs_nodes me" "rs_node ?m1 = rs_node me" "same_log me ?m1"
    "rs_current_term ?m1 = rs_current_term me + 1"
    by (simp_all add: raft_set_current_term_def rs_emit_def same_log_def)
  have views: "node_views ?m2 = map (\<lambda>(a, i, v, _). (a, i, v, False)) (node_views me)"
    by (simp add: node_views_def m1 node_view_def case_prod_unfold flag_bits)
  have m: "map_of (?clear (rs_nodes me)) a = map_option (raft_node_vote_for_me False) (map_of (rs_nodes me) a)" for a
    by (simp add: map_of_map)
  have lg: "same_log me me'"
    using s4 m1(3) raft_vote_frame [OF m3] by (simp add: same_log_def raft_set_state_def)
  have own: "case rs_node me of None \<Rightarrow> rs_voted_for m3 = - 1 |
        Some a \<Rightarrow> \<exists>n. map_of (rs_nodes me) a = Some n \<and> rs_voted_for m3 = nd_id n"
    using raft_vote_frame [OF m3] m1(1,2) m
    by (auto simp: node_at_def split: option.splits)
  have "rs_current_term me' = rs_current_term me + 1 \<and> rs_state me' = RAFT_STATE_CANDIDATE \<and>
      rs_node me' = rs_node me \<and> node_views me' = node_views ?m2 \<and> rs_voted_for me' = rs_voted_for m3"
    using s4 raft_vote_frame [OF m3] m1
    by (simp add: same_vote_def same_peers_def node_views_def)
  then show ?thesis using lg own views by (simp add: became_candidate_def split: option.splits)
qed

lemma raft_periodic_ok:
  assumes ok: "rs_ok me" and per: "raft_periodic rnd ms me = Inr (ret, me')"
  shows "keeps me me' \<and> (same_vote me me' \<or>
    (\<exists>m. became_candidate me m \<and> same_vote m me' \<and> rs_state me \<noteq> RAFT_STATE_LEADER))"
proof -
  let ?me = "me\<lparr>rs_timeout_elapsed := rs_timeout_elapsed me + ms\<rparr>"
  obtain m where m: "(if rs_state ?me = RAFT_STATE_LEADER then
              if rs_request_timeout ?me \<le> rs_timeout_elapsed ?me then raft_send_appendentries_all ?me else Inr ?me
            else if rs_election_timeout ?me \<le> rs_timeout_elapsed ?me then
              if 1 < raft_get_num_nodes ?me then raft_election_start rnd ?me else Inr ?me
            else Inr ?me) = Inr m"
    and fin: "(if rs_last_applied_idx m < rs_commit_idx m then
                bindR (raft_apply_entry m) (\<lambda>(r, me). if r = - 1 then Inr (- 1, me) else Inr (0, me))
              else Inr (0, m)) = Inr (ret, me')"
    using per unfolding raft_periodic_def Let_def bindR_eq_Inr by blast
  have same: "same_vote me ?me" "same_log me ?me" by (simp_all add: frame_defs node_views_def)
  have "same_log ?me m \<and> (same_vote ?me m \<or> became_candidate ?me m \<and> rs_state me \<noteq> RAFT_STATE_LEADER)"
    using m raft_send_appendentries_all_frame [of ?me m] raft_become_candidate_ok [of rnd ?me m]
    by (auto simp: raft_election_start_def split: if_splits)
  moreover have "became_candidate ?me m = became_candidate me m"
    by (simp add: became_candidate_def node_views_def split: option.split)
  ultimately have m': "same_log me m" "same_vote me m \<or> became_candidate me m \<and> rs_state me \<noteq> RAFT_STATE_LEADER"
    using same same_trans by blast+
  have okm: "rs_ok m" using same_log_ok(1) [OF m'(1)] ok by simp
  have "same_vote m me' \<and> keeps m me'"
    using fin raft_apply_entry_ok [OF okm] keeps_refl [OF okm]
    by (auto simp: result_simps split: if_splits)
  then show ?thesis
    using m'(2) same_log_keeps [OF ok m'(1)] keeps_trans [of me m me'] same_trans(2) [of me m me'] by blast
qed

lemma raft_recv_entry_ok:
  assumes ok: "rs_ok me" and recv: "raft_recv_entry e me = Inr (ret, r, me')"
  shows "same_vote me me' \<and> keeps me me' \<and> (ret = 0 \<longrightarrow> rs_state me = RAFT_STATE_LEADER \<and>
    (ety_id e \<noteq> 0 \<longrightarrow> rlog me' = rlog me @ [e\<lparr>ety_term := rs_current_term me\<rparr>]) \<and>
    r = Some \<lparr>mer_id = ety_id e, mer_term = rs_current_term me, mer_idx = int (length (rlog me'))\<rparr>)"
proof (cases "raft_entry_is_voting_cfg_change e \<and> rs_voting_cfg_change_log_idx me \<noteq> - 1 \<or> \<not> raft_is_leader me")
  case True
  then show ?thesis using recv keeps_refl [OF ok] by (auto simp: raft_recv_entry_def split: if_splits)
next
  case False
  let ?body = "\<lambda>a me. bindR (node_at (Some a) me) (\<lambda>n.
              if rs_node me = Some a \<or> \<not> raft_node_is_voting n then Inr me
              else if nd_next_idx n = raft_get_current_idx me
                   then bindR (raft_send_appendentries a me) (\<lambda>(_, me). Inr me)
                   else Inr me)"
  let ?commit = "\<lambda>me :: raft_server. if raft_get_num_nodes me = 1 then me\<lparr>rs_commit_idx := raft_get_current_idx me\<rparr> else me"
  obtain x m1 m2 where m1: "raft_append_entry (e\<lparr>ety_term := rs_current_term me\<rparr>) me = Inr (x, m1)"
    and m2: "for_nodes ?body (node_ptrs m1) m1 = Inr m2"
    and fin: "ret = 0" "r = Some \<lparr>mer_id = ety_id e, mer_term = rs_current_term (?commit m2),
        mer_idx = raft_get_current_idx (?commit m2)\<rparr>"
      "me' = (if raft_entry_is_voting_cfg_change e
              then (?commit m2)\<lparr>rs_voting_cfg_change_log_idx := raft_get_current_idx (?commit m2)\<rparr> else ?commit m2)"
    using recv False unfolding raft_recv_entry_def by (auto simp: result_simps Let_def)
  note app = raft_append_entry_ok [OF ok m1]
  have s2: "same_vote m1 m2 \<and> same_log m1 m2"
    by (rule for_nodes_rel [OF _ _ _ m2])
      (auto intro: same_trans dest: raft_send_appendentries_frame simp: result_simps split: if_splits)
  have ok1: "rs_ok m1" using app by (simp add: keeps_def)
  have ok2: "rs_ok m2" "rlog m2 = rlog m1" using s2 same_log_ok [of m1 m2] ok1 by auto
  note idx = current_idx_rlog [OF ok2(1)]
  have c: "same_vote m2 (?commit m2)" "keeps m2 (?commit m2)" "rlog (?commit m2) = rlog m2"
    "raft_get_current_idx (?commit m2) = raft_get_current_idx m2"
    using ok2 idx by (auto simp: frame_defs node_views_def keeps_def rs_ok_def rlog_def raft_get_current_idx_def)
  have l: "same_log (?commit m2) me'" "same_vote (?commit m2) me'"
    using fin(3) by (auto simp: frame_defs node_views_def)
  have me': "keeps (?commit m2) me'" "rlog me' = rlog m1"
    using same_log_keeps [OF _ l(1)] same_log_ok(2) [OF l(1)] c ok2 by (auto simp: keeps_def)
  have "same_vote me me'" "keeps me me'"
    using app s2 same_log_keeps [OF ok1, of m2] c l(2) me'(1)
    by (meson keeps_trans same_trans(2))+
  moreover have "rs_current_term (?commit m2) = rs_current_term me"
    using app s2 by (simp add: same_vote_def)
  ultimately show ?thesis
    using app me' fin(1,2) c(4) idx ok2(2) False by (auto simp: raft_is_leader_def)
qed

text \<open>
  A response to \<^verbatim>\<open>appendentries\<close> changes only the bookkeeping of its sender and the commit index,
  which moves to the acknowledged index when the count of matching nodes is a majority.
\<close>

definition majority_matches :: "int \<Rightarrow> raft_server \<Rightarrow> bool" where
  "majority_matches point me \<longleftrightarrow> length (rs_nodes me) div 2 < 1 + length (filter (\<lambda>(a, n).
     rs_node me \<noteq> Some a \<and> raft_node_is_voting n \<and> 0 < nd_match_idx n \<and> point \<le> nd_match_idx n \<and>
     nd_match_idx n \<le> int (length (rlog me)) \<and>
     ety_term (rlog me ! nat (nd_match_idx n - 1)) = rs_current_term me) (rs_nodes me))"

lemma count_matches_ok:
  assumes "rs_ok me"
  shows "count_matches point ns votes me = Inr v \<Longrightarrow> v = votes + int (length (filter (\<lambda>(a, n).
     rs_node me \<noteq> Some a \<and> raft_node_is_voting n \<and> 0 < nd_match_idx n \<and> point \<le> nd_match_idx n \<and>
     nd_match_idx n \<le> int (length (rlog me)) \<and>
     ety_term (rlog me ! nat (nd_match_idx n - 1)) = rs_current_term me) ns))"
proof (induction ns arbitrary: votes)
  case (Cons x ns)
  obtain a n where x: "x = (a, n)" by (cases x)
  show ?case
  proof (cases "rs_node me = Some a \<or> \<not> raft_node_is_voting n \<or> \<not> 0 < nd_match_idx n")
    case True
    then have "count_matches point (x # ns) votes me = count_matches point ns votes me" by (auto simp: x)
    then show ?thesis using Cons.IH [of votes] Cons.prems True by (auto simp: x)
  next
    case False
    note get = get_entry_rlog [OF assms, of "nd_match_idx n"]
    show ?thesis
      using Cons.prems False get Cons.IH [of votes] Cons.IH [of "votes + 1"]
      by (auto simp: x split: if_splits)
  qed
qed simp

definition acknowledges :: "nat \<Rightarrow> int \<Rightarrow> raft_server \<Rightarrow> raft_server" where
  "acknowledges a i = node_update a (\<lambda>n. raft_node_set_match_idx i (raft_node_set_next_idx (i + 1) n))"

lemma aer_acknowledged_ok:
  assumes ok: "rs_ok me" and ack: "aer_acknowledged a r me = Inr (ret, me')"
  shows "keeps me me' \<and> same_vote me me' \<and> rlog me' = rlog me \<and>
    (rs_commit_idx me' = rs_commit_idx me \<or>
     rs_commit_idx me' = aer_current_idx r \<and> majority_matches (aer_current_idx r) me')"
proof -
  let ?i = "aer_current_idx r" and ?m1 = "acknowledges a (aer_current_idx r) me"
  let ?m1' = "rs_emit True (NodeHasSufficientLogs a) (node_update a raft_node_set_has_sufficient_logs ?m1)"
  obtain n :: raft_node and m2 votes m3 where
    m2: "m2 = (if \<not> raft_node_is_voting n \<and> rs_voting_cfg_change_log_idx ?m1 = - 1 \<and>
                  raft_get_current_idx ?m1 \<le> ?i + 1 \<and> cb_node_has_sufficient_logs (rs_cb ?m1) \<and>
                  \<not> raft_node_has_sufficient_logs n then ?m1' else ?m1)"
    and votes: "count_matches ?i (rs_nodes m2) 1 m2 = Inr votes"
    and m3: "(if raft_get_num_nodes m2 div 2 < votes \<and> rs_commit_idx m2 < ?i
              then raft_set_commit_idx ?i m2 else Inr m2) = Inr m3"
    and fin: "me' = m3 \<or> (\<exists>x. raft_send_appendentries a m3 = Inr (x, me'))"
  proof -
    have "aer_current_idx r \<le> raft_get_current_idx me"
      by (rule ccontr) (use ack in \<open>simp add: aer_acknowledged_def\<close>)
    then have "\<not> \<not> aer_current_idx r \<le> raft_get_current_idx me" by simp
    note ack' = ack [unfolded aer_acknowledged_def if_not_P [OF this] Let_def, folded acknowledges_def]
    show thesis
      by (rule bindR_InrE [OF ack'], erule bindR_InrE, erule bindR_InrE, erule bindR_InrE, rule that,
          rule refl, assumption, assumption, auto simp: bindR_eq_Inr split: option.split_asm)
  qed
  have m1: "same_vote me ?m1" "same_log me ?m1" unfolding acknowledges_def by (rule node_update_views; simp)+
  have "same_vote ?m1 ?m1'" "same_log ?m1 ?m1'"
    using node_update_views [of raft_node_set_has_sufficient_logs ?m1 a] emit_frame(1,2) same_trans(2,3)
    by (auto simp: flag_bits)
  then have s2: "same_vote me m2" "same_log me m2"
    using m1 same_trans(2,3) unfolding m2 by (simp_all split: if_split)
  have ok2: "rs_ok m2" "rlog m2 = rlog me" using same_log_ok [OF s2(2)] ok by auto
  have s3: "same_vote m2 m3 \<and> keeps m2 m3 \<and> rlog m3 = rlog m2 \<and> rs_nodes m3 = rs_nodes m2 \<and>
      (rs_commit_idx m3 = rs_commit_idx m2 \<or> raft_get_num_nodes m2 div 2 < votes \<and> rs_commit_idx m3 = ?i)"
    using m3 keeps_refl [OF ok2(1)] raft_set_commit_idx_ok [OF ok2(1), of ?i m3] by (auto split: if_splits)
  have s4: "same_vote m3 me' \<and> same_log m3 me' \<and> rs_nodes me' = rs_nodes m3"
    using fin raft_send_appendentries_frame [of a m3 _ me'] by auto
  have ok3: "rs_ok m3" using s3 by (simp add: keeps_def)
  have log': "rlog me' = rlog me" "rs_commit_idx me' = rs_commit_idx m3" "rs_commit_idx m2 = rs_commit_idx me"
    using s4 s3 s2 ok2 same_log_ok(2) [of m3 me'] by (simp_all add: same_log_def)
  have "majority_matches ?i me'" if "raft_get_num_nodes m2 div 2 < votes"
  proof -
    have "rs_node me' = rs_node m2" "rs_current_term me' = rs_current_term m2" "rs_nodes me' = rs_nodes m2"
      using s4 s3 by (auto simp: same_vote_def same_peers_def)
    then show ?thesis
      using count_matches_ok [OF ok2(1) votes] that log'(1) ok2(2)
      by (simp add: majority_matches_def raft_get_num_nodes_def)
  qed
  moreover have "keeps me me'"
    using same_log_keeps [OF ok s2(2)] s3 same_log_keeps [OF ok3, of me'] s4 by (meson keeps_trans)
  moreover have "same_vote me me'" using s2 s3 s4 by (meson same_trans(2))
  ultimately show ?thesis using s3 log' by auto
qed

lemma raft_recv_appendentries_response_ok:
  assumes ok: "rs_ok me" and recv: "raft_recv_appendentries_response node r me = Inr (ret, me')"
  shows "keeps me me' \<and> (same_vote me me' \<or> stepped_down (aer_term r) me me') \<and> rlog me' = rlog me \<and>
    (rs_commit_idx me' = rs_commit_idx me \<or>
     rs_state me = RAFT_STATE_LEADER \<and> aer_term r = rs_current_term me \<and> aer_success r \<noteq> 0 \<and>
     rs_commit_idx me' = aer_current_idx r \<and> majority_matches (aer_current_idx r) me')"
proof -
  consider (same) "me' = me"
    | (down) "rs_current_term me < aer_term r" "me' = raft_become_follower (raft_set_current_term (aer_term r) me)"
    | (retry) a i x where "raft_send_appendentries a (node_update a (raft_node_set_next_idx i) me) = Inr (x, me')"
    | (acked) a where "rs_state me = RAFT_STATE_LEADER" "aer_term r = rs_current_term me" "aer_success r \<noteq> 0"
        "aer_acknowledged a r me = Inr (ret, me')"
  proof (rule bindR_InrE [OF recv [unfolded raft_recv_appendentries_response_def]], goal_cases)
    case (1 stale)
    show ?case
    proof (cases "stale \<or> rs_state me \<noteq> RAFT_STATE_LEADER \<or> rs_current_term me \<noteq> aer_term r \<or> node = None")
      case True
      then show ?thesis
        using 1(1,2,6) by (cases "rs_current_term me < aer_term r") (auto simp: raft_is_leader_def split: if_split_asm)
    next
      case False
      then obtain a where a: "node = Some a" by auto
      show ?thesis
      proof (cases "aer_success r = 0")
        case True
        then have "bindR (node_at (Some a) me) (\<lambda>n.
             if \<not> 0 \<le> nd_next_idx n then Inl AssertFail
             else let next_idx = nd_next_idx n;
                      me = node_update a (raft_node_set_next_idx
                             (if aer_current_idx r < next_idx - 1
                              then min (aer_current_idx r + 1) (raft_get_current_idx me) else next_idx - 1)) me
                  in bindR (raft_send_appendentries a me) (\<lambda>(_, me). Inr (0, me))) = Inr (ret, me')"
          using 1(6) False a by (simp add: raft_is_leader_def)
        then obtain n :: raft_node where n: "(if \<not> 0 \<le> nd_next_idx n then Inl AssertFail
             else let next_idx = nd_next_idx n;
                      me = node_update a (raft_node_set_next_idx
                             (if aer_current_idx r < next_idx - 1
                              then min (aer_current_idx r + 1) (raft_get_current_idx me) else next_idx - 1)) me
                  in bindR (raft_send_appendentries a me) (\<lambda>(_, me). Inr (0, me))) = Inr (ret, me')"
          by (elim bindR_InrE) (rule that)
        show ?thesis
        proof (cases "0 \<le> nd_next_idx n")
          case True
          then have "\<not> \<not> 0 \<le> nd_next_idx n" by simp
          note n' = n [unfolded Let_def if_not_P [OF this]]
          show ?thesis by (rule bindR_InrE [OF n']) (auto intro: 1(3))
        qed (use n in simp)
      next
        case success: False
        then show ?thesis using 1(4) 1(6) False a by (simp add: raft_is_leader_def)
      qed
    qed
  qed
  then show ?thesis
  proof cases
    case same
    then show ?thesis using keeps_refl [OF ok] by simp
  next
    case down
    have log: "same_log me me'" unfolding down(2) by (rule step_down_frame [OF down(1)])
    have "stepped_down (aer_term r) me me'" unfolding down(2) by (rule step_down_frame [OF down(1)])
    then show ?thesis
      using log same_log_keeps [OF ok log] same_log_ok(2) [OF log] by (simp add: same_log_def)
  next
    case retry
    let ?m = "node_update a (raft_node_set_next_idx i) me"
    have "same_vote me ?m" "same_log me ?m" by (rule node_update_views; simp)+
    then have vote: "same_vote me me'" and log: "same_log me me'"
      using raft_send_appendentries_frame [OF retry] same_trans by blast+
    then show ?thesis using same_log_keeps [OF ok log] same_log_ok(2) [OF log] by (simp add: same_log_def)
  next
    case acked
    then show ?thesis using aer_acknowledged_ok [OF ok acked(4)] by blast
  qed
qed

section \<open>Elections\<close>

text \<open>The comparison of logs in a vote request, and who grants it.\<close>

definition up_to_date :: "msg_requestvote \<Rightarrow> raft_entry list \<Rightarrow> bool" where
  "up_to_date vr es \<longleftrightarrow> es = [] \<or> ety_term (last es) < rv_last_log_term vr \<or>
     rv_last_log_term vr = ety_term (last es) \<and> int (length es) \<le> rv_last_log_idx vr"

lemma should_grant_vote_ok:
  assumes "rs_ok me"
  shows "should_grant_vote vr me =
    Inr (rs_current_term me \<le> rv_term vr \<and> rs_voted_for me = - 1 \<and> up_to_date vr (rlog me))"
proof (cases "rlog me = []")
  case True
  then show ?thesis
    using current_idx_rlog [OF assms] by (auto simp: should_grant_vote_def raft_already_voted_def up_to_date_def)
next
  case False
  then have "raft_get_entry_from_idx (int (length (rlog me))) me = Inr (Some (last (rlog me)))"
    using get_entry_rlog [OF assms, of "int (length (rlog me))"]
    by (cases "rlog me") (auto simp: last_conv_nth nat_diff_distrib)
  then show ?thesis
    using current_idx_rlog [OF assms] False
    by (auto simp: should_grant_vote_def raft_already_voted_def up_to_date_def)
qed

text \<open>A candidate or leader has voted.\<close>

definition voted_if_active :: "raft_server \<Rightarrow> bool" where
  "voted_if_active me \<longleftrightarrow> (rs_state me = RAFT_STATE_FOLLOWER \<or> rs_voted_for me \<noteq> - 1)"

definition vote_state :: "msg_requestvote \<Rightarrow> raft_server \<Rightarrow> raft_server" where
  "vote_state vr me = (if rs_current_term me < rv_term vr
     then raft_become_follower (raft_set_current_term (rv_term vr) me) else me)"

lemma vote_state_frame:
  "same_log me (vote_state vr me)" "same_peers me (vote_state vr me)"
  "rs_current_term (vote_state vr me) = max (rs_current_term me) (rv_term vr)"
  "rs_voted_for (vote_state vr me) = (if rs_current_term me < rv_term vr then - 1 else rs_voted_for me)"
  "rs_state (vote_state vr me) = (if rs_current_term me < rv_term vr then RAFT_STATE_FOLLOWER else rs_state me)"
  using step_down_frame [of me "rv_term vr"] by (auto simp: vote_state_def stepped_down_def)

lemma raft_recv_requestvote_ok:
  assumes ok: "rs_ok me" and voted: "voted_if_active me"
  shows "\<exists>r me'. raft_recv_requestvote vr me = Inr (r, me') \<and> same_log me me' \<and> same_peers me me' \<and>
    rvr_term r = rs_current_term me' \<and> rs_current_term me' = max (rs_current_term me) (rv_term vr) \<and>
    rs_state me' = rs_state (vote_state vr me) \<and>
    (if rs_current_term me \<le> rv_term vr \<and> (rs_current_term me < rv_term vr \<or> rs_voted_for me = - 1) \<and>
        up_to_date vr (rlog me)
     then rvr_vote_granted r = 1 \<and> rs_voted_for me' = rv_candidate_id vr \<and> rs_state me' = RAFT_STATE_FOLLOWER
     else rvr_vote_granted r = 0 \<and> rs_voted_for me' = rs_voted_for (vote_state vr me))"
proof -
  let ?m = "vote_state vr me"
  have okm: "rs_ok ?m" "rlog ?m = rlog me" using same_log_ok [OF vote_state_frame(1)] ok by auto
  let ?g = "rs_current_term me \<le> rv_term vr \<and> (rs_current_term me < rv_term vr \<or> rs_voted_for me = - 1) \<and>
    up_to_date vr (rlog me)"
  have grant: "should_grant_vote vr ?m = Inr ?g"
    using should_grant_vote_ok [OF okm(1), of vr] okm(2) vote_state_frame(3,4) [where me = me and vr = vr] by auto
  show ?thesis
  proof (cases ?g)
    case True
    then have follower: "rs_state ?m = RAFT_STATE_FOLLOWER"
      using voted vote_state_frame(5) [where me = me and vr = vr] by (auto simp: voted_if_active_def)
    let ?m' = "(raft_vote_for_nodeid (rv_candidate_id vr) ?m)\<lparr>rs_current_leader := None, rs_timeout_elapsed := 0\<rparr>"
    have "raft_recv_requestvote vr me = Inr (\<lparr>rvr_term = rs_current_term ?m', rvr_vote_granted = 1\<rparr>, ?m')"
      using True grant follower
      by (simp add: raft_recv_requestvote_def vote_state_def [symmetric] raft_is_leader_def raft_is_candidate_def Let_def)
    then show ?thesis
      using True follower vote_state_frame [where me = me and vr = vr]
      by (simp add: raft_vote_for_nodeid_def rs_emit_def frame_defs node_views_def)
  next
    case False
    then have "should_grant_vote vr ?m = Inr False" using grant by (simp only:)
    then have "raft_recv_requestvote vr me = Inr (\<lparr>rvr_term = rs_current_term ?m, rvr_vote_granted = 0\<rparr>, ?m)"
      by (simp add: raft_recv_requestvote_def vote_state_def [symmetric] Let_def)
    then show ?thesis
      unfolding if_not_P [OF False] using vote_state_frame [where me = me and vr = vr] by simp
  qed
qed

text \<open>A candidate that has received a vote.\<close>

definition set_vote :: "nat option \<Rightarrow> (nat \<times> int \<times> bool \<times> bool) list \<Rightarrow> (nat \<times> int \<times> bool \<times> bool) list" where
  "set_vote p vs = map (\<lambda>(a, i, v, f). (a, i, v, if p = Some a then True else f)) vs"

definition votes_of :: "raft_server \<Rightarrow> nat list" where
  "votes_of me = map fst (filter (\<lambda>(a, i, v, f). rs_node me \<noteq> Some a \<and> v \<and> f) (node_views me))"

lemma nvotes_ok:
  assumes "raft_get_nvotes_for_me me = Inr v"
  shows "\<exists>i. raft_get_nodeid me = Inr i \<and> v = int (length (votes_of me)) + (if rs_voted_for me = i then 1 else 0)"
proof -
  have "length (votes_of me) = length (filter (\<lambda>(a, n). rs_node me \<noteq> Some a \<and> raft_node_is_voting n \<and>
      raft_node_has_vote_for_me n) (rs_nodes me))"
    by (simp add: votes_of_def node_views_def node_view_def filter_map comp_def case_prod_unfold)
  then show ?thesis
    using assms by (cases "raft_get_nodeid me") (auto simp: raft_get_nvotes_for_me_def)
qed

lemma raft_recv_requestvote_response_ok:
  assumes recv: "raft_recv_requestvote_response node r me = Inr me'"
  shows "same_log me me' \<and>
    (same_vote me me' \<or> stepped_down (rvr_term r) me me' \<or>
     rs_state me = RAFT_STATE_CANDIDATE \<and> rvr_term r = rs_current_term me \<and> rvr_vote_granted r = 1 \<and>
       rs_current_term me' = rs_current_term me \<and> rs_voted_for me' = rs_voted_for me \<and>
       rs_node me' = rs_node me \<and> node_views me' = set_vote node (node_views me) \<and>
       (rs_state me' = RAFT_STATE_CANDIDATE \<or>
        rs_state me' = RAFT_STATE_LEADER \<and>
        (\<exists>i. raft_get_nodeid me = Inr i \<and>
          raft_votes_is_majority (raft_get_num_nodes me)
            (int (length (votes_of me')) + (if rs_voted_for me = i then 1 else 0)))))"
proof (cases "rs_state me = RAFT_STATE_CANDIDATE \<and> rvr_term r = rs_current_term me \<and> rvr_vote_granted r = 1")
  case False
  then show ?thesis
    using recv step_down_frame [of me "rvr_term r"]
    by (auto simp: raft_recv_requestvote_response_def raft_is_candidate_def split: if_splits)
next
  case True
  then obtain m where m: "(case node of None \<Rightarrow> Inr me
        | Some a \<Rightarrow> bindR (node_at (Some a) me) (\<lambda>_. Inr (node_update a (raft_node_vote_for_me True) me))) = Inr m"
    and fin: "bindR (raft_get_nvotes_for_me m) (\<lambda>votes.
        if raft_votes_is_majority (raft_get_num_nodes m) votes then raft_become_leader m else Inr m) = Inr me'"
    using recv by (auto simp: raft_recv_requestvote_response_def raft_is_candidate_def elim: bindR_InrE)
  obtain votes where votes: "raft_get_nvotes_for_me m = Inr votes"
    and lead: "(if raft_votes_is_majority (raft_get_num_nodes m) votes then raft_become_leader m else Inr m) = Inr me'"
    using fin by (rule bindR_InrE)
  have views: "node_views m = set_vote node (node_views me)"
    using m by (cases node)
      (auto simp: set_vote_def node_views_def node_view_def node_update_def flag_bits bindR_eq_Inr case_prod_unfold)
  have m': "same_log me m" "rs_current_term m = rs_current_term me" "rs_voted_for m = rs_voted_for me"
      "rs_state m = rs_state me" "rs_node m = rs_node me" "raft_get_num_nodes m = raft_get_num_nodes me"
    using m by (auto simp: node_update_def same_log_def raft_get_num_nodes_def bindR_eq_Inr split: option.splits)
  have ids: "raft_get_nodeid m = raft_get_nodeid me"
  proof -
    have "map_of (map (\<lambda>(b, n). if b = a then (b, f n) else (b, n)) xs) c =
        (if c = a then map_option f (map_of xs c) else map_of xs c)"
      for a c :: nat and f :: "raft_node \<Rightarrow> raft_node" and xs
      by (induction xs) auto
    then show ?thesis
      using m by (cases node)
        (auto simp: raft_get_nodeid_def node_at_def node_update_def bindR_eq_Inr split: option.splits if_splits)
  qed
  show ?thesis
  proof (cases "raft_votes_is_majority (raft_get_num_nodes m) votes")
    case False
    then have "me' = m" using lead by simp
    then show ?thesis using m' views True by simp
  next
    case maj: True
    then have l: "same_log m me'" "same_vote (m\<lparr>rs_state := RAFT_STATE_LEADER\<rparr>) me'"
      using lead raft_become_leader_frame [of m me'] by auto
    then have "votes_of me' = votes_of m" "node_views me' = node_views m" "rs_node me' = rs_node m"
      "rs_current_term me' = rs_current_term m" "rs_voted_for me' = rs_voted_for m" "rs_state me' = RAFT_STATE_LEADER"
      by (simp_all add: votes_of_def same_vote_def same_peers_def node_views_def)
    moreover obtain i where "raft_get_nodeid m = Inr i"
        "votes = int (length (votes_of m)) + (if rs_voted_for m = i then 1 else 0)"
      using nvotes_ok [OF votes] by auto
    moreover have "same_log me me'" using m'(1) l(1) by (rule same_trans(3))
    ultimately show ?thesis using maj m' ids views True by auto
  qed
qed

end
