(* ===== verification/Raft_Safety.thy ===== *)
theory Raft_Safety
  imports Raft_Server
begin

text \<open>
  The guarantees of one Raft server, over all the sequences of events it can receive: clients'
  entries, messages of its peers with arbitrary contents, and the passing of time.  The server
  is set up with its configuration before the first event.
\<close>

section \<open>Events\<close>

datatype raft_op =
    OpPeriodic int int
  | OpAppendEntries "nat option" msg_appendentries
  | OpAppendEntriesResponse "nat option" msg_appendentries_response
  | OpRequestVote msg_requestvote
  | OpRequestVoteResponse "nat option" msg_requestvote_response
  | OpEntry raft_entry

fun raft_step :: "raft_op \<Rightarrow> raft_server \<Rightarrow> raft_server result" where
  "raft_step (OpPeriodic rnd ms) me = bindR (raft_periodic rnd ms me) (\<lambda>(_, me). Inr me)"
| "raft_step (OpAppendEntries node ae) me = bindR (raft_recv_appendentries node ae me) (\<lambda>(_, _, me). Inr me)"
| "raft_step (OpAppendEntriesResponse node r) me =
     bindR (raft_recv_appendentries_response node r me) (\<lambda>(_, me). Inr me)"
| "raft_step (OpRequestVote vr) me = bindR (raft_recv_requestvote vr me) (\<lambda>(_, me). Inr me)"
| "raft_step (OpRequestVoteResponse node r) me = raft_recv_requestvote_response node r me"
| "raft_step (OpEntry e) me = bindR (raft_recv_entry e me) (\<lambda>(_, _, me). Inr me)"

fun raft_steps :: "raft_op list \<Rightarrow> raft_server \<Rightarrow> raft_server result" where
  "raft_steps [] me = Inr me"
| "raft_steps (p # ps) me = bindR (raft_step p me) (raft_steps ps)"

text \<open>A server with voting nodes of the given identifiers, the one at position \<open>s\<close> being itself.\<close>

definition raft_setup :: "raft_cbs \<Rightarrow> int list \<Rightarrow> nat \<Rightarrow> raft_server" where
  "raft_setup cbs ids s =
     fold (\<lambda>k me. snd (raft_add_node (ids ! k) (k = s) me)) [0..<length ids]
       (raft_set_callbacks cbs raft_new)"

section \<open>Invariants\<close>

text \<open>The configuration of the server and its own node.\<close>

definition conf :: "int list \<Rightarrow> nat \<Rightarrow> raft_server \<Rightarrow> bool" where
  "conf ids s me \<longleftrightarrow> rs_node me = Some s \<and> map (\<lambda>(a, i, v, f). (a, i, v)) (node_views me) =
     map (\<lambda>k. (k, ids ! k, True)) [0..<length ids]"

definition server_inv :: "int list \<Rightarrow> nat \<Rightarrow> raft_server \<Rightarrow> bool" where
  "server_inv ids s me \<longleftrightarrow> rs_ok me \<and> conf ids s me \<and>
     (rs_state me = RAFT_STATE_FOLLOWER \<or>
      (rs_state me = RAFT_STATE_CANDIDATE \<or> rs_state me = RAFT_STATE_LEADER) \<and> rs_voted_for me = ids ! s)"

lemma raft_setup_nodes:
  assumes "distinct ids" "k \<le> length ids"
  shows "fold (\<lambda>k me. snd (raft_add_node (ids ! k) (k = s) me)) [0..<k] (raft_set_callbacks cbs raft_new) =
    (raft_set_callbacks cbs raft_new)\<lparr>rs_nodes := map (\<lambda>k. (k, raft_node_new (ids ! k))) [0..<k],
      rs_allocated := k, rs_node := (if s < k then Some s else None)\<rparr>"
  using assms(2)
proof (induction k)
  case (Suc k)
  have "List.find (\<lambda>(_, n). ids ! k = nd_id n) (map (\<lambda>k. (k, raft_node_new (ids ! k))) [0..<k]) = None"
    using assms(1) Suc.prems by (auto simp: find_None_iff raft_node_new_def nth_eq_iff_index_eq)
  then show ?case
    using Suc by (auto simp: raft_add_node_def raft_get_node_def Let_def)
qed (simp add: raft_set_callbacks_def raft_new_def raft_set_state_def)

lemma raft_setup_inv:
  assumes "distinct ids" "s < length ids"
  shows "server_inv ids s (raft_setup cbs ids s)" "rs_state (raft_setup cbs ids s) = RAFT_STATE_FOLLOWER"
    "rs_current_term (raft_setup cbs ids s) = 0" "rs_voted_for (raft_setup cbs ids s) = - 1"
    "rlog (raft_setup cbs ids s) = []"
proof -
  have new: "raft_node_is_voting (raft_node_new i) = True" for i
    by (simp add: raft_node_new_def raft_node_is_voting_def RAFT_NODE_VOTING_def)
  have log: "lg_ok (log_set_callbacks cbs log_new)" "lg_abs (log_set_callbacks cbs log_new) = []"
    by (simp_all add: log_set_callbacks_def lg_ok_def lg_inv_def lg_abs_def log_new_def INITIAL_CAPACITY_def)
  note su = raft_setup_def raft_setup_nodes [OF assms(1) order_refl]
  show "server_inv ids s (raft_setup cbs ids s)"
    unfolding su using assms(2) new log
    by (simp add: server_inv_def rs_ok_def rlog_def conf_def raft_set_callbacks_def raft_new_def
        raft_set_state_def node_views_def node_view_def comp_def raft_node_new_def)
  show "rs_state (raft_setup cbs ids s) = RAFT_STATE_FOLLOWER" "rs_current_term (raft_setup cbs ids s) = 0"
    "rs_voted_for (raft_setup cbs ids s) = - 1" "rlog (raft_setup cbs ids s) = []"
    unfolding su using log(2) by (simp_all add: raft_set_callbacks_def raft_new_def raft_set_state_def rlog_def)
qed

lemma conf_same: "same_peers me me' \<Longrightarrow> conf ids s me' = conf ids s me"
  by (simp add: conf_def same_peers_def)

lemma conf_candidate:
  assumes "conf ids s me" "became_candidate me me'" "s < length ids"
  shows "conf ids s me'" "rs_voted_for me' = ids ! s"
proof -
  have views: "map (\<lambda>(a, i, v, f). (a, i, v)) (node_views me) = map (\<lambda>(a, n). (a, nd_id n, raft_node_is_voting n)) (rs_nodes me)"
    by (simp add: node_views_def node_view_def case_prod_unfold)
  show "conf ids s me'"
    using assms(1,2) by (simp add: conf_def became_candidate_def case_prod_unfold comp_def)
  obtain n where n: "map_of (rs_nodes me) s = Some n" "rs_voted_for me' = nd_id n"
    using assms(1,2) by (auto simp: conf_def became_candidate_def)
  have "(s, nd_id n, raft_node_is_voting n) \<in> set (map (\<lambda>(a, n). (a, nd_id n, raft_node_is_voting n)) (rs_nodes me))"
    using map_of_SomeD [OF n(1)] by force
  then have "(s, nd_id n, raft_node_is_voting n) \<in> set (map (\<lambda>k. (k, ids ! k, True)) [0..<length ids])"
    using assms(1) by (simp only: conf_def views)
  then show "rs_voted_for me' = ids ! s" using n(2) by auto
qed

text \<open>
  How the vote of a server changes in one event: not at all; with a newer term; by the start of an
  election; by a vote for a candidate; by the step of a candidate back to a follower.
\<close>

definition vote_change :: "raft_server \<Rightarrow> raft_server \<Rightarrow> bool" where
  "vote_change me me' \<longleftrightarrow>
     rs_current_term me' = rs_current_term me \<and> rs_voted_for me' = rs_voted_for me \<or>
     rs_current_term me < rs_current_term me' \<or>
     rs_current_term me' = rs_current_term me \<and> rs_voted_for me = - 1 \<and> rs_state me' = RAFT_STATE_FOLLOWER \<or>
     rs_current_term me' = rs_current_term me \<and> rs_voted_for me' = - 1 \<and>
       rs_state me = RAFT_STATE_CANDIDATE \<and> rs_state me' = RAFT_STATE_FOLLOWER"

lemma conf_set_vote: "conf ids s me \<Longrightarrow> rs_node me' = rs_node me \<Longrightarrow>
    node_views me' = set_vote p (node_views me) \<Longrightarrow> conf ids s me'"
  by (simp add: conf_def set_vote_def case_prod_unfold comp_def)

lemma raft_step_ok:
  assumes inv: "server_inv ids s me" and id: "s < length ids" "- 1 \<notin> set ids"
    and step: "raft_step p me = Inr me'"
  shows "server_inv ids s me' \<and> keeps me me' \<and> vote_change me me'"
proof -
  have ok: "rs_ok me" and cf: "conf ids s me" using inv by (auto simp: server_inv_def)
  have "ids ! s \<noteq> - 1" using id nth_mem [of s ids] by metis
  then have active: "voted_if_active me" using inv by (auto simp: server_inv_def voted_if_active_def)
  have via_same: ?thesis if "same_vote me me'" "keeps me me'"
    using that inv conf_same [of me me' ids s]
    by (auto simp: server_inv_def same_vote_def keeps_def vote_change_def)
  have via_down: ?thesis if "stepped_down t me me'" "keeps me me'" for t
    using that cf conf_same [of me me' ids s]
    by (auto simp: server_inv_def stepped_down_def keeps_def vote_change_def)
  show ?thesis
  proof (cases p)
    case (OpPeriodic rnd ms)
    then obtain ret where "raft_periodic rnd ms me = Inr (ret, me')" using step by (auto elim: bindR_InrE)
    note per = raft_periodic_ok [OF ok this]
    show ?thesis
    proof (cases "same_vote me me'")
      case False
      then obtain m where m: "became_candidate me m" "same_vote m me'" using per by blast
      note c = conf_candidate [OF cf m(1) id(1)]
      then show ?thesis
        using per m conf_same [of m me' ids s]
        by (auto simp: server_inv_def became_candidate_def same_vote_def keeps_def vote_change_def)
    qed (use per via_same in blast)
  next
    case (OpAppendEntries node ae)
    then obtain ret r where "raft_recv_appendentries node ae me = Inr (ret, r, me')"
      using step by (auto elim: bindR_InrE)
    note ae = raft_recv_appendentries_ok [OF ok this]
    let ?start = "me\<lparr>rs_timeout_elapsed := 0\<rparr>"
    let ?m = "snd (ae_role ae ?start)"
    have s0: "rs_state ?start = rs_state me" "rs_current_term ?start = rs_current_term me"
      "rs_voted_for ?start = rs_voted_for me" "same_peers me ?start"
      by (simp_all add: same_peers_def node_views_def)
    note role = ae_role_frame [where me = ?start and ae = ae, OF prod.collapse [symmetric]]
    have peers: "same_peers me ?m" using role s0(4) same_trans(1) by blast
    have same: "same_vote ?m me'" "keeps me me'" using ae by blast+
    have cf': "conf ids s me'"
      using conf_same [OF peers, of ids s] conf_same [of ?m me' ids s] same(1) cf by (simp add: same_vote_def)
    have eqs: "rs_current_term me' = rs_current_term ?m" "rs_voted_for me' = rs_voted_for ?m" "rs_state me' = rs_state ?m"
      using same(1) by (simp_all add: same_vote_def)
    consider "rs_current_term ?m = rs_current_term me" "rs_voted_for ?m = rs_voted_for me" "rs_state ?m = rs_state me"
      | "rs_current_term ?m = rs_current_term me" "rs_voted_for ?m = - 1" "rs_state me = RAFT_STATE_CANDIDATE"
        "rs_state ?m = RAFT_STATE_FOLLOWER"
      | "rs_current_term me < rs_current_term ?m" "rs_state ?m = RAFT_STATE_FOLLOWER"
      using role unfolding s0(1-3) by blast
    then show ?thesis
      using same(2) cf' inv by cases (simp_all add: server_inv_def keeps_def vote_change_def eqs)
  next
    case (OpAppendEntriesResponse node r)
    then obtain ret where "raft_recv_appendentries_response node r me = Inr (ret, me')"
      using step by (auto elim: bindR_InrE)
    from raft_recv_appendentries_response_ok [OF ok this] show ?thesis using via_same via_down by blast
  next
    case (OpRequestVote vr)
    obtain r m where m: "raft_recv_requestvote vr me = Inr (r, m)" "same_log me m" "same_peers me m"
        "rs_current_term m = max (rs_current_term me) (rv_term vr)" "rs_state m = rs_state (vote_state vr me)"
        "if rs_current_term me \<le> rv_term vr \<and> (rs_current_term me < rv_term vr \<or> rs_voted_for me = - 1) \<and>
            up_to_date vr (rlog me)
         then rvr_vote_granted r = 1 \<and> rs_voted_for m = rv_candidate_id vr \<and> rs_state m = RAFT_STATE_FOLLOWER
         else rvr_vote_granted r = 0 \<and> rs_voted_for m = rs_voted_for (vote_state vr me)"
      using raft_recv_requestvote_ok [OF ok active, of vr] by auto
    then have "m = me'" using step OpRequestVote by simp
    then show ?thesis
      using m(2-) same_log_keeps [OF ok m(2)] conf_same [OF m(3), of ids s] inv
        vote_state_frame(4,5) [where me = me and vr = vr]
      by (auto simp: server_inv_def vote_change_def keeps_def split: if_splits)
  next
    case (OpRequestVoteResponse node r)
    then have "raft_recv_requestvote_response node r me = Inr me'" using step by simp
    note rr = raft_recv_requestvote_response_ok [OF this]
    have k: "keeps me me'" using same_log_keeps [OF ok] rr by blast
    consider "same_vote me me'" | "stepped_down (rvr_term r) me me'"
      | "rs_state me = RAFT_STATE_CANDIDATE" "rs_current_term me' = rs_current_term me" "rs_voted_for me' = rs_voted_for me"
        "rs_node me' = rs_node me" "node_views me' = set_vote node (node_views me)"
        "rs_state me' = RAFT_STATE_CANDIDATE \<or> rs_state me' = RAFT_STATE_LEADER"
      using rr by blast
    then show ?thesis
    proof cases
      case 3
      then show ?thesis
        using k conf_set_vote [OF cf 3(4,5)] inv by (auto simp: server_inv_def vote_change_def keeps_def)
    qed (use via_same via_down k in blast)+
  next
    case (OpEntry e)
    then obtain ret r where "raft_recv_entry e me = Inr (ret, r, me')" using step by (auto elim: bindR_InrE)
    from raft_recv_entry_ok [OF ok this] show ?thesis using via_same by blast
  qed
qed

lemma raft_steps_ok:
  "server_inv ids s me \<Longrightarrow> s < length ids \<Longrightarrow> - 1 \<notin> set ids \<Longrightarrow> raft_steps ps me = Inr me' \<Longrightarrow>
   server_inv ids s me' \<and> keeps me me' \<and> rs_current_term me \<le> rs_current_term me'"
proof (induction ps arbitrary: me)
  case Nil
  then show ?case using keeps_refl by (auto simp: server_inv_def)
next
  case (Cons p ps)
  obtain m where m: "raft_step p me = Inr m" "raft_steps ps m = Inr me'"
    using Cons.prems(4) by (auto elim: bindR_InrE)
  note step = raft_step_ok [OF Cons.prems(1-3) m(1)]
  then show ?case
    using Cons.IH [OF _ Cons.prems(2,3) m(2)] keeps_trans [of me m me'] by (force simp: vote_change_def)
qed

lemmas raft_reachable = raft_steps_ok [OF raft_setup_inv(1)]

section \<open>An example\<close>

definition example_cbs :: raft_cbs where
  "example_cbs = no_cbs\<lparr>cb_send_requestvote := True, cb_send_appendentries := True, cb_applylog := True\<rparr>"

text \<open>A server of three is elected and commits one entry.\<close>

definition example_ops :: "raft_op list" where
  "example_ops = [OpPeriodic 7 1000,
     OpRequestVoteResponse (Some 1) \<lparr>rvr_term = 1, rvr_vote_granted = 1\<rparr>,
     OpEntry (example_entry 0 5),
     OpAppendEntriesResponse (Some 1) \<lparr>aer_term = 1, aer_success = 1, aer_current_idx = 1, aer_first_idx = 1\<rparr>]"

definition example_setup :: raft_server where
  "example_setup = raft_setup example_cbs [10, 11, 12] 0"

definition get_right :: "'a \<Rightarrow> 'e + 'a \<Rightarrow> 'a" where
  "get_right d r = (case r of Inl _ \<Rightarrow> d | Inr x \<Rightarrow> x)"

lemma get_right_Inr: "isl r = False \<Longrightarrow> r = Inr (get_right d r)"
  by (cases r) (simp_all add: get_right_def)

definition example_leader :: raft_server where
  "example_leader = get_right raft_new (raft_steps example_ops example_setup)"

definition example_append :: raft_op where
  "example_append = OpEntry (example_entry 0 6)"

definition example_leader' :: raft_server where
  "example_leader' = get_right raft_new (raft_steps [example_append] example_leader)"

lemma example_conf: "distinct [10, 11, 12 :: int]" "0 < length [10, 11, 12 :: int]" "- 1 \<notin> set [10, 11, 12 :: int]"
  by simp_all

lemma example_leader_run: "raft_steps example_ops example_setup = Inr example_leader"
  unfolding example_leader_def by (rule get_right_Inr) code_simp

lemma example_leader_run': "raft_steps [example_append] example_leader = Inr example_leader'"
  unfolding example_leader'_def by (rule get_right_Inr) code_simp

section \<open>Properties\<close>

text \<open>
  C4: Committed entries are never lost or changed: whatever messages arrive, in whatever order and
  with whatever contents, a server that returns from all of them still has the entries it had
  committed before, at the same indices; the commit index never decreases and stays inside the
  log, and no entry beyond it has been applied.
\<close>

theorem raft_committed_entries_kept:
  assumes "distinct ids" and "s < length ids" and "- 1 \<notin> set ids"
    and "raft_steps ps (raft_setup cbs ids s) = Inr me" and "raft_steps qs me = Inr me'"
  shows "rs_commit_idx me \<le> rs_commit_idx me' \<and>
    take (nat (rs_commit_idx me)) (rlog me') = take (nat (rs_commit_idx me)) (rlog me) \<and>
    0 \<le> rs_last_applied_idx me' \<and> rs_last_applied_idx me' \<le> rs_commit_idx me' \<and>
    rs_commit_idx me' \<le> int (length (rlog me'))"
  using raft_reachable [OF assms(1,2,2,3,4)] raft_steps_ok [OF _ assms(2,3,5)]
  by (auto simp: keeps_def rs_ok_def)

theorem raft_committed_entries_kept_witness:
  "rs_commit_idx example_leader = 1 \<and> take 1 (rlog example_leader') = [example_entry 1 5] \<and>
   length (rlog example_leader') = 2"
proof -
  have "rs_commit_idx example_leader = 1" "take 1 (rlog example_leader) = [example_entry 1 5]"
    "length (rlog example_leader') = 2"
    by code_simp+
  then show ?thesis
    using raft_committed_entries_kept [OF example_conf example_leader_run [unfolded example_setup_def] example_leader_run']
    by simp
qed


definition example_ae :: msg_appendentries where
  "example_ae = \<lparr>ae_term = 2, ae_prev_log_idx = 1, ae_prev_log_term = 1, ae_leader_commit = 1,
     ae_entries = [example_entry 2 8, example_entry 2 9]\<rparr>"

definition example_follower :: "int \<times> msg_appendentries_response \<times> raft_server" where
  "example_follower = get_right (0, \<lparr>aer_term = 0, aer_success = 0, aer_current_idx = 0, aer_first_idx = 0\<rparr>, raft_new)
     (raft_recv_appendentries (Some 2) example_ae example_leader)"





definition example_before :: raft_server where
  "example_before = get_right raft_new (raft_steps (take 3 example_ops) example_setup)"


text \<open>
  C20: \<^verbatim>\<open>raft_apply_all\<close> returns, having applied exactly the committed entries that were not applied
  yet, once each and in the order of the log.
\<close>

theorem raft_apply_all_correct:
  assumes "distinct ids" and "s < length ids" and "- 1 \<notin> set ids"
    and "raft_steps ps (raft_setup cbs ids s) = Inr me"
  shows "\<exists>me'. raft_apply_all me = Some (Inr me') \<and> rs_last_applied_idx me' = rs_commit_idx me \<and>
    rs_trace me' = rs_trace me @
      (if cb_applylog (rs_cb me)
       then map ApplyLog (drop (nat (rs_last_applied_idx me)) (take (nat (rs_commit_idx me)) (rlog me))) else [])"
proof -
  have "rs_ok me" using raft_reachable [OF assms(1,2,2,3,4)] by (simp add: server_inv_def)
  then show ?thesis
  proof (induction "nat (rs_commit_idx me - rs_last_applied_idx me)" arbitrary: me)
    case 0
    then have eq: "rs_last_applied_idx me = rs_commit_idx me" by (simp add: rs_ok_def)
    then show ?case using raft_apply_all.simps [of me] by simp
  next
    case (Suc k)
    let ?a = "nat (rs_last_applied_idx me)" and ?c = "nat (rs_commit_idx me)"
    have lt: "rs_last_applied_idx me < rs_commit_idx me" using Suc.hyps(2) by simp
    have ok: "0 \<le> rs_last_applied_idx me" "rs_commit_idx me \<le> int (length (rlog me))"
      using Suc.prems by (auto simp: rs_ok_def)
    have get: "raft_get_entry_from_idx (rs_last_applied_idx me + 1) me = Inr (Some (rlog me ! ?a))"
      using get_entry_rlog [OF Suc.prems, of "rs_last_applied_idx me + 1"] lt ok by simp
    then obtain m where m: "raft_apply_entry me = Inr (0, m)"
      using lt by (simp add: raft_apply_entry_def Let_def)
    note app = raft_apply_entry_ok [OF Suc.prems m]
    have m': "rs_last_applied_idx m = rs_last_applied_idx me + 1" "rs_commit_idx m = rs_commit_idx me"
        "rlog m = rlog me" "rs_cb m = rs_cb me" "rs_ok m"
        "rs_trace m = rs_trace me @ (if cb_applylog (rs_cb me) then [ApplyLog (rlog me ! ?a)] else [])"
      using app lt by (auto simp: keeps_def)
    have "k = nat (rs_commit_idx m - rs_last_applied_idx m)" using Suc.hyps(2) m'(1,2) by simp
    from Suc.hyps(1) [OF this m'(5)] obtain me' where me': "raft_apply_all m = Some (Inr me')"
        "rs_last_applied_idx me' = rs_commit_idx me"
        "rs_trace me' = rs_trace m @ (if cb_applylog (rs_cb me)
           then map ApplyLog (drop (Suc ?a) (take ?c (rlog me))) else [])"
      using m' ok(1) by (auto simp: nat_add_distrib)
    have "drop ?a (take ?c (rlog me)) = rlog me ! ?a # drop (Suc ?a) (take ?c (rlog me))"
      using Cons_nth_drop_Suc [of ?a "take ?c (rlog me)"] lt ok by simp
    then show ?case
      using me' m m'(6) lt raft_apply_all.simps [of me] by simp
  qed
qed

theorem raft_apply_all_correct_witness:
  "\<exists>me'. raft_apply_all example_leader = Some (Inr me') \<and>
     rs_trace me' = rs_trace example_leader @ [ApplyLog (example_entry 1 5)]"
proof -
  have "rs_last_applied_idx example_leader = 0" "rs_commit_idx example_leader = 1"
    "rlog example_leader = [example_entry 1 5]" "cb_applylog (rs_cb example_leader)"
    by code_simp+
  then show ?thesis
    using raft_apply_all_correct [OF example_conf example_leader_run [unfolded example_setup_def]] by auto
qed

end
