(* ===== verification/Raft_Cluster.thy ===== *)
theory Raft_Cluster
  imports Raft_Safety
begin

text \<open>
  Election safety of a cluster of Raft servers: no two of them are ever leaders in the same term.

  The cluster is the array of its servers and the set of the vote responses ever sent, which the
  network may lose, repeat and reorder.  Every other message may have arbitrary contents, so the
  steps include whatever the servers really send to each other.  Two histories are recorded for
  the statement: the votes that servers have held and the terms in which they have been leaders.
\<close>

section \<open>The cluster\<close>

record cluster =
  cl_servers :: "raft_server list"
  cl_net :: "(nat \<times> int \<times> msg_requestvote_response) set"
  cl_votes :: "(nat \<times> int \<times> int) set"
  cl_leaders :: "(nat \<times> int) set"

definition cluster_new :: "raft_cbs \<Rightarrow> int list \<Rightarrow> cluster" where
  "cluster_new cbs ids = \<lparr>cl_servers = map (raft_setup cbs ids) [0..<length ids],
     cl_net = {}, cl_votes = {}, cl_leaders = {}\<rparr>"

text \<open>Server \<open>k\<close> gets the state \<open>me\<close>; its vote and its leadership enter the histories.\<close>

definition cl_update :: "nat \<Rightarrow> raft_server \<Rightarrow> cluster \<Rightarrow> cluster" where
  "cl_update k me cl = cl\<lparr>cl_servers := (cl_servers cl)[k := me],
     cl_votes := cl_votes cl \<union> (if rs_voted_for me = - 1 then {} else {(k, rs_current_term me, rs_voted_for me)}),
     cl_leaders := cl_leaders cl \<union> (if rs_state me = RAFT_STATE_LEADER then {(k, rs_current_term me)} else {})\<rparr>"

fun is_vote_op :: "raft_op \<Rightarrow> bool" where
  "is_vote_op (OpRequestVote _) = True"
| "is_vote_op (OpRequestVoteResponse _ _) = True"
| "is_vote_op _ = False"

text \<open>
  The steps: an event at one server; a vote request at server \<open>j\<close>, whose response goes to the
  candidate it names; the delivery of the response that server \<open>j\<close> sent to server \<open>i\<close>.
\<close>

inductive cluster_step :: "int list \<Rightarrow> cluster \<Rightarrow> cluster \<Rightarrow> bool" for ids :: "int list" where
  event: "cluster_step ids cl (cl_update i me' cl)"
    if "i < length ids" "\<not> is_vote_op p" "raft_step p (cl_servers cl ! i) = Inr me'"
| request: "cluster_step ids cl
      ((cl_update j me' cl)\<lparr>cl_net := insert (j, rv_candidate_id vr, r) (cl_net cl)\<rparr>)"
    if "j < length ids" "raft_recv_requestvote vr (cl_servers cl ! j) = Inr (r, me')" "rv_candidate_id vr \<noteq> - 1"
| response: "cluster_step ids cl (cl_update i me' cl)"
    if "i < length ids" "(j, ids ! i, r) \<in> cl_net cl"
      "raft_recv_requestvote_response (Some j) r (cl_servers cl ! i) = Inr me'"

inductive cluster_run :: "raft_cbs \<Rightarrow> int list \<Rightarrow> cluster \<Rightarrow> bool" for cbs :: raft_cbs and ids :: "int list" where
  run_init: "cluster_run cbs ids (cluster_new cbs ids)"
| run_more: "cluster_run cbs ids cl'" if "cluster_run cbs ids cl" "cluster_step ids cl cl'"

section \<open>Changes of role\<close>

text \<open>
  Only the response to a vote request makes a leader; a leader leaves its role only with a newer
  term; a new candidate has no votes but its own.
\<close>

definition no_flags :: "raft_server \<Rightarrow> bool" where
  "no_flags me \<longleftrightarrow> list_all (\<lambda>(a, i, v, f). \<not> f) (node_views me)"

definition role_change :: "raft_server \<Rightarrow> raft_server \<Rightarrow> bool" where
  "role_change me me' \<longleftrightarrow>
     (rs_state me = RAFT_STATE_LEADER \<and> rs_current_term me' = rs_current_term me \<longrightarrow> rs_state me' = RAFT_STATE_LEADER) \<and>
     (rs_state me' = RAFT_STATE_LEADER \<longrightarrow> rs_state me = RAFT_STATE_LEADER \<and> rs_current_term me' = rs_current_term me) \<and>
     (rs_state me' = RAFT_STATE_CANDIDATE \<longrightarrow> no_flags me' \<and> rs_current_term me < rs_current_term me' \<or>
        rs_state me = RAFT_STATE_CANDIDATE \<and> rs_current_term me' = rs_current_term me \<and> node_views me' = node_views me)"

lemma role_same: "same_vote me me' \<Longrightarrow> role_change me me'"
  by (auto simp: role_change_def same_vote_def same_peers_def)

lemma role_down: "stepped_down t me me' \<Longrightarrow> role_change me me'"
  by (auto simp: role_change_def stepped_down_def)

lemma raft_step_role:
  assumes ok: "rs_ok me" and step: "raft_step p me = Inr me'" and p: "\<not> is_vote_op p"
  shows "role_change me me'"
proof (cases p)
  case (OpPeriodic rnd ms)
  then obtain ret where "raft_periodic rnd ms me = Inr (ret, me')" using step by (auto elim: bindR_InrE)
  note per = raft_periodic_ok [OF ok this]
  show ?thesis
  proof (cases "same_vote me me'")
    case False
    then obtain m where m: "became_candidate me m" "same_vote m me'" "rs_state me \<noteq> RAFT_STATE_LEADER"
      using per by blast
    then have "no_flags me'"
      by (auto simp: no_flags_def became_candidate_def same_vote_def same_peers_def list_all_iff)
    then show ?thesis using m by (auto simp: role_change_def became_candidate_def same_vote_def)
  qed (simp add: role_same)
next
  case (OpAppendEntries node ae)
  then obtain ret r where "raft_recv_appendentries node ae me = Inr (ret, r, me')"
    using step by (auto elim: bindR_InrE)
  note ae = raft_recv_appendentries_ok [OF ok this]
  let ?start = "me\<lparr>rs_timeout_elapsed := 0\<rparr>"
  have same: "same_vote (snd (ae_role ae ?start)) me'" using ae by blast
  have start: "rs_state ?start = rs_state me" "rs_current_term ?start = rs_current_term me"
      "node_views ?start = node_views me"
    by (simp_all add: node_views_def)
  note role = ae_role_frame [where me = ?start and ae = ae, OF prod.collapse [symmetric]]
  have views: "node_views me' = node_views me"
    using role same start(3) by (simp add: same_vote_def same_peers_def)
  show ?thesis
    using role same unfolding role_change_def same_vote_def start(1,2) views by auto
next
  case (OpAppendEntriesResponse node r)
  then obtain ret where "raft_recv_appendentries_response node r me = Inr (ret, me')"
    using step by (auto elim: bindR_InrE)
  from raft_recv_appendentries_response_ok [OF ok this] show ?thesis using role_same role_down by blast
next
  case (OpEntry e)
  then obtain ret r where "raft_recv_entry e me = Inr (ret, r, me')" using step by (auto elim: bindR_InrE)
  from raft_recv_entry_ok [OF ok this] show ?thesis using role_same by blast
qed (use p in simp_all)

section \<open>The invariant\<close>

abbreviation srv :: "cluster \<Rightarrow> nat \<Rightarrow> raft_server" where
  "srv cl k \<equiv> cl_servers cl ! k"

text \<open>The recorded votes: their terms are not in the future, and in its current term a server has
  held its present vote and, after a step back from candidate, the one for itself.\<close>

definition votes_inv :: "int list \<Rightarrow> cluster \<Rightarrow> bool" where
  "votes_inv ids cl \<longleftrightarrow>
     (\<forall>k < length ids. rs_voted_for (srv cl k) \<noteq> - 1 \<longrightarrow>
        (k, rs_current_term (srv cl k), rs_voted_for (srv cl k)) \<in> cl_votes cl) \<and>
     (\<forall>k t c. (k, t, c) \<in> cl_votes cl \<longrightarrow> k < length ids \<and> t \<le> rs_current_term (srv cl k) \<and> c \<noteq> - 1 \<and>
        (t = rs_current_term (srv cl k) \<longrightarrow> c = rs_voted_for (srv cl k) \<or>
           c = ids ! k \<and> rs_state (srv cl k) = RAFT_STATE_FOLLOWER))"

text \<open>A server that has voted twice in a term has voted for itself and was never its leader.\<close>

definition double_votes_inv :: "int list \<Rightarrow> cluster \<Rightarrow> bool" where
  "double_votes_inv ids cl \<longleftrightarrow>
     (\<forall>k t c c'. (k, t, c) \<in> cl_votes cl \<longrightarrow> (k, t, c') \<in> cl_votes cl \<longrightarrow> c \<noteq> c' \<longrightarrow>
        (ids ! k = c \<or> ids ! k = c') \<and> (k, t) \<notin> cl_leaders cl)"

definition has_quorum :: "int list \<Rightarrow> (nat \<times> int \<times> int) set \<Rightarrow> nat \<Rightarrow> int \<Rightarrow> bool" where
  "has_quorum ids votes k t \<longleftrightarrow>
     (\<exists>Q \<subseteq> {..<length ids}. length ids < 2 * card Q \<and> (\<forall>v \<in> Q. (v, t, ids ! k) \<in> votes))"

definition leaders_inv :: "int list \<Rightarrow> cluster \<Rightarrow> bool" where
  "leaders_inv ids cl \<longleftrightarrow>
     (\<forall>k < length ids. rs_state (srv cl k) = RAFT_STATE_LEADER \<longrightarrow> (k, rs_current_term (srv cl k)) \<in> cl_leaders cl) \<and>
     (\<forall>k t. (k, t) \<in> cl_leaders cl \<longrightarrow> k < length ids \<and> has_quorum ids (cl_votes cl) k t \<and>
        (t < rs_current_term (srv cl k) \<or>
         t = rs_current_term (srv cl k) \<and> rs_state (srv cl k) = RAFT_STATE_LEADER))"

definition flags_recorded :: "int list \<Rightarrow> (nat \<times> int \<times> int) set \<Rightarrow> nat \<Rightarrow> raft_server \<Rightarrow> bool" where
  "flags_recorded ids votes k me \<longleftrightarrow>
     (\<forall>(a, i, v, f) \<in> set (node_views me). f \<longrightarrow> (a, rs_current_term me, ids ! k) \<in> votes)"

definition messages_inv :: "int list \<Rightarrow> cluster \<Rightarrow> bool" where
  "messages_inv ids cl \<longleftrightarrow>
     (\<forall>j c r. (j, c, r) \<in> cl_net cl \<longrightarrow> rvr_vote_granted r = 1 \<longrightarrow> (j, rvr_term r, c) \<in> cl_votes cl) \<and>
     (\<forall>k < length ids. rs_state (srv cl k) = RAFT_STATE_CANDIDATE \<longrightarrow>
        flags_recorded ids (cl_votes cl) k (srv cl k))"

definition cl_inv :: "int list \<Rightarrow> cluster \<Rightarrow> bool" where
  "cl_inv ids cl \<longleftrightarrow> length (cl_servers cl) = length ids \<and>
     (\<forall>k < length ids. server_inv ids k (srv cl k)) \<and>
     votes_inv ids cl \<and> double_votes_inv ids cl \<and> leaders_inv ids cl \<and> messages_inv ids cl"

lemma has_quorum_mono: "has_quorum ids votes k t \<Longrightarrow> votes \<subseteq> votes' \<Longrightarrow> has_quorum ids votes' k t"
  unfolding has_quorum_def by blast

lemma flags_recorded_mono: "flags_recorded ids votes k me \<Longrightarrow> votes \<subseteq> votes' \<Longrightarrow> flags_recorded ids votes' k me"
  unfolding flags_recorded_def by blast

lemma srv_update:
  "i < length (cl_servers cl) \<Longrightarrow> srv (cl_update i me' cl) k = (if k = i then me' else srv cl k)"
  by (simp add: cl_update_def)

lemma votes_update:
  "(k, t, c) \<in> cl_votes (cl_update i me' cl) \<longleftrightarrow> (k, t, c) \<in> cl_votes cl \<or>
     k = i \<and> t = rs_current_term me' \<and> c = rs_voted_for me' \<and> c \<noteq> - 1"
  by (auto simp: cl_update_def)

lemma leaders_update:
  "(k, t) \<in> cl_leaders (cl_update i me' cl) \<longleftrightarrow> (k, t) \<in> cl_leaders cl \<or>
     k = i \<and> t = rs_current_term me' \<and> rs_state me' = RAFT_STATE_LEADER"
  by (auto simp: cl_update_def)

lemma cl_update_mono: "cl_votes cl \<subseteq> cl_votes (cl_update i me' cl)" "cl_net (cl_update i me' cl) = cl_net cl"
  by (auto simp: cl_update_def)

text \<open>
  The step of one server, from \<open>me\<close> to \<open>me'\<close>: what it has to satisfy for the cluster's invariant.
\<close>

definition good_step :: "int list \<Rightarrow> (nat \<times> int \<times> int) set \<Rightarrow> nat \<Rightarrow> raft_server \<Rightarrow> raft_server \<Rightarrow> bool" where
  "good_step ids votes k me me' \<longleftrightarrow> server_inv ids k me' \<and> vote_change me me' \<and>
     (rs_state me = RAFT_STATE_LEADER \<and> rs_current_term me' = rs_current_term me \<longrightarrow> rs_state me' = RAFT_STATE_LEADER) \<and>
     (rs_state me' = RAFT_STATE_LEADER \<longrightarrow> rs_current_term me' = rs_current_term me \<and>
        (rs_state me = RAFT_STATE_LEADER \<or>
         rs_state me = RAFT_STATE_CANDIDATE \<and> has_quorum ids votes k (rs_current_term me))) \<and>
     (rs_state me' = RAFT_STATE_CANDIDATE \<longrightarrow>
        (rs_current_term me < rs_current_term me' \<or> rs_state me = RAFT_STATE_CANDIDATE) \<and>
        flags_recorded ids votes k me')"

text \<open>Within a term, a follower stays one and a server keeps its vote or has none before or after.\<close>

lemma good_step_term:
  assumes "good_step ids votes k me me'" "server_inv ids k me"
  obtains (newer) "rs_current_term me < rs_current_term me'"
    | (kept) "rs_current_term me' = rs_current_term me" "rs_voted_for me' = rs_voted_for me"
        "rs_state me = RAFT_STATE_FOLLOWER \<longrightarrow> rs_state me' = RAFT_STATE_FOLLOWER"
    | (voted) "rs_current_term me' = rs_current_term me" "rs_voted_for me = - 1" "rs_state me' = RAFT_STATE_FOLLOWER"
        "rs_state me \<noteq> RAFT_STATE_LEADER"
    | (resigned) "rs_current_term me' = rs_current_term me" "rs_voted_for me = ids ! k" "rs_voted_for me' = - 1"
        "rs_state me' = RAFT_STATE_FOLLOWER" "rs_state me \<noteq> RAFT_STATE_LEADER"
  using assms by (auto simp: good_step_def vote_change_def server_inv_def)

lemma votes_inv_update:
  assumes inv: "cl_inv ids cl" and i: "i < length ids" and step: "good_step ids (cl_votes cl) i (srv cl i) me'"
    and own: "ids ! i \<noteq> - 1"
  shows "votes_inv ids (cl_update i me' cl)"
proof -
  have len: "i < length (cl_servers cl)" using inv i by (simp add: cl_inv_def)
  have sinv: "server_inv ids i (srv cl i)" and vinv: "votes_inv ids cl" using inv i by (auto simp: cl_inv_def)
  have old: "t \<le> rs_current_term me' \<and> (t = rs_current_term me' \<longrightarrow> c = rs_voted_for me' \<or>
      c = ids ! i \<and> rs_state me' = RAFT_STATE_FOLLOWER)" if "(i, t, c) \<in> cl_votes cl" for t c
  proof -
    have v: "t \<le> rs_current_term (srv cl i)" "c \<noteq> - 1"
        "t = rs_current_term (srv cl i) \<longrightarrow> c = rs_voted_for (srv cl i) \<or>
           c = ids ! i \<and> rs_state (srv cl i) = RAFT_STATE_FOLLOWER"
      using vinv that unfolding votes_inv_def by blast+
    show ?thesis
      using step sinv by (cases rule: good_step_term) (use v in auto)
  qed
  show ?thesis
    using vinv old i unfolding votes_inv_def votes_update srv_update [OF len] by auto
qed

lemma double_votes_inv_update:
  assumes inv: "cl_inv ids cl" and i: "i < length ids" and step: "good_step ids (cl_votes cl) i (srv cl i) me'"
  shows "double_votes_inv ids (cl_update i me' cl)"
proof -
  have sinv: "server_inv ids i (srv cl i)" and vinv: "votes_inv ids cl" and dinv: "double_votes_inv ids cl"
    and linv: "leaders_inv ids cl"
    using inv i by (auto simp: cl_inv_def)
  let ?t = "rs_current_term me'"
  have v: "t \<le> rs_current_term (srv cl i) \<and> c \<noteq> - 1 \<and>
      (t = rs_current_term (srv cl i) \<longrightarrow> c = rs_voted_for (srv cl i) \<or>
        c = ids ! i \<and> rs_state (srv cl i) = RAFT_STATE_FOLLOWER)" if "(i, t, c) \<in> cl_votes cl" for t c
    using vinv that unfolding votes_inv_def by blast
  have l: "t < rs_current_term (srv cl i) \<or> t = rs_current_term (srv cl i) \<and> rs_state (srv cl i) = RAFT_STATE_LEADER"
    if "(i, t) \<in> cl_leaders cl" for t
    using linv that unfolding leaders_inv_def by blast
  text \<open>A vote that differs from the new one in the same term.\<close>
  have new: "ids ! i = c \<and> (i, ?t) \<notin> cl_leaders cl \<and> rs_state me' \<noteq> RAFT_STATE_LEADER"
    if "(i, ?t, c) \<in> cl_votes cl" "c \<noteq> rs_voted_for me'" "rs_voted_for me' \<noteq> - 1" for c
    using step sinv
  proof (cases rule: good_step_term)
    case newer
    then show ?thesis using v [OF that(1)] by simp
  next
    case kept
    then show ?thesis using v [OF that(1)] l [of ?t] that(2) by auto
  next
    case voted
    then show ?thesis using v [OF that(1)] l [of ?t] by auto
  next
    case resigned
    then show ?thesis using that(3) by simp
  qed
  text \<open>Two votes for different candidates in the term of a new leader.\<close>
  have lead: "c = c'" if "rs_state me' = RAFT_STATE_LEADER" "(i, ?t, c) \<in> cl_votes cl" "(i, ?t, c') \<in> cl_votes cl" for c c'
    using step that v [OF that(2)] v [OF that(3)] by (auto simp: good_step_def)
  show ?thesis
    unfolding double_votes_inv_def votes_update leaders_update
  proof (intro allI impI, goal_cases)
    case (1 k t c c')
    consider "(k, t, c) \<in> cl_votes cl" "(k, t, c') \<in> cl_votes cl"
      | "k = i" "t = ?t" "(i, ?t, c) \<in> cl_votes cl" "c' = rs_voted_for me'" "c' \<noteq> - 1"
      | "k = i" "t = ?t" "(i, ?t, c') \<in> cl_votes cl" "c = rs_voted_for me'" "c \<noteq> - 1"
      using 1 by blast
    then show ?case
    proof cases
      case 1
      then show ?thesis using dinv \<open>c \<noteq> c'\<close> lead unfolding double_votes_inv_def by blast
    next
      case 2
      then show ?thesis using new [of c] \<open>c \<noteq> c'\<close> by simp
    next
      case 3
      then show ?thesis using new [of c'] \<open>c \<noteq> c'\<close> by simp
    qed
  qed
qed

lemma leaders_inv_update:
  assumes inv: "cl_inv ids cl" and i: "i < length ids" and step: "good_step ids (cl_votes cl) i (srv cl i) me'"
  shows "leaders_inv ids (cl_update i me' cl)"
proof -
  have len: "i < length (cl_servers cl)" using inv i by (simp add: cl_inv_def)
  have sinv: "server_inv ids i (srv cl i)" and linv: "leaders_inv ids cl" using inv i by (auto simp: cl_inv_def)
  have mono: "rs_current_term (srv cl i) \<le> rs_current_term me'"
    using step by (auto simp: good_step_def vote_change_def)
  have quorum: "has_quorum ids (cl_votes cl) i (rs_current_term me')" if "rs_state me' = RAFT_STATE_LEADER"
    using step that linv i unfolding good_step_def leaders_inv_def by metis
  have old: "k < length ids \<and> has_quorum ids (cl_votes (cl_update i me' cl)) k t \<and>
      (t < rs_current_term (srv cl k) \<or> t = rs_current_term (srv cl k) \<and> rs_state (srv cl k) = RAFT_STATE_LEADER)"
    if "(k, t) \<in> cl_leaders cl" for k t
    using linv that has_quorum_mono [OF _ cl_update_mono(1)] unfolding leaders_inv_def by blast
  have "k < length ids \<and> has_quorum ids (cl_votes (cl_update i me' cl)) k t \<and>
      (t < rs_current_term (srv (cl_update i me' cl) k) \<or>
       t = rs_current_term (srv (cl_update i me' cl) k) \<and> rs_state (srv (cl_update i me' cl) k) = RAFT_STATE_LEADER)"
    if "(k, t) \<in> cl_leaders cl \<or> k = i \<and> t = rs_current_term me' \<and> rs_state me' = RAFT_STATE_LEADER" for k t
    using that
  proof
    assume "(k, t) \<in> cl_leaders cl"
    note o = old [OF this]
    show ?thesis
    proof (cases "k = i")
      case True
      then show ?thesis
        using o mono step unfolding srv_update [OF len] good_step_def by (cases "t < rs_current_term me'") auto
    next
      case False
      then show ?thesis using o by (simp add: srv_update [OF len])
    qed
  next
    assume k: "k = i \<and> t = rs_current_term me' \<and> rs_state me' = RAFT_STATE_LEADER"
    then show ?thesis
      using has_quorum_mono [OF quorum cl_update_mono(1)] i by (simp add: srv_update [OF len])
  qed
  moreover have "(k, rs_current_term (srv (cl_update i me' cl) k)) \<in> cl_leaders (cl_update i me' cl)"
    if "k < length ids" "rs_state (srv (cl_update i me' cl) k) = RAFT_STATE_LEADER" for k
    using that linv unfolding leaders_inv_def leaders_update srv_update [OF len] by (auto split: if_splits)
  ultimately show ?thesis
    unfolding leaders_inv_def leaders_update by blast
qed

lemma cl_inv_update:
  assumes inv: "cl_inv ids cl" and i: "i < length ids" and step: "good_step ids (cl_votes cl) i (srv cl i) me'"
    and own: "ids ! i \<noteq> - 1"
  shows "cl_inv ids (cl_update i me' cl)"
proof -
  have len: "i < length (cl_servers cl)" using inv i by (simp add: cl_inv_def)
  have minv: "messages_inv ids cl" using inv by (simp add: cl_inv_def)
  have "flags_recorded ids (cl_votes cl) i me'" if "rs_state me' = RAFT_STATE_CANDIDATE"
    using step that by (simp add: good_step_def)
  then have "messages_inv ids (cl_update i me' cl)"
    using minv cl_update_mono(1) [of cl i me'] flags_recorded_mono [OF _ cl_update_mono(1)]
    unfolding messages_inv_def cl_update_mono(2) srv_update [OF len] by (auto split: if_splits)
  moreover have "server_inv ids k (srv (cl_update i me' cl) k)" if "k < length ids" for k
    using inv step that by (simp add: srv_update [OF len] cl_inv_def good_step_def)
  moreover have "length (cl_servers (cl_update i me' cl)) = length ids"
    using inv by (simp add: cl_inv_def cl_update_def)
  ultimately show ?thesis
    using votes_inv_update [OF inv i step own] double_votes_inv_update [OF inv i step] leaders_inv_update [OF inv i step]
    by (simp add: cl_inv_def)
qed

section \<open>Preservation\<close>

lemma own_id: "k < length ids \<Longrightarrow> - 1 \<notin> set ids \<Longrightarrow> ids ! k \<noteq> (- 1 :: int)"
  using nth_mem [of k ids] by metis

lemma flags_recorded_current:
  assumes "cl_inv ids cl" "k < length ids" "rs_state (srv cl k) = RAFT_STATE_CANDIDATE"
  shows "flags_recorded ids (cl_votes cl) k (srv cl k)"
  using assms by (simp add: cl_inv_def messages_inv_def)

lemma role_flags:
  assumes inv: "cl_inv ids cl" "k < length ids" and role: "role_change (srv cl k) me'"
    and cand: "rs_state me' = RAFT_STATE_CANDIDATE"
  shows "flags_recorded ids (cl_votes cl) k me'"
proof (cases "no_flags me'")
  case True
  then show ?thesis by (auto simp: flags_recorded_def no_flags_def list_all_iff)
next
  case False
  then show ?thesis
    using role cand flags_recorded_current [OF inv] by (auto simp: role_change_def flags_recorded_def)
qed

lemma good_step_role:
  assumes "cl_inv ids cl" "k < length ids" "role_change (srv cl k) me'" "server_inv ids k me'"
    "vote_change (srv cl k) me'"
  shows "good_step ids (cl_votes cl) k (srv cl k) me'"
  unfolding good_step_def
proof (intro conjI impI)
  assume cand: "rs_state me' = RAFT_STATE_CANDIDATE"
  show "flags_recorded ids (cl_votes cl) k me'" by (rule role_flags [OF assms(1-3) cand])
  show "rs_current_term (srv cl k) < rs_current_term me' \<or> rs_state (srv cl k) = RAFT_STATE_CANDIDATE"
    using assms(3) cand by (auto simp: role_change_def)
qed (use assms(3-5) in \<open>simp_all add: role_change_def\<close>)

lemma request_role:
  assumes "server_inv ids k me" "ids ! k \<noteq> - 1" "raft_recv_requestvote vr me = Inr (r, me')"
  shows "role_change me me'" "rvr_term r = rs_current_term me'"
    "rvr_vote_granted r = 1 \<longrightarrow> rs_voted_for me' = rv_candidate_id vr"
proof -
  have "rs_ok me" "voted_if_active me" using assms by (auto simp: server_inv_def voted_if_active_def)
  note rv = raft_recv_requestvote_ok [OF this, of vr]
  have views: "node_views me' = node_views me" "rs_state me' = rs_state (vote_state vr me)"
      "rs_current_term me' = max (rs_current_term me) (rv_term vr)"
    using rv assms(3) by (auto simp: same_peers_def)
  show "role_change me me'"
    unfolding role_change_def views vote_state_frame(5) by auto
  show "rvr_term r = rs_current_term me'" "rvr_vote_granted r = 1 \<longrightarrow> rs_voted_for me' = rv_candidate_id vr"
    using rv assms(3) by (auto split: if_splits)
qed

lemma conf_ptrs: "conf ids s me \<Longrightarrow> map fst (node_views me) = [0..<length ids]"
proof -
  have "map fst (node_views me) = map fst (map (\<lambda>(a, i, v, f). (a, i, v)) (node_views me))"
    by (simp add: case_prod_unfold)
  then show "conf ids s me \<Longrightarrow> map fst (node_views me) = [0..<length ids]"
    by (simp add: conf_def comp_def)
qed

lemma votes_of_quorum:
  assumes cf: "conf ids k me" "k < length ids" and own: "(k, rs_current_term me, ids ! k) \<in> votes"
    and flags: "flags_recorded ids votes k me" and n: "raft_get_num_nodes me = int (length ids)"
    and maj: "raft_votes_is_majority (int (length ids)) (int (length (votes_of me)) + (if b then 1 else 0))"
  shows "has_quorum ids votes k (rs_current_term me)"
proof -
  let ?Q = "insert k (set (votes_of me))"
  have d: "distinct (map fst (node_views me))" "set (map fst (node_views me)) = {..<length ids}"
    using conf_ptrs [OF cf(1)] by (simp_all add: atLeast0LessThan)
  have "distinct (votes_of me)" unfolding votes_of_def by (rule distinct_map_filter [OF d(1)])
  moreover have "k \<notin> set (votes_of me)" using cf(1) by (auto simp: votes_of_def conf_def)
  ultimately have card: "card ?Q = Suc (length (votes_of me))" by (simp add: distinct_card)
  have sub: "?Q \<subseteq> {..<length ids}" using d(2) cf(2) by (auto simp: votes_of_def)
  have "length ids div 2 + 1 \<le> Suc (length (votes_of me))"
    using maj by (auto simp: raft_votes_is_majority_def split: if_splits)
  then have "length ids < 2 * card ?Q" unfolding card by presburger
  moreover have "(v, rs_current_term me, ids ! k) \<in> votes" if "v \<in> ?Q" for v
    using that own flags by (force simp: votes_of_def flags_recorded_def)
  ultimately show ?thesis using sub unfolding has_quorum_def by blast
qed

lemma response_good:
  assumes inv: "cl_inv ids cl" and i: "i < length ids" and ids: "- 1 \<notin> set ids"
    and net: "(j, ids ! i, r) \<in> cl_net cl"
    and recv: "raft_recv_requestvote_response (Some j) r (srv cl i) = Inr me'"
  shows "good_step ids (cl_votes cl) i (srv cl i) me'"
proof -
  let ?me = "srv cl i"
  have sinv: "server_inv ids i ?me" using inv i by (simp add: cl_inv_def)
  have step: "raft_step (OpRequestVoteResponse (Some j) r) ?me = Inr me'" using recv by simp
  note ok = raft_step_ok [OF sinv i ids step]
  note rr = raft_recv_requestvote_response_ok [OF recv]
  consider (same) "same_vote ?me me'" | (down) "stepped_down (rvr_term r) ?me me'"
    | (counted) "rs_state ?me = RAFT_STATE_CANDIDATE" "rvr_term r = rs_current_term ?me" "rvr_vote_granted r = 1"
       "rs_current_term me' = rs_current_term ?me" "rs_voted_for me' = rs_voted_for ?me"
       "rs_node me' = rs_node ?me" "node_views me' = set_vote (Some j) (node_views ?me)"
       "rs_state me' = RAFT_STATE_CANDIDATE \<or> rs_state me' = RAFT_STATE_LEADER \<and>
          (\<exists>b. raft_votes_is_majority (raft_get_num_nodes ?me) (int (length (votes_of me')) + (if b then 1 else 0)))"
    using rr by (elim conjE disjE) blast+
  then show ?thesis
  proof cases
    case same
    then show ?thesis using good_step_role [OF inv i role_same] ok by blast
  next
    case down
    then show ?thesis using good_step_role [OF inv i role_down] ok by blast
  next
    case counted
    have "(j, rs_current_term ?me, ids ! i) \<in> cl_votes cl"
      using inv net counted(3) unfolding cl_inv_def messages_inv_def counted(2) [symmetric] by blast
    then have flags: "flags_recorded ids (cl_votes cl) i me'"
      using flags_recorded_current [OF inv i counted(1)] counted(4,7)
      by (auto simp: flags_recorded_def set_vote_def split: if_splits)
    have cf: "conf ids i me'" "conf ids i ?me" using ok sinv by (auto simp: server_inv_def)
    have n: "raft_get_num_nodes m = int (length ids)" if "conf ids i m" for m
      using arg_cong [OF conf_ptrs [OF that], of length] by (simp add: raft_get_num_nodes_def node_views_def)
    have "rs_voted_for ?me = ids ! i" using sinv counted(1) by (auto simp: server_inv_def)
    then have own: "(i, rs_current_term me', ids ! i) \<in> cl_votes cl"
      using inv i own_id [OF i ids] counted(4) unfolding cl_inv_def votes_inv_def by metis
    have "has_quorum ids (cl_votes cl) i (rs_current_term ?me)" if lead: "rs_state me' = RAFT_STATE_LEADER"
    proof -
      obtain b where "raft_votes_is_majority (int (length ids)) (int (length (votes_of me')) + (if b then 1 else 0))"
        using counted(8) unfolding lead n [OF cf(2)] by auto
      from votes_of_quorum [OF cf(1) i own flags n [OF cf(1)] this] show ?thesis by (simp add: counted(4))
    qed
    then show ?thesis using ok counted(1,4) flags by (auto simp: good_step_def)
  qed
qed

lemma cluster_step_inv:
  assumes inv: "cl_inv ids cl" and ids: "- 1 \<notin> set ids" and step: "cluster_step ids cl cl'"
  shows "cl_inv ids cl'"
  using step
proof (cases rule: cluster_step.cases)
  case (event i p me')
  have sinv: "server_inv ids i (srv cl i)" using inv event(2) by (simp add: cl_inv_def)
  have "role_change (srv cl i) me'"
    using raft_step_role [OF _ event(4,3)] sinv by (simp add: server_inv_def)
  then have "good_step ids (cl_votes cl) i (srv cl i) me'"
    using good_step_role [OF inv event(2)] raft_step_ok [OF sinv event(2) ids event(4)] by blast
  then show ?thesis using cl_inv_update [OF inv event(2) _ own_id [OF event(2) ids]] event(1) by simp
next
  case (request j vr r me')
  have sinv: "server_inv ids j (srv cl j)" using inv request(2) by (simp add: cl_inv_def)
  note rq = request_role [OF sinv own_id [OF request(2) ids] request(3)]
  have "raft_step (OpRequestVote vr) (srv cl j) = Inr me'" using request(3) by simp
  then have "good_step ids (cl_votes cl) j (srv cl j) me'"
    using good_step_role [OF inv request(2) rq(1)] raft_step_ok [OF sinv request(2) ids] by blast
  then have "cl_inv ids (cl_update j me' cl)"
    using cl_inv_update [OF inv request(2) _ own_id [OF request(2) ids]] by simp
  moreover have "(j, rvr_term r, rv_candidate_id vr) \<in> cl_votes (cl_update j me' cl)" if "rvr_vote_granted r = 1"
    using rq(2,3) that request(4) by (simp add: votes_update)
  ultimately show ?thesis
    using request(1) by (auto simp: cl_inv_def votes_inv_def double_votes_inv_def leaders_inv_def messages_inv_def cl_update_mono(2))
next
  case (response i j r me')
  show ?thesis
    using cl_inv_update [OF inv response(2) response_good [OF inv response(2) ids response(3,4)] own_id [OF response(2) ids]]
      response(1) by simp
qed

lemma cluster_new_inv:
  assumes "distinct ids"
  shows "cl_inv ids (cluster_new cbs ids)"
  using raft_setup_inv [OF assms]
  by (auto simp: cl_inv_def cluster_new_def votes_inv_def double_votes_inv_def leaders_inv_def messages_inv_def)

lemma cluster_run_inv:
  assumes "cluster_run cbs ids cl" "distinct ids" "- 1 \<notin> set ids"
  shows "cl_inv ids cl"
  using assms(1) by induction (use cluster_new_inv [OF assms(2)] cluster_step_inv [OF _ assms(3)] in blast)+

section \<open>Properties\<close>

text \<open>
  C2: Election safety: in every execution of a cluster, whatever the network does and whatever
  other messages arrive, at most one server is ever leader in a term.  This holds although a
  candidate that steps back forgets its vote and may vote a second time in the same term.
\<close>

theorem raft_election_safety:
  assumes "cluster_run cbs ids cl" and "distinct ids" and "- 1 \<notin> set ids"
    and "(i, t) \<in> cl_leaders cl" and "(j, t) \<in> cl_leaders cl"
  shows "i = j"
proof (rule ccontr)
  assume "i \<noteq> j"
  have inv: "double_votes_inv ids cl" "leaders_inv ids cl"
    using cluster_run_inv [OF assms(1-3)] by (auto simp: cl_inv_def)
  obtain P Q where P: "P \<subseteq> {..<length ids}" "length ids < 2 * card P" "\<forall>v\<in>P. (v, t, ids ! i) \<in> cl_votes cl"
    and Q: "Q \<subseteq> {..<length ids}" "length ids < 2 * card Q" "\<forall>v\<in>Q. (v, t, ids ! j) \<in> cl_votes cl"
    and ij: "i < length ids" "j < length ids"
    using inv(2) assms(4,5) unfolding leaders_inv_def has_quorum_def by metis
  have "P \<inter> Q \<noteq> {}"
  proof
    assume "P \<inter> Q = {}"
    then have "card (P \<union> Q) = card P + card Q"
      using P(1) Q(1) by (meson card_Un_disjoint finite_lessThan finite_subset)
    moreover have "card (P \<union> Q) \<le> card {..<length ids}" using P(1) Q(1) by (intro card_mono) auto
    ultimately show False using P(2) Q(2) by simp
  qed
  then obtain v where v: "(v, t, ids ! i) \<in> cl_votes cl" "(v, t, ids ! j) \<in> cl_votes cl" "v < length ids"
    using P(1,3) Q(3) by blast
  have "ids ! i \<noteq> ids ! j" using \<open>i \<noteq> j\<close> ij assms(2) by (simp add: nth_eq_iff_index_eq)
  then have "(ids ! v = ids ! i \<or> ids ! v = ids ! j) \<and> (v, t) \<notin> cl_leaders cl"
    using inv(1) v(1,2) unfolding double_votes_inv_def by blast
  then show False
    using assms(2,4,5) ij v(3) by (auto simp: nth_eq_iff_index_eq)
qed


text \<open>Three servers: the first starts an election, the second votes for it, and it becomes leader.\<close>

definition example_request :: msg_requestvote where
  "example_request = \<lparr>rv_term = 1, rv_candidate_id = 10, rv_last_log_idx = 0, rv_last_log_term = 0\<rparr>"

definition example_candidate :: raft_server where
  "example_candidate = get_right raft_new (raft_step (OpPeriodic 0 1000) (raft_setup example_cbs [10, 11, 12] 0))"

definition example_voter :: "msg_requestvote_response \<times> raft_server" where
  "example_voter = get_right (\<lparr>rvr_term = 0, rvr_vote_granted = 0\<rparr>, raft_new)
     (raft_recv_requestvote example_request (raft_setup example_cbs [10, 11, 12] 1))"

definition example_elected :: raft_server where
  "example_elected = get_right raft_new
     (raft_recv_requestvote_response (Some 1) (fst example_voter) example_candidate)"

definition example_cluster :: cluster where
  "example_cluster = cl_update 0 example_elected
     ((cl_update 1 (snd example_voter) (cl_update 0 example_candidate (cluster_new example_cbs [10, 11, 12])))
        \<lparr>cl_net := {(1, 10, fst example_voter)}\<rparr>)"

lemma example_cluster_run: "cluster_run example_cbs [10, 11, 12] example_cluster"
proof -
  let ?ids = "[10, 11, 12] :: int list"
  let ?c0 = "cluster_new example_cbs ?ids" and ?c1 = "cl_update 0 example_candidate (cluster_new example_cbs ?ids)"
  let ?c2 = "(cl_update 1 (snd example_voter) ?c1)\<lparr>cl_net := {(1, 10, fst example_voter)}\<rparr>"
  have servers: "cl_servers ?c0 = map (raft_setup example_cbs ?ids) [0, 1, 2]"
    by (simp add: cluster_new_def upt_rec numeral_2_eq_2)
  have p1: "raft_step (OpPeriodic 0 1000) (srv ?c0 0) = Inr example_candidate"
    unfolding servers example_candidate_def by (simp, rule get_right_Inr) code_simp
  have s1: "cluster_step ?ids ?c0 ?c1" by (rule cluster_step.event [OF _ _ p1]) simp_all
  have "raft_recv_requestvote example_request (raft_setup example_cbs ?ids 1) = Inr example_voter"
    unfolding example_voter_def by (rule get_right_Inr) code_simp
  moreover have "srv ?c1 1 = raft_setup example_cbs ?ids 1" using servers by (simp add: cl_update_def)
  ultimately have "raft_recv_requestvote example_request (srv ?c1 1) = Inr (fst example_voter, snd example_voter)"
    by simp
  from cluster_step.request [OF _ this, of ?ids] have s2: "cluster_step ?ids ?c1 ?c2"
    by (simp add: example_request_def cl_update_def cluster_new_def)
  have "raft_recv_requestvote_response (Some 1) (fst example_voter) example_candidate = Inr example_elected"
    unfolding example_elected_def by (rule get_right_Inr) code_simp
  moreover have "srv ?c2 0 = example_candidate" using servers by (simp add: cl_update_def)
  ultimately have "raft_recv_requestvote_response (Some 1) (fst example_voter) (srv ?c2 0) = Inr example_elected"
    by simp
  from cluster_step.response [OF _ _ this, of ?ids] have s3: "cluster_step ?ids ?c2 example_cluster"
    by (simp add: example_cluster_def)
  show ?thesis
    by (rule cluster_run.run_more [OF cluster_run.run_more [OF cluster_run.run_more [OF cluster_run.run_init s1] s2] s3])
qed

theorem raft_election_safety_witness:
  "{j. (j, 1) \<in> cl_leaders example_cluster} = {0}"
proof -
  have "rs_state example_elected = RAFT_STATE_LEADER" "rs_current_term example_elected = 1" by code_simp+
  then have "(0, 1) \<in> cl_leaders example_cluster" by (simp add: example_cluster_def leaders_update)
  then show ?thesis
    using raft_election_safety [OF example_cluster_run example_conf(1,3)] by blast
qed


end
