(* ===== verification/Linked_List.thy ===== *)
theory Linked_List
  imports Interfaces
begin

text \<open>
  The intrusive doubly linked list of \<^verbatim>\<open>src/src/dsa/list.hpp\<close>.  Nodes live in a store from
  addresses to records; \<^verbatim>\<open>DoublyLinkedList\<close> owns a sentinel node and a mutex.  The theory
  shows that the pointer operations, whatever their aliasing (the sentinel may be its own
  neighbour), realise insertion and removal in the sequence of linked nodes, and that the
  iterators walk over that sequence in both directions.
\<close>

section \<open>Nodes\<close>

record 'a list_node =
  ln_data :: 'a
  ln_prev :: nat
  ln_next :: nat

type_synonym 'a node_store = "nat \<rightharpoonup> 'a list_node"

text \<open>Accesses through a node pointer; a node that is not in the store is destroyed.\<close>

definition ln_deref :: "'a node_store \<Rightarrow> nat \<Rightarrow> 'a list_node result" where
  "ln_deref h p = (case h p of None \<Rightarrow> Inl Dangling | Some n \<Rightarrow> Inr n)"

definition put_prev :: "nat \<Rightarrow> nat \<Rightarrow> 'a node_store \<Rightarrow> 'a node_store result" where
  "put_prev p v h = bindR (ln_deref h p) (\<lambda>n. Inr (h(p \<mapsto> n\<lparr>ln_prev := v\<rparr>)))"

definition put_next :: "nat \<Rightarrow> nat \<Rightarrow> 'a node_store \<Rightarrow> 'a node_store result" where
  "put_next p v h = bindR (ln_deref h p) (\<lambda>n. Inr (h(p \<mapsto> n\<lparr>ln_next := v\<rparr>)))"

definition link_self :: "nat \<Rightarrow> 'a node_store \<Rightarrow> 'a node_store result" where
  "link_self this h = bindR (put_prev this this h) (put_next this this)"

text \<open>The constructor with a value, at an address of the caller.\<close>

definition new_list_node :: "nat \<Rightarrow> 'a \<Rightarrow> 'a node_store \<Rightarrow> 'a node_store" where
  "new_list_node this v h = h(this \<mapsto> \<lparr>ln_data = v, ln_prev = this, ln_next = this\<rparr>)"

definition is_linked :: "nat \<Rightarrow> 'a node_store \<Rightarrow> bool result" where
  "is_linked this h = bindR (ln_deref h this) (\<lambda>n. Inr (ln_next n \<noteq> this))"

definition unlink :: "nat \<Rightarrow> 'a node_store \<Rightarrow> 'a node_store result" where
  "unlink this h =
     bindR (ln_deref h this) (\<lambda>n.
     bindR (put_next (ln_prev n) (ln_next n) h) (\<lambda>h.
     bindR (ln_deref h this) (\<lambda>n.
     bindR (put_prev (ln_next n) (ln_prev n) h) (\<lambda>h.
     link_self this h))))"

definition insert_before :: "nat \<Rightarrow> nat \<Rightarrow> 'a node_store \<Rightarrow> 'a node_store result" where
  "insert_before this node h =
     bindR (ln_deref h this) (\<lambda>n.
     bindR (put_prev node (ln_prev n) h) (\<lambda>h.
     bindR (put_next node this h) (\<lambda>h.
     bindR (ln_deref h this) (\<lambda>n.
     bindR (put_next (ln_prev n) node h) (\<lambda>h.
     put_prev this node h)))))"

definition insert_after :: "nat \<Rightarrow> nat \<Rightarrow> 'a node_store \<Rightarrow> 'a node_store result" where
  "insert_after this node h =
     bindR (put_prev node this h) (\<lambda>h.
     bindR (ln_deref h this) (\<lambda>n.
     bindR (put_next node (ln_next n) h) (\<lambda>h.
     bindR (ln_deref h this) (\<lambda>n.
     bindR (put_prev (ln_next n) node h) (\<lambda>h.
     put_next this node h)))))"

section \<open>The list and its iterators\<close>

record dlist =
  dl_head :: nat
  dl_mutex :: mutex

text \<open>The default constructor: the sentinel carries a default value.\<close>

definition new_dlist :: "nat \<Rightarrow> 'a \<Rightarrow> 'a node_store \<Rightarrow> dlist \<times> 'a node_store" where
  "new_dlist head v h = (\<lparr>dl_head = head, dl_mutex = Unlocked\<rparr>, new_list_node head v h)"

definition list_begin :: "dlist \<Rightarrow> 'a node_store \<Rightarrow> nat result" where
  "list_begin l h =
     bindR (lock_shared (dl_mutex l)) (\<lambda>_.
     bindR (ln_deref h (dl_head l)) (\<lambda>n. Inr (ln_next n)))"

definition list_end :: "dlist \<Rightarrow> nat result" where
  "list_end l = bindR (lock_shared (dl_mutex l)) (\<lambda>_. Inr (dl_head l))"

definition list_empty :: "dlist \<Rightarrow> 'a node_store \<Rightarrow> bool result" where
  "list_empty l h =
     bindR (lock_shared (dl_mutex l)) (\<lambda>_.
     bindR (is_linked (dl_head l) h) (\<lambda>b. Inr (\<not> b)))"

definition push_front :: "dlist \<Rightarrow> nat \<Rightarrow> 'a node_store \<Rightarrow> 'a node_store result" where
  "push_front l node h =
     bindR (lock_unique (dl_mutex l)) (\<lambda>_. insert_after (dl_head l) node h)"

definition push_back :: "dlist \<Rightarrow> nat \<Rightarrow> 'a node_store \<Rightarrow> 'a node_store result" where
  "push_back l node h =
     bindR (lock_unique (dl_mutex l)) (\<lambda>_. insert_before (dl_head l) node h)"

text \<open>The iterator operators; an iterator is the address of its current node.\<close>

definition it_deref :: "nat \<Rightarrow> 'a node_store \<Rightarrow> 'a result" where
  "it_deref it h = bindR (ln_deref h it) (\<lambda>n. Inr (ln_data n))"

definition it_inc :: "nat \<Rightarrow> 'a node_store \<Rightarrow> nat result" where
  "it_inc it h = bindR (ln_deref h it) (\<lambda>n. Inr (ln_next n))"

definition it_dec :: "nat \<Rightarrow> 'a node_store \<Rightarrow> nat result" where
  "it_dec it h = bindR (ln_deref h it) (\<lambda>n. Inr (ln_prev n))"

text \<open>Post-increment and post-decrement return the old position and the moved iterator.\<close>

definition it_post_inc :: "nat \<Rightarrow> 'a node_store \<Rightarrow> (nat \<times> nat) result" where
  "it_post_inc it h = bindR (it_inc it h) (\<lambda>it'. Inr (it, it'))"

definition it_post_dec :: "nat \<Rightarrow> 'a node_store \<Rightarrow> (nat \<times> nat) result" where
  "it_post_dec it h = bindR (it_dec it h) (\<lambda>it'. Inr (it, it'))"

section \<open>Chains\<close>

text \<open>
  The neighbours recorded in a node.  A chain is a sequence of addresses in which every node
  and its successor name each other; a list with the elements \<open>xs\<close> is the chain that leads
  from the sentinel through \<open>xs\<close> back to the sentinel.
\<close>

definition nxt :: "'a node_store \<Rightarrow> nat \<Rightarrow> nat option" where
  "nxt h p = map_option ln_next (h p)"

definition prv :: "'a node_store \<Rightarrow> nat \<Rightarrow> nat option" where
  "prv h p = map_option ln_prev (h p)"

definition val :: "'a node_store \<Rightarrow> nat \<Rightarrow> 'a option" where
  "val h p = map_option ln_data (h p)"

fun chain :: "'a node_store \<Rightarrow> nat list \<Rightarrow> bool" where
  "chain h (a # b # cs) = (nxt h a = Some b \<and> prv h b = Some a \<and> chain h (b # cs))"
| "chain h cs = True"

definition ring :: "'a node_store \<Rightarrow> nat \<Rightarrow> nat list \<Rightarrow> bool" where
  "ring h head xs = (distinct (head # xs) \<and> chain h (head # xs @ [head]))"

text \<open>The effect of the two assignments on the neighbours and the data.\<close>

lemma put_next_eq_Inr:
  "put_next p v h = Inr h' \<longleftrightarrow> (\<exists>n. h p = Some n \<and> h' = h(p \<mapsto> n\<lparr>ln_next := v\<rparr>))"
  by (auto simp: put_next_def ln_deref_def split: option.splits)

lemma put_prev_eq_Inr:
  "put_prev p v h = Inr h' \<longleftrightarrow> (\<exists>n. h p = Some n \<and> h' = h(p \<mapsto> n\<lparr>ln_prev := v\<rparr>))"
  by (auto simp: put_prev_def ln_deref_def split: option.splits)

lemma put_next_fields:
  assumes "put_next p v h = Inr h'"
  shows "nxt h' = (nxt h)(p := Some v)" "prv h' = prv h" "val h' = val h" "dom h' = dom h"
  proof -
  obtain n where n: "h p = Some n" and h': "h' = h(p \<mapsto> n\<lparr>ln_next := v\<rparr>)"
    using assms by (auto simp: put_next_eq_Inr)
  show "nxt h' = (nxt h)(p := Some v)" "prv h' = prv h" "val h' = val h" "dom h' = dom h"
    using n by (auto simp: h' nxt_def prv_def val_def fun_eq_iff)
qed

lemma put_prev_fields:
  assumes "put_prev p v h = Inr h'"
  shows "prv h' = (prv h)(p := Some v)" "nxt h' = nxt h" "val h' = val h" "dom h' = dom h"
  proof -
  obtain n where n: "h p = Some n" and h': "h' = h(p \<mapsto> n\<lparr>ln_prev := v\<rparr>)"
    using assms by (auto simp: put_prev_eq_Inr)
  show "nxt h' = nxt h" "prv h' = (prv h)(p := Some v)" "val h' = val h" "dom h' = dom h"
    using n by (auto simp: h' nxt_def prv_def val_def fun_eq_iff)
qed

lemma put_next_ok: "p \<in> dom h \<Longrightarrow> \<exists>h'. put_next p v h = Inr h'"
  by (auto simp: put_next_eq_Inr)

lemma put_prev_ok: "p \<in> dom h \<Longrightarrow> \<exists>h'. put_prev p v h = Inr h'"
  by (auto simp: put_prev_eq_Inr)

lemma ln_deref_ok:
  assumes "nxt h p = Some b" "prv h p = Some a"
  obtains n where "ln_deref h p = Inr n" "ln_next n = b" "ln_prev n = a"
  using assms by (auto simp: ln_deref_def nxt_def prv_def)

lemma nxt_dom: "nxt h p = Some b \<Longrightarrow> p \<in> dom h"
  by (auto simp: nxt_def)

lemma prv_dom: "prv h p = Some b \<Longrightarrow> p \<in> dom h"
  by (auto simp: prv_def)

lemma in_dom_fields: "p \<in> dom h \<Longrightarrow> \<exists>a b. nxt h p = Some b \<and> prv h p = Some a"
  by (auto simp: nxt_def prv_def)

text \<open>The three pointer operations as parallel assignments to the neighbours.\<close>

lemma insert_after_effect:
  assumes "nxt h t = Some s" "s \<in> dom h" "x \<in> dom h" "x \<noteq> t"
  obtains h' where "insert_after t x h = Inr h'"
    "nxt h' = (nxt h)(x := Some s, t := Some x)" "prv h' = (prv h)(x := Some t, s := Some x)"
    "val h' = val h" "dom h' = dom h"
proof -
  obtain h1 where h1: "put_prev x t h = Inr h1"
    by (metis put_prev_ok assms(3))
  note f1 = put_prev_fields [OF h1]
  have t1: "nxt h1 t = Some s" using assms(1) f1(2) by simp
  obtain a where a: "prv h1 t = Some a" using in_dom_fields nxt_dom [OF t1] by blast
  obtain n1 where n1: "ln_deref h1 t = Inr n1" "ln_next n1 = s"
    using ln_deref_ok [OF t1 a] by metis
  obtain h2 where h2: "put_next x s h1 = Inr h2"
    by (metis put_next_ok assms(3) f1(4))
  note f2 = put_next_fields [OF h2]
  have t2: "nxt h2 t = Some s" using t1 f2(1) assms(4) by simp
  obtain a2 where a2: "prv h2 t = Some a2" using in_dom_fields nxt_dom [OF t2] by blast
  obtain n2 where n2: "ln_deref h2 t = Inr n2" "ln_next n2 = s"
    using ln_deref_ok [OF t2 a2] by metis
  obtain h3 where h3: "put_prev s x h2 = Inr h3"
    by (metis put_prev_ok assms(2) f1(4) f2(4))
  note f3 = put_prev_fields [OF h3]
  obtain h4 where h4: "put_next t x h3 = Inr h4"
    by (metis put_next_ok nxt_dom [OF t2] f3(4))
  note f4 = put_next_fields [OF h4]
  have "insert_after t x h = Inr h4"
    by (simp add: insert_after_def h1 n1 h2 n2 h3 h4)
  then show ?thesis
    by (rule that) (simp_all add: f1 f2 f3 f4)
qed

lemma insert_before_effect:
  assumes "prv h t = Some s" "s \<in> dom h" "x \<in> dom h" "x \<noteq> t"
  obtains h' where "insert_before t x h = Inr h'"
    "nxt h' = (nxt h)(x := Some t, s := Some x)" "prv h' = (prv h)(x := Some s, t := Some x)"
    "val h' = val h" "dom h' = dom h"
proof -
  obtain b where b: "nxt h t = Some b" using in_dom_fields prv_dom [OF assms(1)] by blast
  obtain n where n: "ln_deref h t = Inr n" "ln_prev n = s"
    using ln_deref_ok [OF b assms(1)] by metis
  obtain h1 where h1: "put_prev x s h = Inr h1"
    by (metis put_prev_ok assms(3))
  note f1 = put_prev_fields [OF h1]
  obtain h2 where h2: "put_next x t h1 = Inr h2"
    by (metis put_next_ok assms(3) f1(4))
  note f2 = put_next_fields [OF h2]
  have t2: "prv h2 t = Some s" "nxt h2 t = Some b"
    using f1 f2 assms(1,4) b by simp_all
  obtain n2 where n2: "ln_deref h2 t = Inr n2" "ln_prev n2 = s"
    using ln_deref_ok [OF t2(2,1)] by metis
  obtain h3 where h3: "put_next s x h2 = Inr h3"
    by (metis put_next_ok assms(2) f1(4) f2(4))
  note f3 = put_next_fields [OF h3]
  obtain h4 where h4: "put_prev t x h3 = Inr h4"
    by (metis put_prev_ok prv_dom [OF t2(1)] f3(4))
  note f4 = put_prev_fields [OF h4]
  have "insert_before t x h = Inr h4"
    by (simp add: insert_before_def n h1 h2 n2 h3 h4)
  then show ?thesis
    by (rule that) (simp_all add: f1 f2 f3 f4)
qed

lemma unlink_effect:
  assumes "prv h x = Some a" "nxt h x = Some b" "a \<in> dom h" "b \<in> dom h" "x \<noteq> a" "x \<noteq> b"
  obtains h' where "unlink x h = Inr h'"
    "nxt h' = (nxt h)(a := Some b, x := Some x)" "prv h' = (prv h)(b := Some a, x := Some x)"
    "val h' = val h" "dom h' = dom h"
proof -
  obtain n where n: "ln_deref h x = Inr n" "ln_prev n = a" "ln_next n = b"
    using ln_deref_ok [OF assms(2,1)] by metis
  obtain h1 where h1: "put_next a b h = Inr h1" by (metis put_next_ok assms(3))
  note f1 = put_next_fields [OF h1]
  have t1: "prv h1 x = Some a" "nxt h1 x = Some b" using f1 assms by simp_all
  obtain n1 where n1: "ln_deref h1 x = Inr n1" "ln_prev n1 = a" "ln_next n1 = b"
    using ln_deref_ok [OF t1(2,1)] by metis
  obtain h2 where h2: "put_prev b a h1 = Inr h2" by (metis put_prev_ok assms(4) f1(4))
  note f2 = put_prev_fields [OF h2]
  have x: "x \<in> dom h2" using f1(4) f2(4) prv_dom [OF assms(1)] by simp
  obtain h3 where h3: "put_prev x x h2 = Inr h3" by (metis put_prev_ok x)
  note f3 = put_prev_fields [OF h3]
  obtain h4 where h4: "put_next x x h3 = Inr h4" by (metis put_next_ok x f3(4))
  note f4 = put_next_fields [OF h4]
  have "unlink x h = Inr h4"
    by (simp add: unlink_def link_self_def n h1 n1 h2 h3 h4)
  then show ?thesis
    by (rule that) (simp_all add: f1 f2 f3 f4)
qed

lemma chain_split: "chain h (as @ a # bs) \<longleftrightarrow> chain h (as @ [a]) \<and> chain h (a # bs)"
proof (induction as)
  case (Cons c cs)
  then show ?case by (cases cs) auto
qed simp

lemma chain_frame:
  assumes "\<And>p. p \<in> set (butlast cs) \<Longrightarrow> nxt h' p = nxt h p"
    and "\<And>p. p \<in> set (tl cs) \<Longrightarrow> prv h' p = prv h p"
  shows "chain h' cs = chain h cs"
  using assms
proof (induction h cs rule: chain.induct)
  case (1 h a b cs)
  have "chain h' (b # cs) = chain h (b # cs)"
  proof (rule "1.IH")
    fix p assume "p \<in> set (tl (b # cs))"
    then show "prv h' p = prv h p" using "1.prems"(2) [of p] by simp
  qed (use "1.prems"(1) in auto)
  then show ?case using "1.prems"(1) [of a] "1.prems"(2) [of b] by simp
qed simp_all

text \<open>Insertion of \<open>x\<close> between two neighbours, and removal of a node between its neighbours.\<close>

lemma chain_place:
  assumes ch: "chain h (as @ a # b # bs)"
    and fresh: "x \<notin> set (as @ a # b # bs)"
    and a: "a \<notin> set as" "a \<notin> set (butlast (b # bs))"
    and b: "b \<notin> set (tl (as @ [a]))" "b \<notin> set bs"
    and n: "nxt h' = (nxt h)(x := Some b, a := Some x)"
    and p: "prv h' = (prv h)(x := Some a, b := Some x)"
  shows "chain h' (as @ a # x # b # bs)"
proof -
  have c: "chain h (as @ [a])" "chain h (b # bs)"
    using ch chain_split [of h as a "b # bs"] by auto
  have "chain h' (as @ [a])"
    using c(1) fresh a(1) b(1) by (subst chain_frame [of _ _ h]) (auto simp: n p dest: list.set_sel(2) [rotated])
  moreover have "chain h' (b # bs)"
    using c(2) fresh a(2) b(2)
    by (subst chain_frame [of _ _ h]) (auto simp: n p dest: in_set_butlastD split: if_splits)
  moreover have "nxt h' a = Some x" "prv h' x = Some a" "nxt h' x = Some b" "prv h' b = Some x"
    using fresh by (auto simp: n p)
  ultimately show ?thesis
    using chain_split [of h' as a "x # b # bs"] by simp
qed

lemma chain_delete:
  assumes ch: "chain h (as @ a # x # b # bs)"
    and x: "x \<notin> set (as @ [a])" "x \<notin> set (b # bs)"
    and a: "a \<notin> set as" "a \<notin> set (butlast (b # bs))"
    and b: "b \<notin> set (tl (as @ [a]))" "b \<notin> set bs"
    and n: "nxt h' = (nxt h)(a := Some b, x := Some x)"
    and p: "prv h' = (prv h)(b := Some a, x := Some x)"
  shows "chain h' (as @ a # b # bs)"
proof -
  have c: "chain h (as @ [a])" "chain h (b # bs)"
    using ch chain_split [of h as a "x # b # bs"] by auto
  have "chain h' (as @ [a])"
    using c(1) x(1) a(1) b(1) by (subst chain_frame [of _ _ h]) (auto simp: n p dest: list.set_sel(2) [rotated])
  moreover have "chain h' (b # bs)"
    using c(2) x(2) a(2) b(2)
    by (subst chain_frame [of _ _ h]) (auto simp: n p dest: in_set_butlastD split: if_splits)
  moreover have "nxt h' a = Some b" "prv h' b = Some a"
    using x by (auto simp: n p)
  ultimately show ?thesis
    using chain_split [of h' as a "b # bs"] by simp
qed

lemma chain_neighbours:
  assumes "chain h (as @ a # b # bs)"
  shows "nxt h a = Some b" "prv h b = Some a"
  using assms chain_split [of h as a "b # bs"] by auto


section \<open>Rings\<close>

lemma ring_gap:
  assumes "ring h head (us @ vs)"
  shows "chain h (butlast (head # us) @ last (head # us) # hd (vs @ [head]) # tl (vs @ [head]))"
    and "last (head # us) \<notin> set (butlast (head # us))" "last (head # us) \<notin> set vs"
    and "hd (vs @ [head]) \<notin> set us" "hd (vs @ [head]) \<notin> set (tl (vs @ [head]))"
proof -
  have d: "distinct (head # us @ vs)" and c: "chain h (head # us @ vs @ [head])"
    using assms by (auto simp: ring_def)
  have s1: "butlast (head # us) @ [last (head # us)] = head # us" by (rule append_butlast_last_id) simp
  have s2: "hd (vs @ [head]) # tl (vs @ [head]) = vs @ [head]" by simp
  show "chain h (butlast (head # us) @ last (head # us) # hd (vs @ [head]) # tl (vs @ [head]))"
    using c s1 s2 by (metis append.assoc append_Cons append_Nil)
  have "distinct (butlast (head # us) @ [last (head # us)])" unfolding s1 using d by simp
  then show "last (head # us) \<notin> set (butlast (head # us))" by simp
  have "last (head # us) \<in> set (head # us)" by (rule last_in_set) simp
  then show "last (head # us) \<notin> set vs" using d by auto
  show "hd (vs @ [head]) \<notin> set us" using d by (cases vs) auto
  show "hd (vs @ [head]) \<notin> set (tl (vs @ [head]))" using d by (cases vs) auto
qed

lemma ring_gap_in:
  "last (head # us) \<in> set (head # us @ vs)" "hd (vs @ [head]) \<in> set (head # us @ vs)"
proof -
  have "last (head # us) \<in> set (head # us)" by (rule last_in_set) simp
  then show "last (head # us) \<in> set (head # us @ vs)" by auto
  show "hd (vs @ [head]) \<in> set (head # us @ vs)" by (cases vs) auto
qed

lemma ring_insert:
  assumes r: "ring h head (us @ vs)" and x: "x \<notin> set (head # us @ vs)"
    and n: "nxt h' = (nxt h)(x := Some (hd (vs @ [head])), last (head # us) := Some x)"
    and p: "prv h' = (prv h)(x := Some (last (head # us)), hd (vs @ [head]) := Some x)"
  shows "ring h' head (us @ x # vs)"
proof -
  note g = ring_gap [OF r]
  have s1: "butlast (head # us) @ [last (head # us)] = head # us" by (rule append_butlast_last_id) simp
  have s2: "hd (vs @ [head]) # tl (vs @ [head]) = vs @ [head]" by simp
  have "chain h' (butlast (head # us) @ last (head # us) # x # hd (vs @ [head]) # tl (vs @ [head]))"
  proof (rule chain_place [OF g(1) _ g(2) _ _ g(5) n p])
    show "x \<notin> set (butlast (head # us) @ last (head # us) # hd (vs @ [head]) # tl (vs @ [head]))"
      using x s1 s2 by (metis Un_iff append.assoc append_Cons append_Nil list.set_intros(1) set_append set_ConsD)
  qed (use g(3,4) s1 s2 in simp_all)
  then have "chain h' (head # us @ x # vs @ [head])"
    using s1 s2 by (metis append.assoc append_Cons append_Nil)
  then show ?thesis
    using r x by (auto simp: ring_def)
qed

lemma ring_remove:
  assumes r: "ring h head (us @ x # vs)"
    and n: "nxt h' = (nxt h)(last (head # us) := Some (hd (vs @ [head])), x := Some x)"
    and p: "prv h' = (prv h)(hd (vs @ [head]) := Some (last (head # us)), x := Some x)"
  shows "ring h' head (us @ vs)"
proof -
  note g = ring_gap [OF r]
  have d: "distinct (head # us @ x # vs)" using r by (simp add: ring_def)
  have s1: "butlast (head # us) @ [last (head # us)] = head # us" by (rule append_butlast_last_id) simp
  have s2: "hd (vs @ [head]) # tl (vs @ [head]) = vs @ [head]" by simp
  have "chain h' (butlast (head # us) @ last (head # us) # hd (vs @ [head]) # tl (vs @ [head]))"
  proof (rule chain_delete [OF _ _ _ g(2) _ _ _ n p])
    show "chain h (butlast (head # us) @ last (head # us) # x # hd (vs @ [head]) # tl (vs @ [head]))"
      unfolding s2 using g(1) by simp
    show "x \<notin> set (butlast (head # us) @ [last (head # us)])"
      unfolding s1 using d by auto
    show "last (head # us) \<notin> set (butlast (hd (vs @ [head]) # tl (vs @ [head])))"
      unfolding s2 using g(3) by simp
    show "hd (vs @ [head]) \<notin> set (tl (butlast (head # us) @ [last (head # us)]))"
      unfolding s1 using d by (cases vs) auto
    show "hd (vs @ [head]) \<notin> set (tl (vs @ [head]))"
      using d by (cases vs) auto
  qed (use d in auto)
  then have "chain h' (head # us @ vs @ [head])"
    using s1 s2 by (metis append.assoc append_Cons append_Nil)
  then show ?thesis
    using d by (auto simp: ring_def)
qed

lemma ring_neighbours:
  assumes "ring h head (us @ vs)"
  shows "nxt h (last (head # us)) = Some (hd (vs @ [head]))"
    and "prv h (hd (vs @ [head])) = Some (last (head # us))"
  using chain_neighbours [OF ring_gap(1) [OF assms]] by simp_all

text \<open>
  The pointer operations on a ring: a fresh node is placed behind or before any node of the
  ring, the sentinel included, and \<^verbatim>\<open>unlink\<close> takes any node but the sentinel out of it and
  leaves it linked to itself.
\<close>

lemma insert_after_ring:
  assumes "ring h head (us @ vs)" "x \<notin> set (head # us @ vs)" "x \<in> dom h"
  obtains h' where "insert_after (last (head # us)) x h = Inr h'" "ring h' head (us @ x # vs)"
    "val h' = val h" "dom h' = dom h"
    "\<And>p. p \<notin> set (head # us @ x # vs) \<Longrightarrow> nxt h' p = nxt h p \<and> prv h' p = prv h p"
proof -
  note n = ring_neighbours [OF assms(1)]
  have "last (head # us) \<in> set (head # us)" by (rule last_in_set) simp
  then have ne: "x \<noteq> last (head # us)" using assms(2) by auto
  obtain h' where h': "insert_after (last (head # us)) x h = Inr h'"
    "nxt h' = (nxt h)(x := Some (hd (vs @ [head])), last (head # us) := Some x)"
    "prv h' = (prv h)(x := Some (last (head # us)), hd (vs @ [head]) := Some x)"
    "val h' = val h" "dom h' = dom h"
    by (rule insert_after_effect [OF n(1) prv_dom [OF n(2)] assms(3) ne])
  show ?thesis
  proof (rule that [OF h'(1) ring_insert [OF assms(1,2) h'(2,3)] h'(4,5)])
    fix p assume p: "p \<notin> set (head # us @ x # vs)"
    then have "p \<noteq> x" "p \<noteq> last (head # us)" "p \<noteq> hd (vs @ [head])"
      using ring_gap_in [where head = head and us = us and vs = vs] by auto
    then show "nxt h' p = nxt h p \<and> prv h' p = prv h p" by (simp add: h')
  qed
qed

lemma insert_before_ring:
  assumes "ring h head (us @ vs)" "x \<notin> set (head # us @ vs)" "x \<in> dom h"
  obtains h' where "insert_before (hd (vs @ [head])) x h = Inr h'" "ring h' head (us @ x # vs)"
    "val h' = val h" "dom h' = dom h"
    "\<And>p. p \<notin> set (head # us @ x # vs) \<Longrightarrow> nxt h' p = nxt h p \<and> prv h' p = prv h p"
proof -
  note n = ring_neighbours [OF assms(1)]
  have "hd (vs @ [head]) \<in> set (vs @ [head])" by (rule hd_in_set) simp
  then have ne: "x \<noteq> hd (vs @ [head])" using assms(2) by auto
  obtain h' where h': "insert_before (hd (vs @ [head])) x h = Inr h'"
    "nxt h' = (nxt h)(x := Some (hd (vs @ [head])), last (head # us) := Some x)"
    "prv h' = (prv h)(x := Some (last (head # us)), hd (vs @ [head]) := Some x)"
    "val h' = val h" "dom h' = dom h"
    by (rule insert_before_effect [OF n(2) nxt_dom [OF n(1)] assms(3) ne])
  show ?thesis
  proof (rule that [OF h'(1) ring_insert [OF assms(1,2) h'(2,3)] h'(4,5)])
    fix p assume p: "p \<notin> set (head # us @ x # vs)"
    then have "p \<noteq> x" "p \<noteq> last (head # us)" "p \<noteq> hd (vs @ [head])"
      using ring_gap_in [where head = head and us = us and vs = vs] by auto
    then show "nxt h' p = nxt h p \<and> prv h' p = prv h p" by (simp add: h')
  qed
qed

lemma unlink_ring:
  assumes "ring h head (us @ x # vs)"
  obtains h' where "unlink x h = Inr h'" "ring h' head (us @ vs)"
    "nxt h' x = Some x" "prv h' x = Some x" "val h' = val h" "dom h' = dom h"
    "\<And>p. p \<notin> set (head # us @ x # vs) \<Longrightarrow> nxt h' p = nxt h p \<and> prv h' p = prv h p"
proof -
  have d: "distinct (head # us @ x # vs)" using assms by (simp add: ring_def)
  note n = ring_neighbours [OF assms]
  have b: "nxt h x = Some (hd (vs @ [head]))" "prv h (hd (vs @ [head])) = Some x"
    using ring_neighbours [of h head "us @ [x]" vs] assms by simp_all
  have "last (head # us) \<in> set (head # us)" "hd (vs @ [head]) \<in> set (vs @ [head])"
    by (rule last_in_set, simp) (rule hd_in_set, simp)
  then have ne: "x \<noteq> last (head # us)" "x \<noteq> hd (vs @ [head])" using d by auto
  have a: "prv h x = Some (last (head # us))" using n(2) by simp
  obtain h' where h': "unlink x h = Inr h'"
    "nxt h' = (nxt h)(last (head # us) := Some (hd (vs @ [head])), x := Some x)"
    "prv h' = (prv h)(hd (vs @ [head]) := Some (last (head # us)), x := Some x)"
    "val h' = val h" "dom h' = dom h"
    by (rule unlink_effect [OF a b(1) nxt_dom [OF n(1)] prv_dom [OF b(2)] ne])
  show ?thesis
  proof (rule that [OF h'(1) ring_remove [OF assms h'(2,3)] _ _ h'(4,5)])
    fix p assume p: "p \<notin> set (head # us @ x # vs)"
    then have "p \<noteq> x" "p \<noteq> last (head # us)" "p \<noteq> hd (vs @ [head])"
      using ring_gap_in [where head = head and us = us and vs = vs] by auto
    then show "nxt h' p = nxt h p \<and> prv h' p = prv h p" by (simp add: h')
  qed (simp_all add: h')
qed

text \<open>Walks of an iterator over a ring.\<close>

lemma it_inc_nxt: "nxt h p = Some q \<Longrightarrow> it_inc p h = Inr q"
  by (auto simp: it_inc_def ln_deref_def nxt_def)

lemma it_dec_prv: "prv h p = Some q \<Longrightarrow> it_dec p h = Inr q"
  by (auto simp: it_dec_def ln_deref_def prv_def)

lemma it_deref_val: "val h p = Some v \<Longrightarrow> it_deref p h = Inr v"
  by (auto simp: it_deref_def ln_deref_def val_def)

section \<open>Sequences of operations\<close>

text \<open>
  A client pushes nodes that are not in the list and unlinks nodes, linked or not.  The
  specification works on the sequence of the linked nodes and is undefined where a client
  breaks this contract (pushing a node twice, or using the sentinel or a missing node).
\<close>

datatype list_op = PushFront nat | PushBack nat | Unlink nat

fun list_step :: "dlist \<Rightarrow> list_op \<Rightarrow> 'a node_store \<Rightarrow> 'a node_store result" where
  "list_step l (PushFront x) h = push_front l x h"
| "list_step l (PushBack x) h = push_back l x h"
| "list_step l (Unlink x) h = unlink x h"

fun seq_step :: "nat set \<Rightarrow> list_op \<Rightarrow> nat list \<Rightarrow> nat list option" where
  "seq_step N (PushFront x) xs = (if x \<in> N \<and> x \<notin> set xs then Some (x # xs) else None)"
| "seq_step N (PushBack x) xs = (if x \<in> N \<and> x \<notin> set xs then Some (xs @ [x]) else None)"
| "seq_step N (Unlink x) xs = (if x \<in> N then Some (remove1 x xs) else None)"

text \<open>Nodes that the client constructs before it uses the list.\<close>

primrec make_nodes :: "(nat \<times> 'a) list \<Rightarrow> 'a node_store \<Rightarrow> 'a node_store" where
  "make_nodes [] h = h"
| "make_nodes (nv # nvs) h = make_nodes nvs (new_list_node (fst nv) (snd nv) h)"

text \<open>Reading \<open>n\<close> elements with \<^verbatim>\<open>*it, ++it\<close> or with \<^verbatim>\<open>--it, *it\<close>.\<close>

primrec read_forward :: "nat \<Rightarrow> nat \<Rightarrow> 'a node_store \<Rightarrow> ('a list \<times> nat) result" where
  "read_forward 0 it h = Inr ([], it)"
| "read_forward (Suc n) it h =
     bindR (it_deref it h) (\<lambda>v.
     bindR (it_inc it h) (\<lambda>it.
     bindR (read_forward n it h) (\<lambda>(vs, it). Inr (v # vs, it))))"

primrec read_backward :: "nat \<Rightarrow> nat \<Rightarrow> 'a node_store \<Rightarrow> ('a list \<times> nat) result" where
  "read_backward 0 it h = Inr ([], it)"
| "read_backward (Suc n) it h =
     bindR (it_dec it h) (\<lambda>it.
     bindR (it_deref it h) (\<lambda>v.
     bindR (read_backward n it h) (\<lambda>(vs, it). Inr (v # vs, it))))"

lemma read_forward_chain:
  assumes "chain h (xs @ [e])" "\<And>x. x \<in> set xs \<Longrightarrow> val h x = Some (f x)"
  shows "read_forward (length xs) (hd (xs @ [e])) h = Inr (map f xs, e)"
  using assms
proof (induction xs)
  case (Cons x xs)
  have n: "nxt h x = Some (hd (xs @ [e]))" "chain h (xs @ [e])"
    using Cons.prems(1) by (cases xs, auto)+
  show ?case
    using Cons.IH [OF n(2)] Cons.prems(2) it_inc_nxt [OF n(1)] it_deref_val [of h x "f x"] by simp
qed simp

lemma read_backward_chain:
  assumes "chain h (s # xs)" "\<And>x. x \<in> set xs \<Longrightarrow> val h x = Some (f x)"
    "prv h e = Some (last (s # xs))"
  shows "read_backward (length xs) e h = Inr (rev (map f xs), if xs = [] then e else hd xs)"
  using assms
proof (induction xs arbitrary: e rule: rev_induct)
  case (snoc x xs)
  have c: "chain h (s # xs)" "prv h x = Some (last (s # xs))"
  proof -
    have "chain h ((s # xs) @ [x])" using snoc.prems(1) by simp
    then show "chain h (s # xs)"
      using chain_split [of h "butlast (s # xs)" "last (s # xs)" "[x]"] append_butlast_last_id [of "s # xs"]
      by (metis append.assoc append_Cons append_Nil list.distinct(1))
    have "chain h (butlast (s # xs) @ last (s # xs) # x # [])"
      using \<open>chain h ((s # xs) @ [x])\<close> append_butlast_last_id [of "s # xs"]
      by (metis append.assoc append_Cons append_Nil list.distinct(1))
    then show "prv h x = Some (last (s # xs))" by (rule chain_neighbours)
  qed
  have "read_backward (length xs) x h = Inr (rev (map f xs), if xs = [] then x else hd xs)"
    by (rule snoc.IH [OF c(1) _ c(2)]) (use snoc.prems(2) in simp)
  moreover have "it_dec e h = Inr x" using it_dec_prv snoc.prems(3) by simp
  moreover have "it_deref x h = Inr (f x)" 
    by (rule it_deref_val) (use snoc.prems(2) in simp)
  ultimately show ?case by (simp add: hd_append)
qed simp


text \<open>
  The representation: the ring of the linked nodes, every other node of the client linked to
  itself, and the data of the nodes as constructed.
\<close>

definition list_repr :: "nat \<Rightarrow> nat set \<Rightarrow> (nat \<rightharpoonup> 'a) \<Rightarrow> 'a node_store \<Rightarrow> nat list \<Rightarrow> bool" where
  "list_repr head N f h xs \<longleftrightarrow>
     ring h head xs \<and> set xs \<subseteq> N \<and> head \<notin> N \<and> N \<subseteq> dom h \<and> val h = f \<and>
     (\<forall>p \<in> N - set xs. nxt h p = Some p \<and> prv h p = Some p)"


lemma unlink_self:
  assumes "nxt h x = Some x" "prv h x = Some x"
  shows "unlink x h = Inr h"
proof -
  obtain n where n: "h x = Some n" "ln_next n = x" "ln_prev n = x"
    using assms by (auto simp: nxt_def prv_def)
  have u: "n\<lparr>ln_next := x\<rparr> = n" "n\<lparr>ln_prev := x\<rparr> = n" using n by simp_all
  have h: "h(x \<mapsto> n) = h" using n by auto
  show ?thesis
    by (simp add: unlink_def link_self_def put_next_def put_prev_def ln_deref_def n u h)
qed

lemma list_repr_update:
  assumes r: "list_repr head N f h xs" and rg: "ring h' head ys" and ys: "set ys \<subseteq> N"
    and v: "val h' = val h" "dom h' = dom h"
    and same: "\<And>p. p \<notin> set (head # xs @ ys) \<Longrightarrow> nxt h' p = nxt h p \<and> prv h' p = prv h p"
    and out: "\<And>p. p \<in> set xs - set ys \<Longrightarrow> nxt h' p = Some p \<and> prv h' p = Some p"
  shows "list_repr head N f h' ys"
proof -
  have "nxt h' p = Some p \<and> prv h' p = Some p" if p: "p \<in> N - set ys" for p
  proof (cases "p \<in> set xs")
    case True
    then show ?thesis using out p by simp
  next
    case False
    then have "nxt h p = Some p \<and> prv h p = Some p" "p \<noteq> head"
      using r p by (auto simp: list_repr_def)
    then show ?thesis using same [of p] p False by simp
  qed
  then show ?thesis using r rg ys v by (simp add: list_repr_def)
qed

lemma list_step_ok:
  assumes r: "list_repr (dl_head l) N f h xs" and u: "dl_mutex l = Unlocked"
    and s: "seq_step N c xs = Some ys"
  shows "\<exists>h'. list_step l c h = Inr h' \<and> list_repr (dl_head l) N f h' ys"
proof (cases c)
  case (PushFront x)
  then have x: "x \<in> N" "x \<notin> set xs" "ys = x # xs" using s by (auto split: if_splits)
  have rg: "ring h (dl_head l) ([] @ xs)" and x': "x \<notin> set (dl_head l # [] @ xs)" "x \<in> dom h"
    using r x by (auto simp: list_repr_def)
  obtain h' where h': "insert_after (last [dl_head l]) x h = Inr h'"
    "ring h' (dl_head l) ([] @ x # xs)" "val h' = val h" "dom h' = dom h"
    "\<And>p. p \<notin> set (dl_head l # [] @ x # xs) \<Longrightarrow> nxt h' p = nxt h p \<and> prv h' p = prv h p"
    using insert_after_ring [OF rg x'] by blast
  have "list_repr (dl_head l) N f h' ys"
    by (rule list_repr_update [OF r])
      (use r x h'(2,3,4) h'(5) in \<open>simp_all add: list_repr_def\<close>)
  then show ?thesis using h'(1) u PushFront by (simp add: push_front_def)
next
  case (PushBack x)
  then have x: "x \<in> N" "x \<notin> set xs" "ys = xs @ [x]" using s by (auto split: if_splits)
  have rg: "ring h (dl_head l) (xs @ [])" and x': "x \<notin> set (dl_head l # xs @ [])" "x \<in> dom h"
    using r x by (auto simp: list_repr_def)
  obtain h' where h': "insert_before (hd ([] @ [dl_head l])) x h = Inr h'"
    "ring h' (dl_head l) (xs @ x # [])" "val h' = val h" "dom h' = dom h"
    "\<And>p. p \<notin> set (dl_head l # xs @ x # []) \<Longrightarrow> nxt h' p = nxt h p \<and> prv h' p = prv h p"
    using insert_before_ring [OF rg x'] by blast
  have "list_repr (dl_head l) N f h' ys"
    by (rule list_repr_update [OF r])
      (use r x h'(2,3,4) h'(5) in \<open>simp_all add: list_repr_def\<close>)
  then show ?thesis using h'(1) u PushBack by (simp add: push_back_def)
next
  case (Unlink x)
  then have x: "x \<in> N" "ys = remove1 x xs" using s by (auto split: if_splits)
  show ?thesis
  proof (cases "x \<in> set xs")
    case False
    then have "unlink x h = Inr h"
      using r x by (intro unlink_self) (auto simp: list_repr_def)
    then show ?thesis using r x False Unlink by (simp add: remove1_idem)
  next
    case True
    then obtain us vs where xs: "xs = us @ x # vs" "x \<notin> set us"
      by (meson split_list_first)
    have rg: "ring h (dl_head l) (us @ x # vs)" using r xs by (simp add: list_repr_def)
    obtain h' where h': "unlink x h = Inr h'" "ring h' (dl_head l) (us @ vs)"
      "nxt h' x = Some x" "prv h' x = Some x" "val h' = val h" "dom h' = dom h"
      "\<And>p. p \<notin> set (dl_head l # us @ x # vs) \<Longrightarrow> nxt h' p = nxt h p \<and> prv h' p = prv h p"
      using unlink_ring [OF rg] by blast
    have "ys = us @ vs" using x xs by (simp add: remove1_append)
    then have "list_repr (dl_head l) N f h' ys"
      by (intro list_repr_update [OF r])
        (use r xs h'(2-6) h'(7) in \<open>auto simp: list_repr_def\<close>)
    then show ?thesis using h'(1) Unlink by simp
  qed
qed

interpretation dll: contract_simulation "list_step \<lparr>dl_head = head, dl_mutex = Unlocked\<rparr>"
  "seq_step N" "list_repr head N f"
  for head :: nat and N :: "nat set" and f :: "nat \<rightharpoonup> 'a"
  by unfold_locales (use list_step_ok [of "\<lparr>dl_head = head, dl_mutex = Unlocked\<rparr>" for head] in simp)

lemma make_nodes_at:
  assumes "distinct (map fst nvs)"
  shows "make_nodes nvs h p = (case map_of nvs p of None \<Rightarrow> h p
           | Some v \<Rightarrow> Some \<lparr>ln_data = v, ln_prev = p, ln_next = p\<rparr>)"
  using assms
proof (induction nvs arbitrary: h)
  case (Cons nv nvs)
  have "map_of nvs (fst nv) = None" using Cons.prems by (simp add: map_of_eq_None_iff image_iff)
  then show ?case using Cons by (auto simp: new_list_node_def split: option.split)
qed simp

lemma list_repr_initial:
  assumes "distinct (map fst nvs)" "head \<notin> fst ` set nvs"
    and "h = make_nodes nvs (new_list_node head d Map.empty)"
  shows "list_repr head (fst ` set nvs) (val h) h []"
proof -
  have n: "map_of nvs head = None" using assms(2) by (simp add: map_of_eq_None_iff)
  have "h p = Some \<lparr>ln_data = the (map_of nvs p), ln_prev = p, ln_next = p\<rparr>"
    if a: "p \<in> fst ` set nvs" for p
  proof -
    obtain v where "map_of nvs p = Some v"
      using a map_of_eq_None_iff [of nvs p] by (cases "map_of nvs p") auto
    then show ?thesis using assms(1,3) by (simp add: make_nodes_at)
  qed
  moreover have "h head = Some \<lparr>ln_data = d, ln_prev = head, ln_next = head\<rparr>"
    using assms(1,3) n by (simp add: make_nodes_at new_list_node_def)
  ultimately show ?thesis
    using assms(2) by (auto simp: list_repr_def ring_def nxt_def prv_def)
qed

lemma ring_is_linked:
  assumes "ring h head (us @ x # vs)"
  shows "is_linked x h = Inr True"
proof -
  have "nxt h x = Some (hd (vs @ [head]))"
    using ring_neighbours(1) [of h head "us @ [x]" vs] assms by simp
  moreover have "hd (vs @ [head]) \<noteq> x" using assms by (cases vs) (auto simp: ring_def)
  ultimately show ?thesis by (auto simp: is_linked_def ln_deref_def nxt_def)
qed

lemma list_repr_observe:
  assumes r: "list_repr head N g h xs" and g: "\<And>x. x \<in> N \<Longrightarrow> g x = Some (f x)"
    and l: "l = \<lparr>dl_head = head, dl_mutex = Unlocked\<rparr>"
  shows "list_empty l h = Inr (xs = [])"
    and "\<exists>b. list_begin l h = Inr b \<and> read_forward (length xs) b h = Inr (map f xs, head)"
    and "\<exists>b. read_backward (length xs) head h = Inr (rev (map f xs), b) \<and> list_begin l h = Inr b"
    and "x \<in> N \<Longrightarrow> is_linked x h = Inr (x \<in> set xs)"
proof -
  have rg: "ring h head ([] @ xs)" and c: "chain h (head # xs @ [head])"
    using r by (simp_all add: list_repr_def ring_def)
  have n: "nxt h head = Some (hd (xs @ [head]))"
    using ring_neighbours(1) [OF rg] by simp
  have p: "prv h head = Some (last (head # xs))"
    using ring_neighbours(2) [of h head xs "[]"] rg by simp
  have v: "\<And>x. x \<in> set xs \<Longrightarrow> val h x = Some (f x)"
    using r g by (auto simp: list_repr_def)
  have b: "list_begin l h = Inr (hd (xs @ [head]))"
    using n l by (auto simp: list_begin_def ln_deref_def nxt_def)
  show "list_empty l h = Inr (xs = [])"
    using n l rg by (cases xs) (auto simp: list_empty_def is_linked_def ln_deref_def nxt_def ring_def)
  have "chain h (xs @ [head])" using c by (cases xs) auto
  then show "\<exists>b. list_begin l h = Inr b \<and> read_forward (length xs) b h = Inr (map f xs, head)"
    using b read_forward_chain v by blast
  have "chain h (head # xs)"
    using c chain_split [of h "butlast (head # xs)" "last (head # xs)" "[head]"]
      append_butlast_last_id [of "head # xs"]
    by (metis append.assoc append_Cons append_Nil list.distinct(1))
  from read_backward_chain [OF this v p]
  show "\<exists>b. read_backward (length xs) head h = Inr (rev (map f xs), b) \<and> list_begin l h = Inr b"
    using b by (auto simp: hd_append)
  show "is_linked x h = Inr (x \<in> set xs)" if x: "x \<in> N"
  proof (cases "x \<in> set xs")
    case True
    then obtain us vs where "xs = us @ x # vs" by (meson split_list)
    then show ?thesis using ring_is_linked rg True by simp
  next
    case False
    then have "nxt h x = Some x" using r x by (simp add: list_repr_def)
    then show ?thesis using False by (auto simp: is_linked_def ln_deref_def nxt_def)
  qed
qed

text \<open>
  C10: Whatever nodes a client constructs and whatever it pushes to the front or the back and
  unlinks, as long as no linked node is pushed again, every operation returns; afterwards the
  list is empty exactly when no node is linked, \<^verbatim>\<open>is_linked\<close> tells the nodes in the list from the
  others, and the iterators walk over exactly the pushed and not yet unlinked nodes, forwards
  from \<^verbatim>\<open>begin\<close> to \<^verbatim>\<open>end\<close> and backwards from \<^verbatim>\<open>end\<close> to \<^verbatim>\<open>begin\<close>.
\<close>

theorem list_refines_sequence:
  assumes "distinct (map fst nvs)" "head \<notin> fst ` set nvs"
    and "(l, h0) = new_dlist head d Map.empty" "h1 = make_nodes nvs h0"
    and "run_contract (seq_step (fst ` set nvs)) cs [] = Some xs"
    and "vs = map (\<lambda>x. the (map_of nvs x)) xs"
  shows "\<exists>h b. run_calls (list_step l) cs h1 = Inr h \<and> list_empty l h = Inr (xs = []) \<and>
    (\<forall>x \<in> fst ` set nvs. is_linked x h = Inr (x \<in> set xs)) \<and>
    list_begin l h = Inr b \<and> list_end l = Inr head \<and>
    read_forward (length xs) b h = Inr (vs, head) \<and>
    read_backward (length xs) head h = Inr (rev vs, b)"
proof -
  have l: "l = \<lparr>dl_head = head, dl_mutex = Unlocked\<rparr>"
    and h1: "h1 = make_nodes nvs (new_list_node head d Map.empty)"
    using assms(3,4) by (simp_all add: new_dlist_def)
  obtain h where h: "run_calls (list_step l) cs h1 = Inr h"
    and r: "list_repr head (fst ` set nvs) (val h1) h xs"
    using dll.calls_simulate [OF list_repr_initial [OF assms(1,2) h1] assms(5)] unfolding l by blast
  have g: "val h1 x = Some (the (map_of nvs x))" if "x \<in> fst ` set nvs" for x
    using that assms(1) h1 by (auto simp: val_def make_nodes_at split: option.splits)
  note ob = list_repr_observe [OF r g l]
  have "list_end l = Inr head" by (simp add: list_end_def l)
  then show ?thesis using h ob assms(6) by fastforce
qed


theorem list_refines_sequence_witness:
  "\<exists>h b l. l = fst (new_dlist 9 (0::nat) Map.empty) \<and>
     run_calls (list_step l) [PushBack 1, PushFront 2, PushBack 3, Unlink 1]
       (make_nodes [(1, 10), (2, 20), (3, 30 :: nat)] (snd (new_dlist 9 (0::nat) Map.empty))) = Inr h \<and>
     list_begin l h = Inr b \<and> read_forward 2 b h = Inr ([20, 30 :: nat], 9) \<and>
     read_backward 2 9 h = Inr ([30, 20], b)"
proof -
  have "\<exists>h b. run_calls (list_step (fst (new_dlist 9 (0::nat) Map.empty)))
      [PushBack 1, PushFront 2, PushBack 3, Unlink 1]
      (make_nodes [(1, 10), (2, 20), (3, 30 :: nat)] (snd (new_dlist 9 (0::nat) Map.empty))) = Inr h \<and>
    list_empty (fst (new_dlist 9 (0::nat) Map.empty)) h = Inr ([2, 3 :: nat] = []) \<and>
    (\<forall>x \<in> fst ` set [(1, 10), (2, 20), (3, 30 :: nat)]. is_linked x h = Inr (x \<in> set [2, 3])) \<and>
    list_begin (fst (new_dlist 9 (0::nat) Map.empty)) h = Inr b \<and>
    list_end (fst (new_dlist 9 (0::nat) Map.empty)) = Inr 9 \<and>
    read_forward (length [2, 3 :: nat]) b h = Inr ([20, 30 :: nat], 9) \<and>
    read_backward (length [2, 3 :: nat]) 9 h = Inr (rev [20, 30 :: nat], b)"
    by (rule list_refines_sequence) simp_all
  then show ?thesis by (auto simp: numeral_2_eq_2)
qed

end
