(* ===== verification/Count_Min_Sketch.thy ===== *)
theory Count_Min_Sketch
  imports Interfaces
begin

text \<open>
  The frequency sketch of \<^verbatim>\<open>src/src/cache/CountMinSketch.cpp\<close>: four rows of counters, eight
  counters of four bits in every \<^verbatim>\<open>int\<close> of a row.  The integers are kept at their width; a
  right shift of an \<^verbatim>\<open>int\<close> is the arithmetic one, and an addition that leaves the range of
  \<^verbatim>\<open>int\<close> is a failure.  The theory shows what the packed counters count, how far they are
  exact, and how \<^verbatim>\<open>decay\<close> and the rounding to a power of two work.
\<close>

section \<open>Rows\<close>

record cm_row =
  row_bits :: "32 word list"

definition new_row :: "nat \<Rightarrow> cm_row" where
  "new_row countNum = \<lparr>row_bits = replicate ((if countNum < 8 then 8 else countNum) div 8) 0\<rparr>"

definition row_get :: "nat \<Rightarrow> cm_row \<Rightarrow> 32 word result" where
  "row_get value r =
     (let countIndex = value div 8; countOffset = value mod 8 * 4
      in bindR (vec_at (row_bits r) countIndex) (\<lambda>w. Inr (signed_drop_bit countOffset w AND 0x7)))"

text \<open>The addition \<^verbatim>\<open>w += 1 << offset\<close> on \<^verbatim>\<open>int\<close>; the offset is at most 28.\<close>

definition add_shifted_one :: "nat \<Rightarrow> 32 word \<Rightarrow> 32 word result" where
  "add_shifted_one countOffset w =
     (if sint w + 2 ^ countOffset < 2 ^ 31 then Inr (w + push_bit countOffset 1)
      else Inl SignedOverflow)"

definition row_increment :: "nat \<Rightarrow> cm_row \<Rightarrow> cm_row result" where
  "row_increment value r =
     (let countIndex = value div 8; countOffset = value mod 8 * 4
      in bindR (vec_at (row_bits r) countIndex) (\<lambda>w.
         let v = signed_drop_bit countOffset w AND 0x7
         in if sint v < 15 then
              bindR (add_shifted_one countOffset w) (\<lambda>w'.
              Inr (r\<lparr>row_bits := (row_bits r)[countIndex := w']\<rparr>))
            else Inr r))"

definition row_clear :: "cm_row \<Rightarrow> cm_row" where
  "row_clear r = r\<lparr>row_bits := map (\<lambda>it. 0) (row_bits r)\<rparr>"

definition row_decay :: "cm_row \<Rightarrow> cm_row" where
  "row_decay r = r\<lparr>row_bits := map (\<lambda>it. signed_drop_bit 1 it AND 0x77777777) (row_bits r)\<rparr>"

section \<open>The sketch\<close>

record cm_sketch =
  cm_rows :: "cm_row list"
  cm_seed :: "u32 list"
  cm_mask :: u32

text \<open>
  \<^verbatim>\<open>x |= x >> 32\<close> shifts an \<^verbatim>\<open>int\<close> by its width, which C++ leaves undefined; the value of
  that shift is the parameter \<open>shift32\<close>.
\<close>

definition next2Power :: "(32 word \<Rightarrow> 32 word) \<Rightarrow> 32 word \<Rightarrow> 32 word" where
  "next2Power shift32 x =
     (let x = x - 1;
          x = x OR signed_drop_bit 1 x;
          x = x OR signed_drop_bit 2 x;
          x = x OR signed_drop_bit 4 x;
          x = x OR signed_drop_bit 8 x;
          x = x OR signed_drop_bit 16 x;
          x = x OR shift32 x
      in x + 1)"

text \<open>
  The constructor.  The count is converted to \<^verbatim>\<open>int\<close> and back to \<^verbatim>\<open>size_t\<close>; the four seeds are
  the outputs of the random generator.
\<close>

definition new_sketch :: "(32 word \<Rightarrow> 32 word) \<Rightarrow> nat \<Rightarrow> u32 list \<Rightarrow> cm_sketch" where
  "new_sketch shift32 countNum seeds =
     (let countNum = unat (scast (next2Power shift32 (of_nat countNum)) :: u64);
          countNum = (if countNum < 8 then 8 else countNum)
      in \<lparr>cm_rows = replicate 4 (new_row countNum), cm_seed = seeds, cm_mask = of_nat (countNum - 1)\<rparr>)"

text \<open>The counter of a hash in row \<open>i\<close>.\<close>

definition cm_cell :: "cm_sketch \<Rightarrow> u32 \<Rightarrow> nat \<Rightarrow> nat result" where
  "cm_cell s hash i = bindR (vec_at (cm_seed s) i) (\<lambda>seed. Inr (unat ((hash XOR seed) AND cm_mask s)))"

text \<open>The loop of \<^verbatim>\<open>getCountMin\<close> over the rows from row \<open>i\<close> on.\<close>

fun count_min_loop :: "cm_sketch \<Rightarrow> u32 \<Rightarrow> nat \<Rightarrow> cm_row list \<Rightarrow> 32 word \<Rightarrow> 32 word result" where
  "count_min_loop s hash i [] mn = Inr mn"
| "count_min_loop s hash i (r # rs) mn =
     bindR (cm_cell s hash i) (\<lambda>c.
     bindR (row_get c r) (\<lambda>value.
     count_min_loop s hash (Suc i) rs (if sint value < sint mn then value else mn)))"

definition getCountMin :: "cm_sketch \<Rightarrow> u32 \<Rightarrow> 32 word result" where
  "getCountMin s hash = count_min_loop s hash 0 (cm_rows s) 16"

fun increment_loop :: "cm_sketch \<Rightarrow> u32 \<Rightarrow> nat \<Rightarrow> cm_row list \<Rightarrow> cm_row list result" where
  "increment_loop s hash i [] = Inr []"
| "increment_loop s hash i (r # rs) =
     bindR (cm_cell s hash i) (\<lambda>c.
     bindR (row_increment c r) (\<lambda>r'.
     bindR (increment_loop s hash (Suc i) rs) (\<lambda>rs'. Inr (r' # rs'))))"

definition cm_increment :: "u32 \<Rightarrow> cm_sketch \<Rightarrow> cm_sketch result" where
  "cm_increment hash s =
     bindR (increment_loop s hash 0 (cm_rows s)) (\<lambda>rs. Inr (s\<lparr>cm_rows := rs\<rparr>))"

definition cm_decay :: "cm_sketch \<Rightarrow> cm_sketch" where
  "cm_decay s = s\<lparr>cm_rows := map row_decay (cm_rows s)\<rparr>"

definition cm_clear :: "cm_sketch \<Rightarrow> cm_sketch" where
  "cm_clear s = s\<lparr>cm_rows := map row_clear (cm_rows s)\<rparr>"

section \<open>Four-bit counters\<close>

text \<open>Counter \<open>k\<close> of a word, as a number.\<close>

definition nibble :: "32 word \<Rightarrow> nat \<Rightarrow> nat" where
  "nibble w k = unat w div 16 ^ k mod 16"

lemma signed_drop_low_bits:
  assumes "n + m \<le> 32"
  shows "take_bit m (signed_drop_bit n (w :: 32 word)) = take_bit m (drop_bit n w)"
  using assms by (intro bit_word_eqI) (auto simp: bit_take_bit_iff bit_signed_drop_bit_iff bit_drop_bit_eq)

lemma get_nibble:
  assumes "k < 8"
  shows "unat (signed_drop_bit (k * 4) w AND (0x7 :: 32 word)) = nibble w k mod 8"
proof -
  have "(0x7 :: 32 word) = mask 3" by (simp add: mask_eq_exp_minus_1)
  then have "signed_drop_bit (k * 4) w AND 0x7 = take_bit 3 (signed_drop_bit (k * 4) w)"
    by (simp add: take_bit_eq_mask)
  also have "\<dots> = take_bit 3 (drop_bit (k * 4) w)"
    by (rule signed_drop_low_bits) (use assms in simp)
  finally have "unat (signed_drop_bit (k * 4) w AND 0x7) = take_bit 3 (drop_bit (k * 4) (unat w))"
    by (simp only: unsigned_take_bit_eq unat_drop_bit_eq)
  also have "\<dots> = unat w div 2 ^ (k * 4) mod 8"
    by (simp add: take_bit_eq_mod drop_bit_eq_div)
  also have "(2 :: nat) ^ (k * 4) = 16 ^ k"
    using power_mult [of "2 :: nat" 4 k] by (simp add: mult.commute)
  also have "unat w div 16 ^ k mod 8 = unat w div 16 ^ k mod 16 mod 8"
    by (simp add: mod_mod_cancel)
  finally show ?thesis by (simp add: nibble_def)
qed

lemma sint_masked:
  assumes "k < 8"
  shows "sint (signed_drop_bit (k * 4) w AND (0x7 :: 32 word)) = int (nibble w k mod 8)"
  by (subst sint_small) (simp_all add: get_nibble [OF assms] order.strict_trans2 [of _ 8])


lemma split_nibble: "(n :: nat) = (n div 16 ^ Suc k * 16 + n div 16 ^ k mod 16) * 16 ^ k + n mod 16 ^ k"
proof -
  have "n div 16 ^ Suc k = n div 16 ^ k div 16" by (simp only: power_Suc2 div_mult2_eq)
  then have "n div 16 ^ Suc k * 16 + n div 16 ^ k mod 16 = n div 16 ^ k"
    by (simp add: div_mult_mod_eq)
  then show ?thesis by (metis div_mult_mod_eq)
qed

text \<open>Adding one to a counter that is not full leaves the other counters alone.\<close>

lemma add_nibble_nat:
  fixes n :: nat
  assumes "n div 16 ^ k mod 16 < 15"
  shows "(n + 16 ^ k) div 16 ^ j mod 16 = n div 16 ^ j mod 16 + (if j = k then 1 else 0)"
proof -
  define hi c lo where "hi = n div 16 ^ Suc k" and "c = n div 16 ^ k mod 16" and "lo = n mod 16 ^ k"
  have n: "n = (hi * 16 + c) * 16 ^ k + lo" using split_nibble [of n k] by (simp add: hi_def c_def lo_def)
  have n': "n + 16 ^ k = (hi * 16 + Suc c) * 16 ^ k + lo" using n by (simp add: algebra_simps)
  have lo: "lo < 16 ^ k" by (simp add: lo_def)
  have c: "c < 15" using assms by (simp add: c_def)
  have up: "((hi * 16 + d) * 16 ^ k + lo) div 16 ^ (k + i) = (hi * 16 + d) div 16 ^ i" for d i
    using lo by (simp add: power_add div_mult2_eq)
  consider "j < k" | "j = k" | i where "j = k + Suc i"
    by (metis less_imp_Suc_add add_Suc_right linorder_neqE_nat)
  then show ?thesis
  proof cases
    case 1
    then obtain i where k: "k = Suc (j + i)" by (metis less_imp_Suc_add)
    have low: "((hi * 16 + d) * 16 ^ k + lo) div 16 ^ j mod 16 = lo div 16 ^ j mod 16" for d
    proof -
      have "(hi * 16 + d) * 16 ^ k + lo = lo + ((hi * 16 + d) * 16 ^ i * 16) * 16 ^ j"
        by (simp add: k power_add algebra_simps)
      then have "((hi * 16 + d) * 16 ^ k + lo) div 16 ^ j = lo div 16 ^ j + (hi * 16 + d) * 16 ^ i * 16"
        by (simp only:) (simp only: div_mult_self1 power_not_zero zero_neq_numeral [symmetric] not_False_eq_True)
      then show ?thesis by (simp only: mod_mult_self1)
    qed
    have "(n + 16 ^ k) div 16 ^ j mod 16 = n div 16 ^ j mod 16"
      using low [of c] unfolding n' low n [symmetric] by (rule sym)
    then show ?thesis using 1 by simp
  next
    case 2
    have "(n + 16 ^ k) div 16 ^ k = hi * 16 + Suc c"
      using up [of "Suc c" 0] unfolding n' by (simp only: add_0_right power_0 div_by_1)
    then have "(n + 16 ^ k) div 16 ^ k mod 16 = Suc c" using c by simp
    then show ?thesis using 2 c_def by simp
  next
    case (3 i)
    have hi: "(hi * 16 + d) div 16 ^ Suc i = hi div 16 ^ i" if "d < 16" for d
      using that by (simp add: div_mult2_eq)
    have "n div 16 ^ j = hi div 16 ^ i"
      using up [of c "Suc i"] hi [of c] c unfolding n [symmetric] 3 by simp
    moreover have "(n + 16 ^ k) div 16 ^ j = hi div 16 ^ i"
      using up [of "Suc c" "Suc i"] hi [of "Suc c"] c unfolding n' [symmetric] 3 by linarith
    ultimately show ?thesis using 3 by simp
  qed
qed


lemma nibble_top:
  assumes "nibble w 7 < 8"
  shows "sint w = int (unat w)" "unat w < 2 ^ 31"
proof -
  have "unat w < 2 ^ 32" using unsigned_less [of w] by simp
  then have "unat w div 16 ^ 7 < 16" by (simp add: less_mult_imp_div_less)
  then have "unat w div 16 ^ 7 < 8" using assms by (simp add: nibble_def)
  then show u: "unat w < 2 ^ 31" by (simp add: div_less_iff_less_mult)
  then show "sint w = int (unat w)" by (intro sint_small) simp
qed

text \<open>
  As long as the addition stays inside \<^verbatim>\<open>int\<close> and the counter is below 15, exactly this counter
  goes up by one.
\<close>

lemma add_shifted_one_nibble:
  assumes k: "k < 8" and c: "nibble w k < 15" and t: "nibble w 7 < (if k = 7 then 7 else 8)"
  shows "\<exists>w'. add_shifted_one (k * 4) w = Inr w' \<and>
           (\<forall>j. nibble w' j = nibble w j + (if j = k then 1 else 0))"
proof -
  have p: "(2 :: nat) ^ (k * 4) = 16 ^ k"
    using power_mult [of "2 :: nat" 4 k] by (simp add: mult.commute)
  note w = nibble_top [of w]
  have t8: "nibble w 7 < 8" using t by (simp split: if_splits)
  have n: "(unat w + 16 ^ k) div 16 ^ j mod 16 = nibble w j + (if j = k then 1 else 0)" for j
    using add_nibble_nat [of "unat w" k j] c by (simp add: nibble_def)
  have lt: "unat w + 16 ^ k < 2 ^ 31"
  proof -
    have "(16 :: nat) ^ k \<le> 16 ^ 7" by (rule power_increasing) (use k in auto)
    then have "unat w + 16 ^ k < 2 ^ 32" using w(2) [OF t8] by simp
    then have "(unat w + 16 ^ k) div 16 ^ 7 < 16" by (simp add: less_mult_imp_div_less)
    then have "(unat w + 16 ^ k) div 16 ^ 7 = nibble w 7 + (if 7 = k then 1 else 0)"
      using n [of 7] by simp
    then have "(unat w + 16 ^ k) div 16 ^ 7 < 8" using t by (simp split: if_splits)
    then show ?thesis by (simp add: div_less_iff_less_mult)
  qed
  have "int (unat w + 2 ^ (k * 4)) < int (2 ^ 31)"
    using lt p by (simp only: of_nat_less_iff)
  then have "sint w + 2 ^ (k * 4) < 2 ^ 31"
    using w(1) [OF t8] by simp
  then have a: "add_shifted_one (k * 4) w = Inr (w + push_bit (k * 4) 1)"
    by (simp add: add_shifted_one_def)
  have "unat (push_bit (k * 4) 1 :: 32 word) = 16 ^ k"
  proof -
    have "(2 :: nat) ^ (k * 4) < 2 ^ 32" by (rule power_strict_increasing) (use k in auto)
    then show ?thesis
      unfolding unsigned_push_bit_eq using p by (simp add: take_bit_nat_eq_self)
  qed
  then have "unat (w + push_bit (k * 4) 1) = unat w + 16 ^ k"
    using lt by (simp only: unat_word_ariths) simp
  then show ?thesis using a n by (simp add: nibble_def)
qed


section \<open>Operations on rows\<close>

text \<open>Counter \<open>c\<close> of a row.\<close>

definition row_count :: "cm_row \<Rightarrow> nat \<Rightarrow> nat" where
  "row_count r c = nibble (row_bits r ! (c div 8)) (c mod 8)"

lemma row_get_count:
  assumes "c < 8 * length (row_bits r)"
  shows "\<exists>v. row_get c r = Inr v \<and> unat v = row_count r c mod 8 \<and> sint v = int (row_count r c mod 8)"
proof -
  have "c div 8 < length (row_bits r)" using assms by (simp add: less_mult_imp_div_less mult.commute)
  then show ?thesis
    by (auto simp: row_get_def row_count_def Let_def get_nibble sint_masked)
qed

lemma row_increment_count:
  assumes i: "c < 8 * length (row_bits r)"
    and c: "row_count r c < (if c mod 8 = 7 then 7 else 15)"
    and t: "row_count r (c div 8 * 8 + 7) < 8"
  obtains r' where "row_increment c r = Inr r'" "length (row_bits r') = length (row_bits r)"
    "\<And>d. row_count r' d = row_count r d + (if d = c then 1 else 0)"
proof -
  let ?w = "row_bits r ! (c div 8)"
  have i': "c div 8 < length (row_bits r)" using i by (simp add: less_mult_imp_div_less mult.commute)
  have k: "c mod 8 < 8" by simp
  have "nibble ?w (c mod 8) < 15" "nibble ?w 7 < (if c mod 8 = 7 then 7 else 8)"
    using c t by (auto simp: row_count_def split: if_splits)
  then obtain w' where w': "add_shifted_one (c mod 8 * 4) ?w = Inr w'"
    "\<forall>j. nibble w' j = nibble ?w j + (if j = c mod 8 then 1 else 0)"
    using add_shifted_one_nibble [OF k, of ?w] by blast
  have "sint (signed_drop_bit (c mod 8 * 4) ?w AND 7) < 15"
    using sint_masked [OF k, of ?w] by simp
  then have r: "row_increment c r = Inr (r\<lparr>row_bits := (row_bits r)[c div 8 := w']\<rparr>)"
    using i' w'(1) by (simp add: row_increment_def Let_def)
  have eq: "d = c \<longleftrightarrow> d div 8 = c div 8 \<and> d mod 8 = c mod 8" for d
    by (metis div_mult_mod_eq)
  show ?thesis
    by (rule that [OF r]) (use i' w'(2) eq in \<open>auto simp: row_count_def nth_list_update\<close>)
qed

text \<open>\<^verbatim>\<open>decay\<close> halves every counter.\<close>

lemma decay_mask_bit:
  assumes "k < 8" "i < 4"
  shows "bit (0x77777777 :: 32 word) (k * 4 + i) \<longleftrightarrow> i < 3"
proof -
  have "k \<in> {0, 1, 2, 3, 4, 5, 6, 7}" "i \<in> {0, 1, 2, 3}" using assms by auto
  then show ?thesis by (auto simp: bit_numeral_simps)
qed

lemma nibble_bits: "k < 8 \<Longrightarrow> nibble w k = unat (take_bit 4 (drop_bit (k * 4) w))"
  using power_mult [of "2 :: nat" 4 k]
  by (simp only: unsigned_take_bit_eq unat_drop_bit_eq)
     (simp add: nibble_def take_bit_eq_mod drop_bit_eq_div mult.commute)

lemma decay_nibble:
  assumes "k < 8"
  shows "nibble (signed_drop_bit 1 w AND 0x77777777) k = nibble w k div 2"
proof -
  have "take_bit 4 (drop_bit (k * 4) (signed_drop_bit 1 w AND 0x77777777)) =
        drop_bit 1 (take_bit 4 (drop_bit (k * 4) w))"
    (is "?l = ?r")
  proof (rule bit_word_eqI)
    fix n assume "n < LENGTH(32)"
    show "bit (take_bit 4 (drop_bit (k * 4) (signed_drop_bit 1 w AND 0x77777777))) n =
          bit (drop_bit 1 (take_bit 4 (drop_bit (k * 4) w))) n"
      using decay_mask_bit [OF assms, of n] assms
      by (auto simp: bit_take_bit_iff bit_drop_bit_eq bit_signed_drop_bit_iff bit_and_iff add.commute)
  qed
  then have "unat ?l = drop_bit 1 (unat (take_bit 4 (drop_bit (k * 4) w)))"
    by (simp only: unat_drop_bit_eq)
  then show ?thesis
    by (simp only: nibble_bits [OF assms]) (simp add: drop_bit_eq_div)
qed

section \<open>Rounding to a power of two\<close>

text \<open>The bits of \<open>y\<close> are those of \<open>x\<close>, each spread over the \<open>m\<close> places downwards.\<close>

definition smeared :: "nat \<Rightarrow> 32 word \<Rightarrow> 32 word \<Rightarrow> bool" where
  "smeared m x y = (\<forall>i < 32. bit y i \<longleftrightarrow> (\<exists>j < m. bit x (i + j)))"

lemma smeared_step:
  assumes "smeared m x y" "\<not> bit x 31" "m < 32"
  shows "smeared (m + m) x (y OR signed_drop_bit m y)"
proof -
  have hi: "\<not> bit x n" if "31 \<le> n" for n
    using assms(2) that bit_imp_le_length [of x n] by (cases "n = 31") auto
  have top: "\<not> bit y 31" using assms(1) hi by (simp add: smeared_def)
  have "bit (y OR signed_drop_bit m y) i \<longleftrightarrow> (\<exists>j < m + m. bit x (i + j))" if i: "i < 32" for i
  proof -
    have len: "LENGTH(32) = (32 :: nat)" "LENGTH(32) - 1 = (31 :: nat)" by simp_all
    have "bit (signed_drop_bit m y) i \<longleftrightarrow> bit y (if 32 - m \<le> i \<and> i < 32 then 31 else m + i)"
      by (simp only: bit_signed_drop_bit_iff len) simp
    also have "\<dots> \<longleftrightarrow> bit y (i + m)"
    proof (cases "i + m < 32")
      case True
      then have "\<not> (32 - m \<le> i \<and> i < 32)" by linarith
      then show ?thesis by (simp only: if_False add.commute)
    next
      case False
      then have "32 - m \<le> i" "\<not> bit y (i + m)"
        using bit_imp_le_length [of y "i + m"] by auto
      then show ?thesis using i top by simp
    qed
    also have "\<dots> \<longleftrightarrow> (\<exists>j < m. bit x (i + m + j))"
      using assms(1) hi bit_imp_le_length [of y "i + m"] by (cases "i + m < 32") (auto simp: smeared_def)
    also have "\<dots> \<longleftrightarrow> (\<exists>j. m \<le> j \<and> j < m + m \<and> bit x (i + j))"
      by (metis add.assoc add_diff_inverse_nat le_add1 nat_add_left_cancel_less not_less)
    finally show ?thesis
      using assms(1) i by (auto simp: bit_or_iff smeared_def intro: less_le_trans) (meson not_less)
  qed
  then show ?thesis by (simp add: smeared_def)
qed

lemma smeared_chain:
  assumes "\<not> bit x 31"
  shows "smeared 32 x (let x = x OR signed_drop_bit 1 x; x = x OR signed_drop_bit 2 x;
     x = x OR signed_drop_bit 4 x; x = x OR signed_drop_bit 8 x in x OR signed_drop_bit 16 x)"
proof -
  have "smeared 1 x x" by (simp add: smeared_def)
  from smeared_step [OF this assms] have "smeared 2 x (x OR signed_drop_bit 1 x)"
    by (simp add: numeral_2_eq_2)
  from smeared_step [OF this assms] have "smeared 4 x (let x = x OR signed_drop_bit 1 x in x OR signed_drop_bit 2 x)"
    by (simp add: Let_def)
  from smeared_step [OF this assms] have "smeared 8 x (let x = x OR signed_drop_bit 1 x;
      x = x OR signed_drop_bit 2 x in x OR signed_drop_bit 4 x)"
    by (simp add: Let_def)
  from smeared_step [OF this assms] have "smeared 16 x (let x = x OR signed_drop_bit 1 x;
      x = x OR signed_drop_bit 2 x; x = x OR signed_drop_bit 4 x in x OR signed_drop_bit 8 x)"
    by (simp add: Let_def)
  from smeared_step [OF this assms] show ?thesis by (simp add: Let_def)
qed

lemma smeared_mask:
  assumes s: "smeared 32 x y" and t: "2 ^ t \<le> unat x" "unat x < 2 ^ Suc t" "t < 31"
  shows "y + 1 = 2 ^ Suc t"
proof -
  have bt: "bit (unat x) t"
  proof -
    have "unat x div 2 ^ t = 1" using t by (intro div_nat_eqI) auto
    then show ?thesis by (simp add: bit_nat_def)
  qed
  have up: "\<not> bit (unat x) n" if "t < n" for n
  proof -
    have "unat x < 2 ^ n" using t(2) that by (meson less_le_trans one_le_numeral power_increasing Suc_leI)
    then show ?thesis by (simp add: bit_nat_def)
  qed
  have b: "bit x n \<longleftrightarrow> bit (unat x) n" for n using bit_imp_le_length [of x n] by (auto simp: bit_unsigned_iff)
  have "y = mask (Suc t)"
  proof (rule bit_word_eqI)
    fix i assume i: "i < LENGTH(32)"
    have "(\<exists>j < 32. bit x (i + j)) \<longleftrightarrow> i \<le> t"
    proof
      assume "\<exists>j < 32. bit x (i + j)"
      then show "i \<le> t" using up b by (metis le_add1 le_trans not_less)
    next
      assume "i \<le> t"
      then have "t - i < 32 \<and> bit x (i + (t - i))" using bt b t(3) by simp
      then show "\<exists>j < 32. bit x (i + j)" by blast
    qed
    then show "bit y i = bit (mask (Suc t) :: 32 word) i"
      using s i by (auto simp: smeared_def bit_mask_iff)
  qed
  then show ?thesis by (simp add: mask_eq_exp_minus_1)
qed


lemma next2Power_correct:
  assumes x: "1 \<le> n" "n \<le> 2 ^ 30" and sh: "\<And>y. shift32 y = y \<or> shift32 y = 0"
  shows "\<exists>k \<le> 30. next2Power shift32 (of_nat n) = 2 ^ k \<and> n \<le> 2 ^ k \<and> 2 ^ k < 2 * n"
proof -
  let ?x = "of_nat n - 1 :: 32 word"
  have xm: "?x = of_nat (n - 1)" using x(1) by simp
  have u: "unat ?x = n - 1" unfolding xm using x(2) by (intro unat_of_nat_small) simp
  have nb: "\<not> bit ?x 31"
  proof -
    have "(n - 1) div 2 ^ 31 = 0" using x(2) by simp
    then have "\<not> bit (unat ?x) 31" unfolding u by (simp add: bit_nat_def)
    then show ?thesis by (simp add: bit_unsigned_iff)
  qed
  define y where "y = (let x = ?x OR signed_drop_bit 1 ?x; x = x OR signed_drop_bit 2 x;
     x = x OR signed_drop_bit 4 x; x = x OR signed_drop_bit 8 x in x OR signed_drop_bit 16 x)"
  have s: "smeared 32 ?x y" unfolding y_def by (rule smeared_chain [OF nb])
  have "next2Power shift32 (of_nat n) = (y OR shift32 y) + 1"
    by (simp add: next2Power_def y_def Let_def)
  also have "y OR shift32 y = y" using sh [of y] by auto
  finally have r: "next2Power shift32 (of_nat n) = y + 1" .
  show ?thesis
  proof (cases "n = 1")
    case True
    then have "y = 0" by (simp add: y_def)
    then show ?thesis using r True by (intro exI [of _ 0]) simp
  next
    case False
    then have "1 \<le> n - 1" using x(1) by simp
    then obtain t where t: "2 ^ t \<le> n - 1" "n - 1 < 2 ^ (t + 1)"
      using ex_power_ivl1 [of 2 "n - 1"] by auto
    have "(2 :: nat) ^ t < 2 ^ 30" using t(1) x by linarith
    then have t30: "t < 30" by (simp only: power_strict_increasing_iff)
    have "y + 1 = 2 ^ Suc t"
      by (rule smeared_mask [OF s]) (use t t30 u in simp_all)
    then show ?thesis using r t t30 False by (intro exI [of _ "Suc t"]) auto
  qed
qed

section \<open>The sketch as a table of counters\<close>

text \<open>
  The abstract sketch has one number for every row and cell; the contract of the client is to
  increment no counter past seven before the next \<^verbatim>\<open>decay\<close> or \<^verbatim>\<open>clear\<close>.
\<close>

datatype cm_op = Increment u32 | Decay | Clear

fun cm_step :: "cm_op \<Rightarrow> cm_sketch \<Rightarrow> cm_sketch result" where
  "cm_step (Increment h) s = cm_increment h s"
| "cm_step Decay s = Inr (cm_decay s)"
| "cm_step Clear s = Inr (cm_clear s)"

definition cell_of :: "u32 list \<Rightarrow> u32 \<Rightarrow> u32 \<Rightarrow> nat \<Rightarrow> nat" where
  "cell_of seeds msk h i = unat ((h XOR seeds ! i) AND msk)"

type_synonym counters = "nat \<Rightarrow> nat \<Rightarrow> nat"

fun counter_step :: "(u32 \<Rightarrow> nat \<Rightarrow> nat) \<Rightarrow> cm_op \<Rightarrow> counters \<Rightarrow> counters option" where
  "counter_step cell (Increment h) t =
     (if \<forall>i \<in> set [0..<4]. t i (cell h i) < 7
      then Some (\<lambda>i c. t i c + (if c = cell h i then 1 else 0)) else None)"
| "counter_step cell Decay t = Some (\<lambda>i c. t i c div 2)"
| "counter_step cell Clear t = Some (\<lambda>i c. 0)"

definition row_repr :: "nat \<Rightarrow> (nat \<Rightarrow> nat) \<Rightarrow> cm_row \<Rightarrow> bool" where
  "row_repr n t r \<longleftrightarrow> length (row_bits r) = n \<and> (\<forall>c < 8 * n. row_count r c = t c \<and> t c \<le> 7)"

definition cm_repr :: "u32 list \<Rightarrow> u32 \<Rightarrow> nat \<Rightarrow> cm_sketch \<Rightarrow> counters \<Rightarrow> bool" where
  "cm_repr seeds msk n s t \<longleftrightarrow>
     cm_seed s = seeds \<and> length seeds = 4 \<and> cm_mask s = msk \<and> unat msk < 8 * n \<and>
     length (cm_rows s) = 4 \<and> (\<forall>i < 4. row_repr n (t i) (cm_rows s ! i))"

lemma cell_of_less:
  assumes "unat msk < 8 * n" shows "cell_of seeds msk h i < 8 * n"
  using unat_and_le [of "h XOR seeds ! i" msk] assms by (simp add: cell_of_def)

lemma cm_cell_eq:
  "i < length (cm_seed s) \<Longrightarrow> cm_cell s h i = Inr (cell_of (cm_seed s) (cm_mask s) h i)"
  by (simp add: cm_cell_def cell_of_def)

lemma row_repr_increment:
  assumes r: "row_repr n t r" and c: "c < 8 * n" "t c < 7"
  shows "\<exists>r'. row_increment c r = Inr r' \<and> row_repr n (\<lambda>d. t d + (if d = c then 1 else 0)) r'"
proof -
  have "c div 8 < n" using c(1) by (simp add: less_mult_imp_div_less mult.commute)
  then have i: "c div 8 * 8 + 7 < 8 * n" by linarith
  have "row_count r (c div 8 * 8 + 7) = t (c div 8 * 8 + 7) \<and> t (c div 8 * 8 + 7) \<le> 7"
    "row_count r c = t c"
    using r i c(1) unfolding row_repr_def by blast+
  then have "row_count r (c div 8 * 8 + 7) < 8" "row_count r c < (if c mod 8 = 7 then 7 else 15)"
    using c(2) by auto
  then obtain r' where "row_increment c r = Inr r'" "length (row_bits r') = length (row_bits r)"
      "\<And>d. row_count r' d = row_count r d + (if d = c then 1 else 0)"
    using row_increment_count [of c r] r c(1) by (auto simp: row_repr_def)
  then show ?thesis using r c by (auto simp: row_repr_def)
qed

lemma increment_loop_repr:
  assumes "length (cm_seed s) = i + length rs" "length ts = length rs"
    and "unat (cm_mask s) < 8 * n"
    and "\<And>j. j < length rs \<Longrightarrow> row_repr n (ts ! j) (rs ! j)"
    and "\<And>j. j < length rs \<Longrightarrow> (ts ! j) (cell_of (cm_seed s) (cm_mask s) h (i + j)) < 7"
  shows "\<exists>rs'. increment_loop s h i rs = Inr rs' \<and> length rs' = length rs \<and>
    (\<forall>j < length rs. row_repr n
       (\<lambda>d. (ts ! j) d + (if d = cell_of (cm_seed s) (cm_mask s) h (i + j) then 1 else 0)) (rs' ! j))"
  using assms
proof (induction rs arbitrary: i ts)
  case (Cons r rs)
  obtain t ts' where ts: "ts = t # ts'" using Cons.prems(2) by (cases ts) auto
  have c: "cm_cell s h i = Inr (cell_of (cm_seed s) (cm_mask s) h i)"
    using Cons.prems(1) by (simp add: cm_cell_eq)
  obtain r' where r': "row_increment (cell_of (cm_seed s) (cm_mask s) h i) r = Inr r'"
    "row_repr n (\<lambda>d. t d + (if d = cell_of (cm_seed s) (cm_mask s) h i then 1 else 0)) r'"
    using row_repr_increment [OF _ cell_of_less [OF Cons.prems(3), of "cm_seed s" h i], of t r]
      Cons.prems(4) [of 0] Cons.prems(5) [of 0] ts by auto
  have "\<exists>rs'. increment_loop s h (Suc i) rs = Inr rs' \<and> length rs' = length rs \<and>
    (\<forall>j < length rs. row_repr n (\<lambda>d. (ts' ! j) d +
       (if d = cell_of (cm_seed s) (cm_mask s) h (Suc i + j) then 1 else 0)) (rs' ! j))"
  proof (rule Cons.IH)
    fix j assume j: "j < length rs"
    show "row_repr n (ts' ! j) (rs ! j)" using Cons.prems(4) [of "Suc j"] ts j by simp
    show "(ts' ! j) (cell_of (cm_seed s) (cm_mask s) h (Suc i + j)) < 7"
      using Cons.prems(5) [of "Suc j"] ts j by simp
  qed (use Cons.prems ts in auto)
  then obtain rs' where "increment_loop s h (Suc i) rs = Inr rs'" "length rs' = length rs"
    "\<And>j. j < length rs \<Longrightarrow> row_repr n (\<lambda>d. (ts' ! j) d +
       (if d = cell_of (cm_seed s) (cm_mask s) h (Suc i + j) then 1 else 0)) (rs' ! j)"
    by blast
  then show ?case using c r' ts by (auto simp: nth_Cons' less_Suc_eq_0_disj)
qed simp


lemma row_repr_decay:
  assumes "row_repr n t r" shows "row_repr n (\<lambda>c. t c div 2) (row_decay r)"
proof -
  have "row_count (row_decay r) c = row_count r c div 2" if "c < 8 * n" for c
  proof -
    have "c div 8 < length (row_bits r)"
      using that assms by (simp add: row_repr_def less_mult_imp_div_less mult.commute)
    then show ?thesis by (simp add: row_count_def row_decay_def decay_nibble [simplified])
  qed
  then show ?thesis using assms by (auto simp: row_repr_def row_decay_def)
qed

lemma row_repr_zero: "row_repr n (\<lambda>c. 0) \<lparr>row_bits = replicate n 0\<rparr>"
proof -
  have "row_count \<lparr>row_bits = replicate n 0\<rparr> c = 0" if "c < 8 * n" for c
    using that by (simp add: row_count_def nibble_def less_mult_imp_div_less mult.commute)
  then show ?thesis by (simp add: row_repr_def)
qed

lemma row_repr_clear:
  assumes "row_repr n t r" shows "row_repr n (\<lambda>c. 0) (row_clear r)"
proof -
  have "row_clear r = \<lparr>row_bits = replicate n 0\<rparr>"
    using assms by (simp add: row_clear_def row_repr_def map_replicate_const)
  then show ?thesis by (simp add: row_repr_zero)
qed

lemma cm_step_ok:
  assumes r: "cm_repr seeds msk n s t" and c: "counter_step (cell_of seeds msk) c t = Some t'"
  shows "\<exists>s'. cm_step c s = Inr s' \<and> cm_repr seeds msk n s' t'"
proof (cases c)
  case (Increment h)
  have lt: "t i (cell_of seeds msk h i) < 7" if "i < 4" for i
    using c Increment that by (auto split: if_splits)
  have t': "t' = (\<lambda>i c. t i c + (if c = cell_of seeds msk h i then 1 else 0))"
    using c Increment by (auto split: if_splits)
  have s: "cm_seed s = seeds" "cm_mask s = msk" "length seeds = 4" "length (cm_rows s) = 4"
    "unat msk < 8 * n" "\<And>i. i < 4 \<Longrightarrow> row_repr n (t i) (cm_rows s ! i)"
    using r by (simp_all add: cm_repr_def)
  have "\<exists>rs'. increment_loop s h 0 (cm_rows s) = Inr rs' \<and> length rs' = length (cm_rows s) \<and>
    (\<forall>j < length (cm_rows s). row_repr n (\<lambda>d. (map t [0..<4] ! j) d +
       (if d = cell_of (cm_seed s) (cm_mask s) h (0 + j) then 1 else 0)) (rs' ! j))"
    by (rule increment_loop_repr) (use s lt in simp_all)
  then obtain rs' where rs': "increment_loop s h 0 (cm_rows s) = Inr rs'" "length rs' = 4"
    "\<And>j. j < 4 \<Longrightarrow> row_repr n (t' j) (rs' ! j)"
    using s(1,2,4) by (auto simp: t')
  then have "cm_repr seeds msk n (s\<lparr>cm_rows := rs'\<rparr>) t'" using r by (simp add: cm_repr_def)
  then show ?thesis using rs'(1) Increment by (simp add: cm_increment_def)
next
  case Decay
  then show ?thesis using r c by (auto simp: cm_repr_def cm_decay_def row_repr_decay)
next
  case Clear
  then show ?thesis using r c by (auto simp: cm_repr_def cm_clear_def row_repr_clear)
qed

interpretation cms: contract_simulation cm_step "counter_step (cell_of seeds msk)" "cm_repr seeds msk n"
  for seeds :: "u32 list" and msk :: u32 and n :: nat
  by unfold_locales (rule cm_step_ok)

text \<open>The loop of \<^verbatim>\<open>getCountMin\<close> computes the minimum of the counters it reads.\<close>

lemma count_min_loop_Min:
  assumes "length (cm_seed s) = i + length rs" "unat (cm_mask s) < 8 * n"
    and "\<And>j. j < length rs \<Longrightarrow> row_repr n (t (i + j)) (rs ! j)"
    and "sint mn = int m"
  shows "\<exists>v. count_min_loop s h i rs mn = Inr v \<and>
    sint v = int (fold min (map (\<lambda>j. t j (cell_of (cm_seed s) (cm_mask s) h j)) [i..<i + length rs]) m)"
  using assms
proof (induction rs arbitrary: i mn m)
  case (Cons r rs)
  let ?c = "cell_of (cm_seed s) (cm_mask s) h i"
  have c: "cm_cell s h i = Inr ?c" using Cons.prems(1) by (simp add: cm_cell_eq)
  have rr: "row_repr n (t i) r" using Cons.prems(3) [of 0] by simp
  have "row_count r ?c = t i ?c \<and> t i ?c \<le> 7" and l: "length (row_bits r) = n"
    using rr cell_of_less [OF Cons.prems(2)] by (auto simp: row_repr_def)
  then obtain v where v: "row_get ?c r = Inr v" "sint v = int (t i ?c)"
    using row_get_count [of ?c r] cell_of_less [OF Cons.prems(2), of "cm_seed s" h i] by auto
  have up: "[i..<i + length (r # rs)] = i # [Suc i..<Suc i + length rs]"
    by (simp add: upt_conv_Cons del: upt_Suc)
  have "\<exists>w. count_min_loop s h (Suc i) rs (if sint v < sint mn then v else mn) = Inr w \<and>
    sint w = int (fold min (map (\<lambda>j. t j (cell_of (cm_seed s) (cm_mask s) h j))
      [Suc i..<Suc i + length rs]) (min (t i ?c) m))"
  proof (rule Cons.IH)
    fix j assume "j < length rs"
    then show "row_repr n (t (Suc i + j)) (rs ! j)" using Cons.prems(3) [of "Suc j"] by simp
  qed (use Cons.prems v in auto)
  then show ?case unfolding up using c v by simp
qed simp


lemma getCountMin_Min:
  assumes "cm_repr seeds msk n s t"
  shows "\<exists>v. getCountMin s h = Inr v \<and>
    sint v = int (Min ((\<lambda>i. t i (cell_of seeds msk h i)) ` {0, 1, 2, 3}))"
proof -
  let ?f = "\<lambda>i. t i (cell_of seeds msk h i)"
  have s: "cm_seed s = seeds" "cm_mask s = msk" "length seeds = 4" "length (cm_rows s) = 4"
    "unat msk < 8 * n" "\<And>i. i < 4 \<Longrightarrow> row_repr n (t i) (cm_rows s ! i)"
    using assms by (simp_all add: cm_repr_def)
  have "\<exists>v. count_min_loop s h 0 (cm_rows s) 16 = Inr v \<and>
    sint v = int (fold min (map (\<lambda>j. t j (cell_of (cm_seed s) (cm_mask s) h j)) [0..<0 + length (cm_rows s)]) 16)"
    by (rule count_min_loop_Min) (use s in simp_all)
  moreover have "fold min (map ?f [0..<4]) 16 = Min (?f ` {0, 1, 2, 3})"
  proof -
    have "?f 0 \<le> 7"
      using s(6) [of 0] cell_of_less [OF s(5), of seeds h 0] by (simp add: row_repr_def)
    then have "?f 0 \<le> 16" by simp
    then show ?thesis
      by (simp add: upt_rec [of _ "4 :: nat"] min.commute min.left_commute min.absorb1
          numeral_2_eq_2 numeral_3_eq_3)
  qed
  ultimately show ?thesis using s by (simp add: getCountMin_def)
qed

section \<open>Properties\<close>

lemma unat_mask_u32:
  assumes "m \<le> 30" shows "unat (2 ^ m - 1 :: u32) = 2 ^ m - 1"
proof -
  have "(2 :: nat) ^ m < 2 ^ 32" using assms by (intro power_strict_increasing) auto
  then have "unat (of_nat (2 ^ m - 1) :: u32) = 2 ^ m - 1" by (intro unat_of_nat_small) simp
  then show ?thesis by simp
qed

lemma max_8_power: "max 8 (2 ^ k) = (2 :: nat) ^ max 3 k"
proof (cases "k < 3")
  case True
  then have "(2 :: nat) ^ k < 2 ^ 3" by (intro power_strict_increasing) auto
  then show ?thesis using True by simp
next
  case False
  then have "(2 :: nat) ^ 3 \<le> 2 ^ k" by (intro power_increasing) auto
  then show ?thesis using False by (simp add: max_def)
qed

lemma new_sketch_shape:
  assumes "k \<le> 30" "next2Power shift32 (of_nat countNum) = 2 ^ k" "length seeds = 4"
  shows "cm_repr seeds (2 ^ max 3 k - 1) (2 ^ (max 3 k - 3)) (new_sketch shift32 countNum seeds) (\<lambda>i c. 0)"
proof -
  have u32: "unat (2 ^ j :: 32 word) = 2 ^ j" if "j \<le> 30" for j
    using that unat_of_nat_small [of "2 ^ j", where 'a = 32] power_strict_increasing [of j 32 "2 :: nat"]
    by simp
  have "unat (2 ^ k :: 32 word) < 2 ^ 31"
    unfolding u32 [OF assms(1)] using assms(1) by (intro power_strict_increasing) auto
  then have "sint (2 ^ k :: 32 word) = 2 ^ k"
    using sint_small [of "2 ^ k :: 32 word"] u32 [OF assms(1)] by simp
  then have "(scast (2 ^ k :: 32 word) :: u64) = of_nat (2 ^ k)"
    by (metis of_int_numeral of_int_power of_nat_numeral of_nat_power scast_eq)
  then have k: "unat (scast (2 ^ k :: 32 word) :: u64) = 2 ^ k"
    using assms(1) power_strict_increasing [of k 64 "2 :: nat"] unat_of_nat_small [of "2 ^ k", where 'a = 64]
    by simp
  define m where "m = max 3 k"
  have m: "m \<le> 30" "3 \<le> m" using assms(1) by (simp_all add: m_def)
  have c: "(if (2 :: nat) ^ k < 8 then 8 else 2 ^ k) = (2 ^ m :: nat)"
    unfolding m_def max_8_power [symmetric] by (simp add: max_def)
  have d: "(2 :: nat) ^ m = 8 * 2 ^ (m - 3)" using m(2) power_add [of "2 :: nat" 3 "m - 3"] by simp
  have row: "new_row (2 ^ m) = \<lparr>row_bits = replicate (2 ^ (m - 3)) 0\<rparr>"
    using d by (simp add: new_row_def)
  have msk: "(of_nat (2 ^ m - 1) :: u32) = 2 ^ m - 1" by simp
  have "unat (2 ^ m - 1 :: u32) < 8 * 2 ^ (m - 3)"
    unfolding d [symmetric] unat_mask_u32 [OF m(1)] by simp
  moreover have "new_sketch shift32 countNum seeds =
      \<lparr>cm_rows = replicate 4 (new_row (2 ^ m)), cm_seed = seeds, cm_mask = 2 ^ m - 1\<rparr>"
    using msk by (simp only: new_sketch_def Let_def assms(2) k c)
  ultimately show ?thesis
    using row_repr_zero row assms(3) by (auto simp: cm_repr_def m_def [symmetric])
qed

text \<open>
  C11: For a count between 1 and 2 to the power 30 and any seeds, the sketch has a power of two
  of counters in every row, the least one that is at least 8 and the count, whatever the over-wide
  shift yields of the two values that processors give.  After any increments, decays and clearings
  that take no counter past seven, all of which return, \<^verbatim>\<open>getCountMin\<close> gives the minimum over
  the rows of the number of increments of the hash's counter, halved by every later decay; no
  counter outside the incremented ones changes.
\<close>

theorem sketch_refines_counters:
  assumes "1 \<le> countNum" "countNum \<le> 2 ^ 30" "length seeds = 4"
    and "\<And>y. shift32 y = y \<or> shift32 y = 0"
    and "s0 = new_sketch shift32 countNum seeds"
    and "run_contract (counter_step (cell_of seeds (cm_mask s0))) cs (\<lambda>i c. 0) = Some t"
  shows "(\<exists>k. unat (cm_mask s0) = max 8 (2 ^ k) - 1 \<and> countNum \<le> 2 ^ k \<and> 2 ^ k < 2 * countNum) \<and>
    (\<exists>s v. run_calls cm_step cs s0 = Inr s \<and> getCountMin s h = Inr v \<and>
      sint v = int (Min ((\<lambda>i. t i (cell_of seeds (cm_mask s0) h i)) ` {0, 1, 2, 3})))"
proof -
  obtain k where k: "k \<le> 30" "next2Power shift32 (of_nat countNum) = 2 ^ k"
    "countNum \<le> 2 ^ k" "2 ^ k < 2 * countNum"
    using next2Power_correct [OF assms(1,2,4)] by blast
  have r0: "cm_repr seeds (2 ^ max 3 k - 1) (2 ^ (max 3 k - 3)) s0 (\<lambda>i c. 0)"
    using new_sketch_shape [OF k(1,2) assms(3)] assms(5) by simp
  then have msk: "cm_mask s0 = 2 ^ max 3 k - 1" by (simp add: cm_repr_def)
  have m: "unat (cm_mask s0) = max 8 (2 ^ k) - 1"
    unfolding msk max_8_power by (rule unat_mask_u32) (use k(1) in simp)
  obtain s where s: "run_calls cm_step cs s0 = Inr s"
    and r: "cm_repr seeds (cm_mask s0) (2 ^ (max 3 k - 3)) s t"
    using cms.calls_simulate [OF r0 [folded msk] assms(6)] by blast
  show ?thesis using m k(3,4) s getCountMin_Min [OF r, of h] by blast
qed


theorem sketch_refines_counters_witness:
  "run_contract (counter_step (cell_of [1, 2, 3, 4] 15)) [Increment 5, Increment 5, Decay, Increment 5]
     (\<lambda>i c. 0) \<noteq> None \<and>
   (\<exists>s v. run_calls cm_step [Increment 5, Increment 5, Decay, Increment 5]
     (new_sketch (\<lambda>x. x) 10 [1, 2, 3, 4]) = Inr s \<and> getCountMin s 5 = Inr v \<and> sint v = 2)"
proof -
  let ?s0 = "new_sketch (\<lambda>x. x) 10 [1, 2, 3, 4]"
  let ?cs = "[Increment 5, Increment 5, Decay, Increment 5]"
  let ?c = "cell_of [1, 2, 3, 4] 15"
  have m: "cm_mask ?s0 = 15" by code_simp
  have "map_option (\<lambda>t. map (\<lambda>i. t i (?c 5 i)) [0, 1, 2, 3])
      (run_contract (counter_step ?c) ?cs (\<lambda>i c. 0)) = Some [2, 2, 2, 2]"
    by code_simp
  then obtain t where t: "run_contract (counter_step ?c) ?cs (\<lambda>i c. 0) = Some t"
    and v: "map (\<lambda>i. t i (?c 5 i)) [0, 1, 2, 3] = [2, 2, 2, 2]"
    by (auto simp: map_option_case split: option.splits)
  have "\<exists>s v. run_calls cm_step ?cs ?s0 = Inr s \<and> getCountMin s 5 = Inr v \<and>
      sint v = int (Min ((\<lambda>i. t i (cell_of [1, 2, 3, 4] (cm_mask ?s0) 5 i)) ` {0, 1, 2, 3}))"
    using sketch_refines_counters [of 10 "[1, 2, 3, 4]" "\<lambda>x. x" ?s0 ?cs t 5] t by (simp add: m)
  moreover have "Min ((\<lambda>i. t i (cell_of [1, 2, 3, 4] (cm_mask ?s0) 5 i)) ` {0, 1, 2, 3}) = 2"
    using v by (simp add: m)
  ultimately have "\<exists>s v. run_calls cm_step ?cs ?s0 = Inr s \<and> getCountMin s 5 = Inr v \<and> sint v = 2"
    by (simp only: of_nat_numeral)
  then show ?thesis unfolding t by (intro conjI) simp_all
qed

lemma row_increments:
  assumes "c mod 8 \<noteq> 7" "c < countNum" "8 \<le> countNum" "countNum mod 8 = 0" "n \<le> 15"
  shows "\<exists>r. run_calls row_increment (replicate n c) (new_row countNum) = Inr r \<and>
    length (row_bits r) = countNum div 8 \<and> (\<forall>d < countNum. row_count r d = (if d = c then n else 0))"
  using assms(5)
proof (induction n)
  case 0
  have "row_repr (countNum div 8) (\<lambda>c. 0) (new_row countNum)"
    using row_repr_zero [of "countNum div 8"] assms(3) by (simp add: new_row_def)
  then show ?case using assms(4) by (auto simp: row_repr_def)
next
  case (Suc n)
  obtain r where r: "run_calls row_increment (replicate n c) (new_row countNum) = Inr r"
    "length (row_bits r) = countNum div 8" "\<And>d. d < countNum \<Longrightarrow> row_count r d = (if d = c then n else 0)"
    using Suc by auto
  have l: "8 * length (row_bits r) = countNum" using r(2) assms(4) by auto
  have "c div 8 < countNum div 8"
    using assms(2) r(2) l by (simp add: less_mult_imp_div_less)
  then have i: "c div 8 * 8 + 7 < countNum" using l r(2) by linarith
  have ne: "c div 8 * 8 + 7 \<noteq> c" using assms(1) div_mult_mod_eq [of c 8] by linarith
  obtain r' where "row_increment c r = Inr r'" "length (row_bits r') = length (row_bits r)"
    "\<And>d. row_count r' d = row_count r d + (if d = c then 1 else 0)"
    using row_increment_count [of c r] l r(3) [OF i] r(3) [OF assms(2)] ne Suc.prems assms(1,2) by auto
  then show ?case
    using r by (auto simp: replicate_append_same [symmetric] run_calls_append)
qed



end
