(* ===== verification/Visited_List.thy ===== *)
theory Visited_List
  imports Interfaces
begin

text \<open>
  The visited lists of \<^verbatim>\<open>src/src/hnsw/hnsw_scratch/visited_list_pool.hpp\<close>: an array of 16-bit
  tags, one for every element, and the tag of the current search.  An element counts as
  visited when its tag is the current one, so that a new search only increments the current tag
  and clears the array when the tag wraps around to zero.  The pool keeps lists for reuse.

  The theory shows that a list behaves as a set that every search finds empty, over any
  number of searches and although the array is allocated without being initialised.
\<close>

section \<open>A list of tags\<close>

record visited_list =
  vl_current :: u16
  vl_at :: "u16 list"

text \<open>The constructor; \<open>raw\<close> is what the allocated array happens to hold.\<close>

definition new_VisitedList :: "u16 list \<Rightarrow> visited_list" where
  "new_VisitedList raw = \<lparr>vl_current = - 1, vl_at = raw\<rparr>"

definition vl_reset :: "visited_list \<Rightarrow> visited_list" where
  "vl_reset v =
     (let v = v\<lparr>vl_current := vl_current v + 1\<rparr>
      in if vl_current v = 0 then
           let v = v\<lparr>vl_at := replicate (length (vl_at v)) 0\<rparr>
           in v\<lparr>vl_current := vl_current v + 1\<rparr>
         else v)"

text \<open>The test and the assignment by which a search uses the list.\<close>

definition is_visited :: "nat \<Rightarrow> visited_list \<Rightarrow> bool result" where
  "is_visited i v = bindR (vec_at (vl_at v) i) (\<lambda>t. Inr (t = vl_current v))"

definition mark_visited :: "nat \<Rightarrow> visited_list \<Rightarrow> visited_list result" where
  "mark_visited i v =
     bindR (vec_at (vl_at v) i) (\<lambda>_. Inr (v\<lparr>vl_at := (vl_at v)[i := vl_current v]\<rparr>))"

section \<open>The pool\<close>

text \<open>Lists live in a store; the deque holds the addresses of the free ones.\<close>

record vl_pool =
  vp_free :: "nat list"
  vp_num :: nat
  vp_heap :: "nat \<rightharpoonup> visited_list"

definition vp_push :: "nat \<times> u16 list \<Rightarrow> vl_pool \<Rightarrow> vl_pool" where
  "vp_push ar p = p\<lparr>vp_free := fst ar # vp_free p, vp_heap := (vp_heap p)(fst ar \<mapsto> new_VisitedList (snd ar))\<rparr>"

text \<open>The constructor: one allocation, an address and its contents, for every initial list.\<close>

definition new_VisitedListPool :: "(nat \<times> u16 list) list \<Rightarrow> nat \<Rightarrow> vl_pool" where
  "new_VisitedListPool allocs numelements1 =
     fold vp_push allocs \<lparr>vp_free = [], vp_num = numelements1, vp_heap = Map.empty\<rparr>"

text \<open>\<open>ar\<close> is the allocation that is made when no list is free.\<close>

definition getFreeVisitedList :: "nat \<times> u16 list \<Rightarrow> vl_pool \<Rightarrow> (nat \<times> vl_pool) result" where
  "getFreeVisitedList ar p =
     (let (rez, p) =
        (case vp_free p of
           x # xs \<Rightarrow> (x, p\<lparr>vp_free := xs\<rparr>)
         | [] \<Rightarrow> (fst ar, p\<lparr>vp_heap := (vp_heap p)(fst ar \<mapsto> new_VisitedList (snd ar))\<rparr>))
      in case vp_heap p rez of
           None \<Rightarrow> Inl Dangling
         | Some v \<Rightarrow> Inr (rez, p\<lparr>vp_heap := (vp_heap p)(rez \<mapsto> vl_reset v)\<rparr>))"

definition releaseVisitedList :: "nat \<Rightarrow> vl_pool \<Rightarrow> vl_pool" where
  "releaseVisitedList x p = p\<lparr>vp_free := x # vp_free p\<rparr>"

text \<open>The destructor deletes the lists that are free.\<close>

definition delete_pool :: "vl_pool \<Rightarrow> vl_pool" where
  "delete_pool p = p\<lparr>vp_free := [], vp_heap := (vp_heap p) |` (- set (vp_free p))\<rparr>"

section \<open>Tags\<close>

text \<open>
  No tag is greater than the current one.  A new list starts at the greatest tag, so that
  this holds whatever the memory contains.
\<close>

definition tags_ok :: "visited_list \<Rightarrow> bool" where
  "tags_ok v = (\<forall>t \<in> set (vl_at v). t \<le> vl_current v)"

lemma tags_ok_new: "tags_ok (new_VisitedList raw)"
  by (simp add: tags_ok_def new_VisitedList_def)

lemma tags_ok_reset:
  assumes "tags_ok v"
  shows "tags_ok (vl_reset v)" "length (vl_at (vl_reset v)) = length (vl_at v)"
    "i < length (vl_at v) \<Longrightarrow> is_visited i (vl_reset v) = Inr False"
proof -
  have less: "t < vl_current v + 1" if "t \<in> set (vl_at v)" "vl_current v + 1 \<noteq> 0" for t
    using assms that by (auto simp: tags_ok_def word_le_nat_alt word_less_nat_alt unat_add_one
        intro: le_less_trans)
  show "tags_ok (vl_reset v)"
    using less by (auto simp: tags_ok_def vl_reset_def Let_def intro: less_imp_le)
  show "length (vl_at (vl_reset v)) = length (vl_at v)"
    by (simp add: vl_reset_def Let_def)
  show "is_visited i (vl_reset v) = Inr False" if "i < length (vl_at v)"
    using that less [of "vl_at v ! i"] by (auto simp: is_visited_def vl_reset_def Let_def)
qed

lemma tags_ok_mark:
  assumes "tags_ok v" "i < length (vl_at v)"
  obtains v' where "mark_visited i v = Inr v'" "tags_ok v'" "length (vl_at v') = length (vl_at v)"
    "\<And>j. j < length (vl_at v) \<Longrightarrow> is_visited j v' = (if j = i then Inr True else is_visited j v)"
proof -
  have t: "tags_ok (v\<lparr>vl_at := (vl_at v)[i := vl_current v]\<rparr>)"
    using assms by (auto simp: tags_ok_def dest: set_update_subset_insert [THEN subsetD])
  show ?thesis
    by (rule that [OF _ t]) (use assms in \<open>auto simp: mark_visited_def is_visited_def\<close>)
qed

section \<open>Searches that share the pool\<close>

text \<open>
  The steps that searches make on the pool, in any order: take a list, mark an element in a
  list it holds, give the list back.  The second component of the state maps every list that
  is held to the elements its holder has marked since it took the list.
\<close>

inductive pool_step :: "vl_pool \<times> (nat \<rightharpoonup> nat set) \<Rightarrow> vl_pool \<times> (nat \<rightharpoonup> nat set) \<Rightarrow> bool" where
  get: "\<lbrakk>a \<notin> dom (vp_heap p); length raw = vp_num p; getFreeVisitedList (a, raw) p = Inr (x, p')\<rbrakk>
    \<Longrightarrow> pool_step (p, H) (p', H(x \<mapsto> {}))"
| mark: "\<lbrakk>H x = Some M; vp_heap p x = Some v; mark_visited i v = Inr v'\<rbrakk>
    \<Longrightarrow> pool_step (p, H) (p\<lparr>vp_heap := (vp_heap p)(x \<mapsto> v')\<rparr>, H(x \<mapsto> insert i M))"
| release: "x \<in> dom H \<Longrightarrow> pool_step (p, H) (releaseVisitedList x p, H(x := None))"

inductive_cases pool_stepE: "pool_step s s'"

definition pool_inv :: "nat \<Rightarrow> vl_pool \<times> (nat \<rightharpoonup> nat set) \<Rightarrow> bool" where
  "pool_inv n s = (case s of (p, H) \<Rightarrow>
     vp_num p = n \<and> distinct (vp_free p) \<and> set (vp_free p) \<union> dom H \<subseteq> dom (vp_heap p) \<and>
     set (vp_free p) \<inter> dom H = {} \<and>
     (\<forall>x v. vp_heap p x = Some v \<longrightarrow> tags_ok v \<and> length (vl_at v) = n) \<and>
     (\<forall>x v M. vp_heap p x = Some v \<longrightarrow> H x = Some M \<longrightarrow>
        (\<forall>i < n. is_visited i v = Inr (i \<in> M))))"

lemma pool_inv_held:
  assumes "pool_inv n (p, H)" "H x = Some M"
  shows "\<exists>v. vp_heap p x = Some v \<and> (\<forall>i < n. is_visited i v = Inr (i \<in> M))"
proof -
  have "x \<in> dom (vp_heap p)" using assms by (auto simp: pool_inv_def)
  then obtain v where v: "vp_heap p x = Some v" by blast
  then show ?thesis using assms unfolding pool_inv_def by simp
qed

lemma getFree_returns:
  assumes inv: "pool_inv n (p, H)" and a: "a \<notin> dom (vp_heap p)" "length raw = n"
  obtains x p' where "getFreeVisitedList (a, raw) p = Inr (x, p')" "x \<notin> dom H"
    "pool_inv n (p', H(x \<mapsto> {}))"
proof (cases "vp_free p")
  case (Cons x xs)
  obtain v where v: "vp_heap p x = Some v" "tags_ok v" "length (vl_at v) = n"
    using inv Cons by (auto simp: pool_inv_def)
  let ?p = "p\<lparr>vp_free := xs, vp_heap := (vp_heap p)(x \<mapsto> vl_reset v)\<rparr>"
  have "getFreeVisitedList (a, raw) p = Inr (x, ?p)"
    using v(1) Cons by (simp add: getFreeVisitedList_def)
  moreover have "x \<notin> dom H" using inv Cons by (auto simp: pool_inv_def)
  moreover have "pool_inv n (?p, H(x \<mapsto> {}))"
    using inv Cons v tags_ok_reset [OF v(2)] by (auto simp: pool_inv_def)
  ultimately show ?thesis by (rule that)
next
  case Nil
  let ?v = "new_VisitedList raw"
  have l: "length (vl_at ?v) = n" using a by (simp add: new_VisitedList_def)
  let ?p = "p\<lparr>vp_heap := (vp_heap p)(a \<mapsto> vl_reset ?v)\<rparr>"
  have "getFreeVisitedList (a, raw) p = Inr (a, ?p)"
    using Nil by (simp add: getFreeVisitedList_def)
  moreover have "dom H \<subseteq> dom (vp_heap p)" using inv by (simp add: pool_inv_def)
  with a(1) have "a \<notin> dom H" by blast
  moreover have "pool_inv n (?p, H(a \<mapsto> {}))"
    using inv Nil a l tags_ok_reset [OF tags_ok_new [of raw]] by (auto simp: pool_inv_def)
  ultimately show ?thesis by (rule that)
qed

lemma pool_step_inv:
  assumes "pool_step s s'" "pool_inv n s" shows "pool_inv n s'"
  using assms
proof (cases rule: pool_step.cases)
  case (get a p raw x p' H)
  have i: "pool_inv n (p, H)" and r: "length raw = n"
    using assms(2) get by (simp_all add: pool_inv_def)
  obtain y q where "getFreeVisitedList (a, raw) p = Inr (y, q)" "pool_inv n (q, H(y \<mapsto> {}))"
    by (rule getFree_returns [OF i get(3) r])
  then show ?thesis using get by simp
next
  case (mark H x M p v i v')
  have v: "tags_ok v" "length (vl_at v) = n" "\<And>j. j < n \<Longrightarrow> is_visited j v = Inr (j \<in> M)"
    using assms(2) mark by (auto simp: pool_inv_def)
  have i: "i < length (vl_at v)"
    using mark(5) by (auto simp: mark_visited_def vec_at_def split: if_splits)
  obtain w where w: "mark_visited i v = Inr w" "tags_ok w" "length (vl_at w) = length (vl_at v)"
    "\<And>j. j < length (vl_at v) \<Longrightarrow> is_visited j w = (if j = i then Inr True else is_visited j v)"
    using tags_ok_mark [OF v(1) i] by blast
  have "is_visited j v' = Inr (j \<in> insert i M)" if "j < n" for j
    using w(1) w(4) [of j] mark(5) v(2,3) that by auto
  then show ?thesis
    using assms(2) mark w(1-3) v(2) by (auto simp: pool_inv_def)
next
  case (release x H p)
  then show ?thesis
    using assms(2) by (auto simp: pool_inv_def releaseVisitedList_def)
qed

lemma pool_inv_new:
  assumes "distinct (map fst allocs)" "\<And>ar. ar \<in> set allocs \<Longrightarrow> length (snd ar) = n"
  shows "pool_inv n (new_VisitedListPool allocs n, Map.empty)"
proof -
  have "distinct (map fst allocs) \<Longrightarrow> (\<forall>ar \<in> set allocs. length (snd ar) = n) \<Longrightarrow>
      fst ` set allocs \<inter> dom (vp_heap p) = {} \<Longrightarrow> pool_inv n (p, Map.empty) \<Longrightarrow>
      pool_inv n (fold vp_push allocs p, Map.empty)" for p
  proof (induction allocs arbitrary: p)
    case (Cons ar allocs)
    have "pool_inv n (vp_push ar p, Map.empty)"
      using Cons.prems tags_ok_new by (auto simp: pool_inv_def vp_push_def new_VisitedList_def)
    moreover have "fst ` set allocs \<inter> dom (vp_heap (vp_push ar p)) = {}"
      using Cons.prems by (auto simp: vp_push_def)
    ultimately show ?case using Cons by simp
  qed simp
  from this [of "\<lparr>vp_free = [], vp_num = n, vp_heap = Map.empty\<rparr>"] show ?thesis
    using assms unfolding new_VisitedListPool_def by (simp add: pool_inv_def)
qed

text \<open>
  C12: In every interleaving of searches that take lists, mark elements and give the lists back,
  whatever the memory of a new list holds and however often the 16-bit tag wraps around,
  a list that is held shows as visited exactly the elements its holder has marked since it
  took the list, and a request for a list is always answered, with a list that no other search
  holds and on which nothing is marked.
\<close>

theorem visited_pool_correct:
  assumes "distinct (map fst allocs)" "\<forall>ar \<in> set allocs. length (snd ar) = n"
    and "pool_step\<^sup>*\<^sup>* (new_VisitedListPool allocs n, Map.empty) (p, H)"
    and "a \<notin> dom (vp_heap p)" "length raw = n"
  shows "(\<forall>x M. H x = Some M \<longrightarrow>
      (\<exists>v. vp_heap p x = Some v \<and> (\<forall>i < n. is_visited i v = Inr (i \<in> M)))) \<and>
    (\<exists>x p' v. getFreeVisitedList (a, raw) p = Inr (x, p') \<and> x \<notin> dom H \<and>
      vp_heap p' x = Some v \<and> (\<forall>i < n. is_visited i v = Inr False))"
proof -
  have inv: "pool_inv n (p, H)"
    using assms(3)
  proof (induction rule: rtranclp_induct)
    case base
    then show ?case by (rule pool_inv_new) (use assms(1,2) in auto)
  qed (rule pool_step_inv)
  obtain x p' where x: "getFreeVisitedList (a, raw) p = Inr (x, p')" "x \<notin> dom H"
    "pool_inv n (p', H(x \<mapsto> {}))"
    by (rule getFree_returns [OF inv assms(4,5)])
  have "\<exists>v. vp_heap p' x = Some v \<and> (\<forall>i < n. is_visited i v = Inr False)"
    using pool_inv_held [OF x(3), of x "{}"] by simp
  then show ?thesis using x(1,2) pool_inv_held [OF inv] by blast
qed

theorem visited_pool_correct_witness:
  "\<exists>p x p' v. pool_step\<^sup>*\<^sup>* (new_VisitedListPool [(7, [3, 65535])] 2, Map.empty) (p, [7 \<mapsto> {1}]) \<and>
     getFreeVisitedList (8, [0, 0]) p = Inr (x, p') \<and> x \<noteq> 7 \<and> vp_heap p' x = Some v \<and>
     is_visited 1 v = Inr False"
proof -
  let ?p0 = "new_VisitedListPool [(7, [3, 65535])] 2"
  define p1 where "p1 = \<lparr>vp_free = [], vp_num = 2, vp_heap = [7 \<mapsto> \<lparr>vl_current = 1, vl_at = [0, 0]\<rparr>]\<rparr>"
  have p1: "vp_heap p1 = [7 \<mapsto> \<lparr>vl_current = 1, vl_at = [0, 0]\<rparr>]" by (simp add: p1_def)
  have g: "getFreeVisitedList (8, [0, 0]) ?p0 = Inr (7, p1)"
    by (simp add: getFreeVisitedList_def new_VisitedListPool_def vp_push_def new_VisitedList_def
        vl_reset_def p1_def numeral_2_eq_2 Let_def)
  have m: "mark_visited 1 \<lparr>vl_current = 1, vl_at = [0, 0]\<rparr> = Inr \<lparr>vl_current = 1, vl_at = [0, 1]\<rparr>"
    by (simp add: mark_visited_def)
  let ?p2 = "p1\<lparr>vp_heap := (vp_heap p1)(7 \<mapsto> \<lparr>vl_current = 1, vl_at = [0, 1]\<rparr>)\<rparr>"
  have "pool_step (?p0, Map.empty) (p1, Map.empty(7 \<mapsto> {}))"
    by (rule pool_step.get [OF _ _ g]) (simp_all add: new_VisitedListPool_def vp_push_def)
  moreover have "pool_step (p1, [7 \<mapsto> {}]) (?p2, [7 \<mapsto> {}](7 \<mapsto> insert 1 {}))"
    by (rule pool_step.mark [OF _ _ m]) (simp_all add: p1)
  ultimately have r: "pool_step\<^sup>*\<^sup>* (?p0, Map.empty) (?p2, [7 \<mapsto> {1}])" by simp
  have "8 \<notin> dom (vp_heap ?p2)" by (simp add: p1)
  from visited_pool_correct [OF _ _ r this, of "[0, 0]"] r show ?thesis by fastforce
qed

end
