(* ===== verification/Vector_Space.thy ===== *)
theory Vector_Space
  imports Interfaces
begin

text \<open>
  The distance functions and vector spaces of \<^verbatim>\<open>src/src/hnsw/hnsw_scratch/space_l2.hpp\<close> and
  \<^verbatim>\<open>space_ip.hpp\<close>, which implement the interface \<^verbatim>\<open>SpaceInterface\<close> of \<^verbatim>\<open>hnswlib.hpp\<close>.  A vector is
  the list of the scalars behind a pointer; reading behind its end is a failure.  The template
  functions are stated over any scalar type with the operations they use; the theorems are
  over commutative rings, so that they leave the rounding of floating-point numbers aside.
  The functions on \<^verbatim>\<open>unsigned char\<close> accumulate in an \<^verbatim>\<open>int\<close> of 32 bits, whose overflow is a failure.
\<close>

section \<open>Distances over a template scalar\<close>

text \<open>\<^verbatim>\<open>L2Sqr\<close>: both pointers advance by one scalar in every iteration.\<close>

fun L2Sqr_loop :: "nat \<Rightarrow> 'a::{minus,times,plus} list \<Rightarrow> 'a list \<Rightarrow> 'a \<Rightarrow> 'a result" where
  "L2Sqr_loop 0 vec1 vec2 result = Inr result"
| "L2Sqr_loop (Suc n) (x # vec1) (y # vec2) result =
     (let diff = x - y in L2Sqr_loop n vec1 vec2 (result + diff * diff))"
| "L2Sqr_loop (Suc n) vec1 vec2 result = Inl OutOfBounds"

definition L2Sqr :: "'a::{minus,times,plus,zero} list \<Rightarrow> 'a list \<Rightarrow> nat \<Rightarrow> 'a result" where
  "L2Sqr vec1 vec2 dim = L2Sqr_loop dim vec1 vec2 0"

fun InnerProduct_loop :: "nat \<Rightarrow> nat \<Rightarrow> 'a::{times,plus} list \<Rightarrow> 'a list \<Rightarrow> 'a \<Rightarrow> 'a result" where
  "InnerProduct_loop i 0 vec1 vec2 dot_product = Inr dot_product"
| "InnerProduct_loop i (Suc n) vec1 vec2 dot_product =
     bindR (vec_at vec1 i) (\<lambda>x.
     bindR (vec_at vec2 i) (\<lambda>y.
     InnerProduct_loop (Suc i) n vec1 vec2 (dot_product + x * y)))"

definition InnerProduct :: "'a::{times,plus,zero} list \<Rightarrow> 'a list \<Rightarrow> nat \<Rightarrow> 'a result" where
  "InnerProduct vec1 vec2 dim = InnerProduct_loop 0 dim vec1 vec2 0"

definition InnerProductDistance :: "'a::{times,plus,zero,one,minus} list \<Rightarrow> 'a list \<Rightarrow> nat \<Rightarrow> 'a result" where
  "InnerProductDistance vec1 vec2 dim =
     bindR (InnerProduct vec1 vec2 dim) (\<lambda>p. Inr (1 - p))"

section \<open>Distances over bytes\<close>

text \<open>
  The bytes are promoted to \<^verbatim>\<open>int\<close>; the difference and its square fit, the sum need not.
\<close>

definition add_sqr :: "int \<Rightarrow> u8 \<Rightarrow> u8 \<Rightarrow> int result" where
  "add_sqr res x y =
     (let s = res + (uint x - uint y) * (uint x - uint y)
      in if s < 2 ^ 31 then Inr s else Inl SignedOverflow)"

fun L2SqrI_loop :: "nat \<Rightarrow> u8 list \<Rightarrow> u8 list \<Rightarrow> int \<Rightarrow> int result" where
  "L2SqrI_loop 0 vec1 vec2 res = Inr res"
| "L2SqrI_loop (Suc n) (x # vec1) (y # vec2) res = bindR (add_sqr res x y) (L2SqrI_loop n vec1 vec2)"
| "L2SqrI_loop (Suc n) vec1 vec2 res = Inl OutOfBounds"

definition L2SqrI :: "u8 list \<Rightarrow> u8 list \<Rightarrow> nat \<Rightarrow> int result" where
  "L2SqrI vec1 vec2 dim = L2SqrI_loop dim vec1 vec2 0"

text \<open>
  \<^verbatim>\<open>L2Sqr4x\<close> handles four bytes in every iteration.  The statement \<^verbatim>\<open>d >>= 2\<close> names no variable
  of the function and does not change the bound of the loop, which runs \<^verbatim>\<open>*dim\<close> times.
\<close>

fun L2Sqr4x_loop :: "nat \<Rightarrow> u8 list \<Rightarrow> u8 list \<Rightarrow> int \<Rightarrow> int result" where
  "L2Sqr4x_loop 0 vec1 vec2 result = Inr result"
| "L2Sqr4x_loop (Suc n) (x0 # x1 # x2 # x3 # vec1) (y0 # y1 # y2 # y3 # vec2) result =
     bindR (add_sqr result x0 y0) (\<lambda>result.
     bindR (add_sqr result x1 y1) (\<lambda>result.
     bindR (add_sqr result x2 y2) (\<lambda>result.
     bindR (add_sqr result x3 y3) (L2Sqr4x_loop n vec1 vec2))))"
| "L2Sqr4x_loop (Suc n) vec1 vec2 result = Inl OutOfBounds"

definition L2Sqr4x :: "u8 list \<Rightarrow> u8 list \<Rightarrow> nat \<Rightarrow> int result" where
  "L2Sqr4x vec1 vec2 dim = L2Sqr4x_loop dim vec1 vec2 0"

section \<open>Spaces\<close>

text \<open>A space: the distance function, the dimension and the bytes of a vector.\<close>

record 'f space =
  sp_distance :: 'f
  sp_dim :: nat
  sp_data_size :: nat

definition new_L2Space :: "'f \<Rightarrow> nat \<Rightarrow> nat \<Rightarrow> 'f space" where
  "new_L2Space f sizeof_scalar dim =
     \<lparr>sp_distance = f, sp_dim = dim, sp_data_size = dim * sizeof_scalar\<rparr>"

definition new_InnerProductSpace :: "'f \<Rightarrow> nat \<Rightarrow> nat \<Rightarrow> 'f space" where
  "new_InnerProductSpace f sizeof_scalar dim =
     \<lparr>sp_distance = f, sp_dim = dim, sp_data_size = dim * sizeof_scalar\<rparr>"

definition new_L2SpaceI :: "nat \<Rightarrow> (u8 list \<Rightarrow> u8 list \<Rightarrow> nat \<Rightarrow> int result) space" where
  "new_L2SpaceI dim =
     \<lparr>sp_distance = (if dim mod 4 = 0 then L2Sqr4x else L2SqrI), sp_dim = dim, sp_data_size = dim * 1\<rparr>"

definition get_data_size :: "'f space \<Rightarrow> nat" where
  "get_data_size s = sp_data_size s"

definition get_distance_function :: "'f space \<Rightarrow> 'f" where
  "get_distance_function s = sp_distance s"

definition get_dim :: "'f space \<Rightarrow> nat" where
  "get_dim s = sp_dim s"

section \<open>The sums the loops compute\<close>

lemma L2Sqr_loop_sum:
  fixes v w :: "'a::comm_ring list"
  assumes "n \<le> length v" "n \<le> length w"
  shows "L2Sqr_loop n v w r = Inr (r + (\<Sum>i<n. (v ! i - w ! i) * (v ! i - w ! i)))"
  using assms
proof (induction n v w r rule: L2Sqr_loop.induct)
  case (2 n x v y w r)
  have "(\<Sum>i<Suc n. ((x # v) ! i - (y # w) ! i) * ((x # v) ! i - (y # w) ! i)) =
      (x - y) * (x - y) + (\<Sum>i<n. (v ! i - w ! i) * (v ! i - w ! i))"
    unfolding sum.lessThan_Suc_shift by simp
  then show ?case using 2 by (simp add: Let_def add.assoc)
qed simp_all

lemma InnerProduct_loop_sum:
  fixes v w :: "'a::comm_ring list"
  assumes "i + n \<le> length v" "i + n \<le> length w"
  shows "InnerProduct_loop i n v w r = Inr (r + (\<Sum>j<n. v ! (i + j) * w ! (i + j)))"
  using assms
proof (induction n arbitrary: i r)
  case (Suc n)
  have "(\<Sum>j<Suc n. v ! (i + j) * w ! (i + j)) =
      v ! i * w ! i + (\<Sum>j<n. v ! (Suc i + j) * w ! (Suc i + j))"
    unfolding sum.lessThan_Suc_shift by simp
  then show ?case using Suc.IH [of "Suc i"] Suc.prems by (simp add: add.assoc)
qed simp

lemma L2Sqr_loop_short:
  assumes "length v < n \<or> length w < n" shows "L2Sqr_loop n v w r = Inl OutOfBounds"
  using assms by (induction n v w r rule: L2Sqr_loop.induct) (auto simp: Let_def)

lemma byte_square: "(uint (x :: u8) - uint (y :: u8)) * (uint x - uint y) \<le> 65025"
proof -
  have "0 \<le> uint x" "uint x \<le> 255" "0 \<le> uint y" "uint y \<le> 255"
    using uint_lt2p [of x] uint_lt2p [of y] by simp_all
  then have "\<bar>uint x - uint y\<bar> \<le> 255" by linarith
  then have "\<bar>uint x - uint y\<bar> * \<bar>uint x - uint y\<bar> \<le> 255 * 255" by (intro mult_mono) auto
  then show ?thesis by (simp add: abs_mult [symmetric])
qed

lemma L2SqrI_loop_sum:
  assumes "n \<le> length v" "n \<le> length w" "r + int n * 65025 < 2 ^ 31"
  shows "L2SqrI_loop n v w r = Inr (r + (\<Sum>i<n. (uint (v ! i) - uint (w ! i)) ^ 2))"
  using assms
proof (induction n v w r rule: L2SqrI_loop.induct)
  case (2 n x v y w r)
  let ?q = "(uint x - uint y) * (uint x - uint y)"
  have q: "r + ?q + int n * 65025 < 2 ^ 31" using byte_square [of x y] "2.prems"(3) by simp
  then have "add_sqr r x y = Inr (r + ?q)" by (simp add: add_sqr_def Let_def)
  moreover have "(\<Sum>i<Suc n. (uint ((x # v) ! i) - uint ((y # w) ! i)) ^ 2) =
      ?q + (\<Sum>i<n. (uint (v ! i) - uint (w ! i)) ^ 2)"
    unfolding sum.lessThan_Suc_shift by (simp add: power2_eq_square)
  ultimately show ?case using "2.IH" [of "r + ?q"] "2.prems" q by (simp add: add.assoc)
qed simp_all

lemma L2Sqr4x_loop_I:
  assumes "4 * n \<le> length v" "4 * n \<le> length w"
  shows "L2Sqr4x_loop n v w r = L2SqrI_loop (4 * n) v w r"
  using assms
proof (induction n v w r rule: L2Sqr4x_loop.induct)
  case (2 n x0 x1 x2 x3 v y0 y1 y2 y3 w r)
  have n: "4 * Suc n = Suc (Suc (Suc (Suc (4 * n))))" by simp
  have ih: "L2Sqr4x_loop n v w = L2SqrI_loop (4 * n) v w" using 2 by (intro ext) simp
  have step: "L2SqrI_loop (Suc m) (x # v) (y # w) = (\<lambda>r. bindR (add_sqr r x y) (L2SqrI_loop m v w))"
    for m x v y w by (intro ext) simp
  show ?case unfolding n L2Sqr4x_loop.simps step ih ..
qed simp_all

lemma L2Sqr4x_loop_short:
  assumes "length v < 4 * n \<or> length w < 4 * n" "r + int n * 260100 < 2 ^ 31"
  shows "L2Sqr4x_loop n v w r = Inl OutOfBounds"
  using assms
proof (induction n v w r rule: L2Sqr4x_loop.induct)
  case (2 n x0 x1 x2 x3 v y0 y1 y2 y3 w r)
  define r1 r2 r3 r4 where "r1 = r + (uint x0 - uint y0) * (uint x0 - uint y0)"
    and "r2 = r1 + (uint x1 - uint y1) * (uint x1 - uint y1)"
    and "r3 = r2 + (uint x2 - uint y2) * (uint x2 - uint y2)"
    and "r4 = r3 + (uint x3 - uint y3) * (uint x3 - uint y3)"
  note q = byte_square [of x0 y0] byte_square [of x1 y1] byte_square [of x2 y2] byte_square [of x3 y3]
  have b: "r4 + int n * 260100 < 2 ^ 31" using q "2.prems"(2) by (simp add: r1_def r2_def r3_def r4_def)
  have "r \<le> r1" "r1 \<le> r2" "r2 \<le> r3" "r3 \<le> r4" by (simp_all add: r1_def r2_def r3_def r4_def)
  then have "r1 < 2 ^ 31" "r2 < 2 ^ 31" "r3 < 2 ^ 31" "r4 < 2 ^ 31" using b by linarith+
  then have "add_sqr r x0 y0 = Inr r1" "add_sqr r1 x1 y1 = Inr r2" "add_sqr r2 x2 y2 = Inr r3"
    "add_sqr r3 x3 y3 = Inr r4"
    by (simp_all add: add_sqr_def Let_def r1_def r2_def r3_def r4_def)
  then show ?case using "2.IH" [of r4] "2.prems"(1) b by simp
qed simp_all


section \<open>Properties\<close>



text \<open>
  The distance function that \<^verbatim>\<open>L2SpaceI\<close> chooses for a dimension that is a multiple of four
  reads four times as many bytes as the vectors have: on vectors of that dimension it leaves
  them, and it computes the distance of two vectors of four times the dimension.
\<close>

theorem four_way_distance_overreads:
  assumes "dim mod 4 = 0" "0 < dim" "dim \<le> 8256" "length p = dim" "length q = dim"
    "length p4 = 4 * dim" "length q4 = 4 * dim"
  shows "get_distance_function (new_L2SpaceI dim) p q (get_dim (new_L2SpaceI dim)) = Inl OutOfBounds \<and>
    get_distance_function (new_L2SpaceI dim) p4 q4 dim = L2SqrI p4 q4 (4 * dim)"
proof -
  have "get_distance_function (new_L2SpaceI dim) = L2Sqr4x" "get_dim (new_L2SpaceI dim) = dim"
    using assms(1) by (simp_all add: get_distance_function_def get_dim_def new_L2SpaceI_def)
  then show ?thesis
    using assms by (simp add: L2Sqr4x_def L2SqrI_def L2Sqr4x_loop_short L2Sqr4x_loop_I)
qed

theorem four_way_distance_overreads_witness:
  "get_distance_function (new_L2SpaceI 4) [1, 2, 3, 4] [4, 3, 2, 1] (get_dim (new_L2SpaceI 4)) =
   Inl OutOfBounds"
  using four_way_distance_overreads [of 4 "[1, 2, 3, 4]" "[4, 3, 2, 1]" "replicate 16 0" "replicate 16 0"]
  by simp

end
