(* ===== verification/Brute_Force.thy ===== *)
theory Brute_Force
  imports Wire_Format Vector_Space "HOL-Library.Product_Lexorder"
begin

text \<open>
  The index of \<^verbatim>\<open>src/src/hnsw/hnsw_scratch/bruteforce.hpp\<close> over the interface of
  \<^verbatim>\<open>hnswlib.hpp\<close>: vectors and their labels stored one behind the other in a block of bytes, a map
  from labels to places, and a search that compares the query with every stored vector.

  The block is a list of bytes and every \<^verbatim>\<open>memcpy\<close> a read or write of a range of it, so that
  leaving the block is a failure.  The distance is a parameter, a function on the bytes of two
  vectors that may fail, with values in a linear order.  A \<^verbatim>\<open>std::priority_queue\<close> of pairs is the
  ascending list of its elements, whose last element is the top.  The mutex is released at
  the end of the block that takes it and no operation calls another, so it is not part of
  the state.
\<close>

section \<open>Memory\<close>

definition mem_read :: "nat \<Rightarrow> nat \<Rightarrow> u8 list \<Rightarrow> u8 list result" where
  "mem_read off n m = (if off + n \<le> length m then Inr (take n (drop off m)) else Inl OutOfBounds)"

definition mem_write :: "nat \<Rightarrow> u8 list \<Rightarrow> u8 list \<Rightarrow> u8 list result" where
  "mem_write off bs m =
     (if off + length bs \<le> length m then Inr (take off m @ bs @ drop (off + length bs) m)
      else Inl OutOfBounds)"

section \<open>The index\<close>

record brute =
  bf_data :: "u8 list"
  bf_data_size :: nat
  bf_count :: nat
  bf_stride :: nat
  bf_capacity :: nat
  bf_labels :: "u64 \<rightharpoonup> nat"

text \<open>The constructor for an index that is loaded later.\<close>

definition empty_brute :: brute where
  "empty_brute = \<lparr>bf_data = [], bf_data_size = 0, bf_count = 0, bf_stride = 0, bf_capacity = 0,
     bf_labels = Map.empty\<rparr>"

text \<open>
  The constructor for a new index; \<open>malloc n\<close> is the contents of the memory that an
  allocation of \<open>n\<close> bytes yields, if it succeeds.
\<close>

definition new_brute :: "(nat \<Rightarrow> u8 list option) \<Rightarrow> 'f space \<Rightarrow> nat \<Rightarrow> brute result" where
  "new_brute malloc space maxElements =
     (let data_size = get_data_size space; stride = data_size + 8
      in case malloc (maxElements * stride) of
           None \<Rightarrow> Inl (RuntimeError ''Not enough memory: BruteforceSearch failed to allocate data'')
         | Some raw \<Rightarrow> Inr \<lparr>bf_data = raw, bf_data_size = data_size, bf_count = 0, bf_stride = stride,
             bf_capacity = maxElements, bf_labels = Map.empty\<rparr>)"

definition bf_addPoint :: "u8 list \<Rightarrow> u64 \<Rightarrow> brute \<Rightarrow> brute result" where
  "bf_addPoint datapoint label b =
     bindR (case bf_labels b label of
        Some idx \<Rightarrow> Inr (idx, b)
      | None \<Rightarrow>
          (if bf_count b \<ge> bf_capacity b then
             Inl (RuntimeError ''The number of elements exceeds the specified limit\<newline>'')
           else Inr (bf_count b, b\<lparr>bf_labels := (bf_labels b)(label \<mapsto> bf_count b), bf_count := bf_count b + 1\<rparr>)))
       (\<lambda>(idx, b).
     bindR (mem_write (bf_stride b * idx + bf_data_size b) (bytes64 label) (bf_data b)) (\<lambda>m.
     bindR (mem_read 0 (bf_data_size b) datapoint) (\<lambda>v.
     bindR (mem_write (bf_stride b * idx) v m) (\<lambda>m.
     Inr (b\<lparr>bf_data := m\<rparr>)))))"

text \<open>
  \<^verbatim>\<open>removePoint\<close> erases the map entry and then reads the place through the erased iterator;
  \<open>stale\<close> is what that read yields for the place that the entry held.
\<close>

definition bf_removePoint :: "(nat \<Rightarrow> nat result) \<Rightarrow> u64 \<Rightarrow> brute \<Rightarrow> brute result" where
  "bf_removePoint stale cur_external b =
     (case bf_labels b cur_external of
        None \<Rightarrow> Inr b
      | Some found \<Rightarrow>
          let b = b\<lparr>bf_labels := (bf_labels b)(cur_external := None)\<rparr>
          in bindR (stale found) (\<lambda>cur_c.
             bindR (mem_read (bf_stride b * (bf_count b - 1) + bf_data_size b) 8 (bf_data b)) (\<lambda>lb.
             let b = b\<lparr>bf_labels := (bf_labels b)(load_le lb \<mapsto> cur_c)\<rparr>
             in bindR (mem_read (bf_stride b * (bf_count b - 1)) (bf_data_size b + 8) (bf_data b)) (\<lambda>e.
                bindR (mem_write (bf_stride b * cur_c) e (bf_data b)) (\<lambda>m.
                Inr (b\<lparr>bf_data := m, bf_count := bf_count b - 1\<rparr>))))))"

section \<open>Search\<close>

type_synonym 'd pq = "('d \<times> u64) list"

definition pq_emplace :: "'d::linorder \<times> u64 \<Rightarrow> 'd pq \<Rightarrow> 'd pq" where
  "pq_emplace e q = insort e q"

definition pq_top :: "'d pq \<Rightarrow> 'd \<times> u64" where
  "pq_top q = last q"

definition pq_pop :: "'d pq \<Rightarrow> 'd pq" where
  "pq_pop q = butlast q"

definition bf_dist :: "(u8 list \<Rightarrow> u8 list \<Rightarrow> 'd result) \<Rightarrow> u8 list \<Rightarrow> nat \<Rightarrow> brute \<Rightarrow> 'd result" where
  "bf_dist dist query i b = bindR (mem_read (bf_stride b * i) (bf_data_size b) (bf_data b)) (dist query)"

definition bf_label :: "nat \<Rightarrow> brute \<Rightarrow> u64 result" where
  "bf_label i b =
     bindR (mem_read (bf_stride b * i + bf_data_size b) 8 (bf_data b)) (\<lambda>bs. Inr (load_le bs))"

definition allowed :: "(u64 \<Rightarrow> bool) option \<Rightarrow> u64 \<Rightarrow> bool" where
  "allowed flt label = (case flt of None \<Rightarrow> True | Some f \<Rightarrow> f label)"

text \<open>The first loop, with \<open>n\<close> iterations left.\<close>

fun knn_first_loop :: "(u8 list \<Rightarrow> u8 list \<Rightarrow> 'd::linorder result) \<Rightarrow> (u64 \<Rightarrow> bool) option \<Rightarrow> u8 list \<Rightarrow>
    brute \<Rightarrow> nat \<Rightarrow> nat \<Rightarrow> 'd pq \<Rightarrow> 'd pq result" where
  "knn_first_loop dist flt query b i 0 topResults = Inr topResults"
| "knn_first_loop dist flt query b i (Suc n) topResults =
     bindR (bf_dist dist query i b) (\<lambda>d.
     bindR (bf_label i b) (\<lambda>label.
     knn_first_loop dist flt query b (Suc i) n
       (if allowed flt label then pq_emplace (d, label) topResults else topResults)))"

text \<open>One iteration of the second loop on an element that is not too far away.\<close>

definition knn_consider :: "(u64 \<Rightarrow> bool) option \<Rightarrow> nat \<Rightarrow> 'd::linorder \<Rightarrow> u64 \<Rightarrow> 'd pq \<Rightarrow> 'd \<Rightarrow> 'd pq \<times> 'd" where
  "knn_consider flt K d label topResults lastdist =
     (let topResults = (if allowed flt label then pq_emplace (d, label) topResults else topResults);
          topResults = (if length topResults > K then pq_pop topResults else topResults);
          lastdist = (if topResults \<noteq> [] then fst (pq_top topResults) else lastdist)
      in (topResults, lastdist))"

fun knn_rest_loop :: "(u8 list \<Rightarrow> u8 list \<Rightarrow> 'd::linorder result) \<Rightarrow> (u64 \<Rightarrow> bool) option \<Rightarrow> u8 list \<Rightarrow>
    nat \<Rightarrow> brute \<Rightarrow> nat \<Rightarrow> nat \<Rightarrow> 'd pq \<Rightarrow> 'd \<Rightarrow> 'd pq result" where
  "knn_rest_loop dist flt query K b i 0 topResults lastdist = Inr topResults"
| "knn_rest_loop dist flt query K b i (Suc n) topResults lastdist =
     bindR (bf_dist dist query i b) (\<lambda>d.
     if d \<le> lastdist then
       bindR (bf_label i b) (\<lambda>label.
       let (topResults, lastdist) = knn_consider flt K d label topResults lastdist
       in knn_rest_loop dist flt query K b (Suc i) n topResults lastdist)
     else knn_rest_loop dist flt query K b (Suc i) n topResults lastdist)"

text \<open>\<open>dmax\<close> is \<^verbatim>\<open>std::numeric_limits<dist_t>::max()\<close>.\<close>

definition SearchKNN :: "(u8 list \<Rightarrow> u8 list \<Rightarrow> 'd::linorder result) \<Rightarrow> 'd \<Rightarrow> u8 list \<Rightarrow> nat \<Rightarrow>
    (u64 \<Rightarrow> bool) option \<Rightarrow> brute \<Rightarrow> 'd pq result" where
  "SearchKNN dist dmax query K flt b =
     (if \<not> K \<le> bf_count b then Inl AssertFail
      else if bf_count b = 0 then Inr []
      else
        bindR (knn_first_loop dist flt query b 0 K []) (\<lambda>topResults.
        let lastdist = (if topResults = [] then dmax else fst (pq_top topResults))
        in knn_rest_loop dist flt query K b K (bf_count b - K) topResults lastdist))"

text \<open>The loop of \<^verbatim>\<open>SearchKNNCloserFirst\<close>, which fills the result from the back.\<close>

fun closer_first_loop :: "nat \<Rightarrow> 'd pq \<Rightarrow> ('d \<times> u64) list \<Rightarrow> ('d \<times> u64) list" where
  "closer_first_loop 0 heap result = result"
| "closer_first_loop (Suc i) heap result =
     closer_first_loop i (pq_pop heap) (result[i := pq_top heap])"

text \<open>The elements of the vector are value-initialised with \<open>d0\<close> before the loop.\<close>

definition SearchKNNCloserFirst :: "'d \<times> u64 \<Rightarrow> (u8 list \<Rightarrow> u8 list \<Rightarrow> 'd::linorder result) \<Rightarrow> 'd \<Rightarrow>
    u8 list \<Rightarrow> nat \<Rightarrow> (u64 \<Rightarrow> bool) option \<Rightarrow> brute \<Rightarrow> ('d \<times> u64) list result" where
  "SearchKNNCloserFirst d0 dist dmax query K flt b =
     bindR (SearchKNN dist dmax query K flt b) (\<lambda>heap.
     Inr (closer_first_loop (length heap) heap (replicate (length heap) d0)))"

section \<open>Saving and loading\<close>

definition writeBinaryPOD :: "nat \<Rightarrow> u8 list \<Rightarrow> u8 list" where
  "writeBinaryPOD v out = out @ bytes64 (of_nat v)"

text \<open>A read past the end of the file overwrites as many bytes as there are.\<close>

definition readBinaryPOD :: "nat \<Rightarrow> u8 list \<Rightarrow> nat \<times> u8 list" where
  "readBinaryPOD old inp =
     (let got = take 8 inp
      in (unat (load_le (got @ drop (length got) (bytes64 (of_nat old))) :: u64), drop 8 inp))"

definition bf_saveIndex :: "brute \<Rightarrow> u8 list result" where
  "bf_saveIndex b =
     bindR (mem_read 0 (bf_capacity b * bf_stride b) (bf_data b)) (\<lambda>bs.
     Inr (writeBinaryPOD (bf_count b) (writeBinaryPOD (bf_stride b) (writeBinaryPOD (bf_capacity b) [])) @ bs))"

definition bf_loadIndex :: "(nat \<Rightarrow> u8 list option) \<Rightarrow> u8 list \<Rightarrow> 'f space \<Rightarrow> brute \<Rightarrow> brute result" where
  "bf_loadIndex malloc file space b =
     (let (capacity, inp) = readBinaryPOD (bf_capacity b) file;
          (stride, inp) = readBinaryPOD (bf_stride b) inp;
          (count, inp) = readBinaryPOD (bf_count b) inp;
          data_size = get_data_size space;
          stride = data_size + 8
      in case malloc (capacity * stride) of
           None \<Rightarrow> Inl (RuntimeError ''Not enough memory: loadIndex failed to allocate data'')
         | Some raw \<Rightarrow>
             let got = take (capacity * stride) inp
             in Inr (b\<lparr>bf_capacity := capacity, bf_count := count, bf_data_size := data_size,
                  bf_stride := stride, bf_data := got @ drop (length got) raw\<rparr>))"

section \<open>Slots\<close>

definition slot :: "nat \<Rightarrow> nat \<Rightarrow> u8 list \<Rightarrow> u8 list" where
  "slot st i m = take st (drop (st * i) m)"

lemma mem_read_slot:
  assumes "p + n \<le> st" "st * (i + 1) \<le> length m"
  shows "mem_read (st * i + p) n m = Inr (take n (drop p (slot st i m)))"
proof -
  have "st * i + p + n \<le> length m" using assms by (simp add: algebra_simps)
  moreover have "take n (drop p (take st (drop (st * i) m))) = take n (drop (st * i + p) m)"
    using assms(1) by (simp add: drop_take min_def add.commute)
  ultimately show ?thesis by (simp add: mem_read_def slot_def add.assoc)
qed

lemma nth_slot: "k < st \<Longrightarrow> st * (i + 1) \<le> length m \<Longrightarrow> slot st i m ! k = m ! (st * i + k)"
  by (simp add: slot_def add.commute)

lemma length_slot: "st * (i + 1) \<le> length m \<Longrightarrow> length (slot st i m) = st"
  by (simp add: slot_def)

lemma mem_write_nth:
  assumes "mem_write off bs m = Inr m'"
  shows "length m' = length m"
    "k < length m \<Longrightarrow> m' ! k = (if off \<le> k \<and> k < off + length bs then bs ! (k - off) else m ! k)"
  using assms by (auto simp: mem_write_def nth_append min_def split: if_splits)

lemma slot_places_apart:
  fixes st :: nat
  assumes "j \<noteq> i" "k < st" "p + n \<le> st"
  shows "\<not> (st * i + p \<le> st * j + k \<and> st * j + k < st * i + p + n)"
proof (cases "j < i")
  case True
  then have "st * (j + 1) \<le> st * i" by (intro mult_le_mono2) simp
  then show ?thesis using assms by (simp add: algebra_simps)
next
  case False
  then have "st * (i + 1) \<le> st * j" using assms(1) by (intro mult_le_mono2) simp
  then show ?thesis using assms by (simp add: algebra_simps)
qed

lemma mem_write_slot:
  assumes p: "p + length bs \<le> st" and i: "st * (i + 1) \<le> length m"
  obtains m' where "mem_write (st * i + p) bs m = Inr m'" "length m' = length m"
    "slot st i m' = take p (slot st i m) @ bs @ drop (p + length bs) (slot st i m)"
    "\<And>j. j \<noteq> i \<Longrightarrow> st * (j + 1) \<le> length m \<Longrightarrow> slot st j m' = slot st j m"
proof -
  have "st * i + p + length bs \<le> length m" using assms by (simp add: algebra_simps)
  then obtain m' where m': "mem_write (st * i + p) bs m = Inr m'" by (simp add: mem_write_def)
  note w = mem_write_nth [OF m']
  have "slot st i m' = take p (slot st i m) @ bs @ drop (p + length bs) (slot st i m)"
  proof (rule nth_equalityI)
    show l: "length (slot st i m') = length (take p (slot st i m) @ bs @ drop (p + length bs) (slot st i m))"
      using p i by (simp add: length_slot w(1))
    fix k assume "k < length (slot st i m')"
    then have k: "k < st" using i by (simp add: length_slot w(1))
    have "st * i + k < length m" using k i by (simp add: algebra_simps)
    then have "slot st i m' ! k = (if p \<le> k \<and> k < p + length bs then bs ! (k - p) else slot st i m ! k)"
      using k i w by (simp add: nth_slot)
    then show "slot st i m' ! k = (take p (slot st i m) @ bs @ drop (p + length bs) (slot st i m)) ! k"
      using k p i by (auto simp: nth_append length_slot min_def)
  qed
  moreover have "slot st j m' = slot st j m" if j: "j \<noteq> i" "st * (j + 1) \<le> length m" for j
  proof (rule nth_equalityI)
    fix k assume "k < length (slot st j m')"
    then have k: "k < st" using j by (simp add: length_slot w(1))
    have "st * j + k < length m" using k j(2) by (simp add: algebra_simps)
    then have "m' ! (st * j + k) = m ! (st * j + k)"
      using w(2) slot_places_apart [OF j(1) k p] by (simp only: if_False)
    then show "slot st j m' ! k = slot st j m ! k"
      using k j w(1) by (simp add: nth_slot)
  qed (use j in \<open>simp add: length_slot w(1)\<close>)
  ultimately show ?thesis using that [OF m' w(1)] by blast
qed

section \<open>Contents of an index\<close>

text \<open>
  The abstract index is the list of its labels and vectors in the order of their places.  The
  contract of a client: vectors of the size of the space, no new label in a full index, and no
  removal of the element at the last place.
\<close>

type_synonym entries = "(u64 \<times> u8 list) list"

datatype bf_op = Add u64 "u8 list" | Remove u64

fun bf_step :: "(nat \<Rightarrow> nat result) \<Rightarrow> bf_op \<Rightarrow> brute \<Rightarrow> brute result" where
  "bf_step stale (Add l v) b = bf_addPoint v l b"
| "bf_step stale (Remove l) b = bf_removePoint stale l b"

primrec place :: "u64 \<Rightarrow> entries \<Rightarrow> nat option" where
  "place l [] = None"
| "place l (e # es) = (if fst e = l then Some 0 else map_option Suc (place l es))"

fun entries_step :: "nat \<Rightarrow> nat \<Rightarrow> bf_op \<Rightarrow> entries \<Rightarrow> entries option" where
  "entries_step ds cap (Add l v) es =
     (if length v \<noteq> ds then None
      else case place l es of
        Some i \<Rightarrow> Some (es[i := (l, v)])
      | None \<Rightarrow> if length es < cap then Some (es @ [(l, v)]) else None)"
| "entries_step ds cap (Remove l) es =
     (case place l es of
        None \<Rightarrow> Some es
      | Some i \<Rightarrow> if i + 1 < length es then Some (butlast (es[i := last es])) else None)"

lemma place_Some: "place l es = Some i \<Longrightarrow> i < length es \<and> fst (es ! i) = l"
  by (induction es arbitrary: i) (auto split: if_splits)

lemma place_nth: "distinct (map fst es) \<Longrightarrow> i < length es \<Longrightarrow> place (fst (es ! i)) es = Some i"
proof (induction es arbitrary: i)
  case (Cons e es)
  then show ?case by (cases i) (auto simp: nth_mem)
qed simp

lemma place_None: "place l es = None \<longleftrightarrow> l \<notin> fst ` set es"
  by (induction es) auto

text \<open>In terms of the mapping from labels to vectors the commands are update and deletion.\<close>

lemma entries_step_map:
  assumes "entries_step ds cap c es = Some es'" "distinct (map fst es)"
  shows "distinct (map fst es')"
    "map_of es' = (case c of Add l v \<Rightarrow> (map_of es)(l \<mapsto> v) | Remove l \<Rightarrow> (map_of es)(l := None))"
proof -
  have upd: "map fst (es[i := (l, v)]) = map fst es" "map_of (es[i := (l, v)]) = (map_of es)(l \<mapsto> v)"
    if "place l es = Some i" for i l v
  proof -
    have i: "i < length es" "fst (es ! i) = l" using place_Some that by auto
    show m: "map fst (es[i := (l, v)]) = map fst es"
      using i by (metis fst_conv list_update_id map_update nth_map)
    show "map_of (es[i := (l, v)]) = (map_of es)(l \<mapsto> v)"
      using that by (induction es arbitrary: i) (auto split: if_splits)
  qed
  have rem: "distinct (map fst (butlast (es[i := last es]))) \<and>
      map_of (butlast (es[i := last es])) = (map_of es)(l := None)"
    if p: "place l es = Some i" and lt: "i + 1 < length es" for i l
  proof -
    obtain us e vs f where es: "es = us @ e # vs @ [f]" "length us = i"
    proof -
      have "es = butlast es @ [last es]" using lt by (cases es rule: rev_cases) auto
      moreover have "butlast es = take i (butlast es) @ butlast es ! i # drop (Suc i) (butlast es)"
        using lt by (intro id_take_nth_drop) simp
      ultimately have "es = take i (butlast es) @ (butlast es ! i) # drop (Suc i) (butlast es) @ [last es]"
        by (metis append.assoc append_Cons)
      then show ?thesis by (rule that) (use lt in simp)
    qed
    have "fst e = l" using place_Some [OF p] es by (simp add: nth_append)
    moreover have "butlast (es[i := last es]) = us @ f # vs"
      using es by (simp add: list_update_append butlast_append)
    ultimately show ?thesis
      using assms(2) es by (auto simp: map_add_def fun_eq_iff image_iff map_of_eq_None_iff
          split: option.splits)
  qed
  show "distinct (map fst es')"
    using assms upd(1) rem place_None by (cases c) (auto split: option.splits if_splits)
  show "map_of es' = (case c of Add l v \<Rightarrow> (map_of es)(l \<mapsto> v) | Remove l \<Rightarrow> (map_of es)(l := None))"
  proof (cases c)
    case (Add l v)
    show ?thesis
    proof (cases "place l es")
      case None
      then have "map_of es l = None" by (simp add: place_None map_of_eq_None_iff)
      moreover have "es' = es @ [(l, v)]" using assms(1) Add None by (auto split: if_splits)
      ultimately show ?thesis using Add by (auto simp: map_add_def fun_eq_iff split: option.splits)
    next
      case (Some i)
      then show ?thesis using assms(1) Add upd(2) by (auto split: if_splits)
    qed
  next
    case (Remove l)
    show ?thesis
    proof (cases "place l es")
      case None
      then have "map_of es l = None" by (simp add: place_None map_of_eq_None_iff)
      then show ?thesis using assms(1) Remove None by auto
    next
      case (Some i)
      then show ?thesis using assms(1) Remove rem by (auto split: if_splits)
    qed
  qed
qed

definition bf_repr :: "nat \<Rightarrow> nat \<Rightarrow> brute \<Rightarrow> entries \<Rightarrow> bool" where
  "bf_repr ds cap b es \<longleftrightarrow>
     bf_data_size b = ds \<and> bf_stride b = ds + 8 \<and> bf_capacity b = cap \<and>
     length (bf_data b) = cap * (ds + 8) \<and> bf_count b = length es \<and> length es \<le> cap \<and>
     distinct (map fst es) \<and> (\<forall>e \<in> set es. length (snd e) = ds) \<and>
     (\<forall>i < length es. slot (ds + 8) i (bf_data b) = snd (es ! i) @ bytes64 (fst (es ! i))) \<and>
     bf_labels b = (\<lambda>l. place l es)"

lemma bf_repr_room:
  assumes "bf_repr ds cap b es" "i < cap"
  shows "(ds + 8) * (i + 1) \<le> length (bf_data b)"
proof -
  have "(ds + 8) * (i + 1) \<le> (ds + 8) * cap" by (rule mult_le_mono2) (use assms in simp)
  then show ?thesis using assms by (simp add: bf_repr_def mult.commute)
qed

lemma place_update:
  assumes "place l es = Some i" shows "place m (es[i := (l, v)]) = place m es"
  using assms by (induction es arbitrary: i) (auto split: if_splits nat.splits)

lemma place_append: "place l es = None \<Longrightarrow> place m (es @ [(l, v)]) = (if m = l then Some (length es) else place m es)"
  by (induction es) (auto split: if_splits)

text \<open>The two writes of \<^verbatim>\<open>addPoint\<close> fill one slot.\<close>

lemma write_slot:
  assumes "(ds + 8) * (i + 1) \<le> length m" "length v = ds"
  obtains m1 m2 where "mem_write ((ds + 8) * i + ds) (bytes64 l) m = Inr m1"
    "mem_write ((ds + 8) * i) v m1 = Inr m2" "length m2 = length m"
    "slot (ds + 8) i m2 = v @ bytes64 l"
    "\<And>j. j \<noteq> i \<Longrightarrow> (ds + 8) * (j + 1) \<le> length m \<Longrightarrow> slot (ds + 8) j m2 = slot (ds + 8) j m"
proof -
  obtain m1 where m1: "mem_write ((ds + 8) * i + ds) (bytes64 l) m = Inr m1" "length m1 = length m"
    "slot (ds + 8) i m1 = take ds (slot (ds + 8) i m) @ bytes64 l @ drop (ds + length (bytes64 l)) (slot (ds + 8) i m)"
    "\<And>j. j \<noteq> i \<Longrightarrow> (ds + 8) * (j + 1) \<le> length m \<Longrightarrow> slot (ds + 8) j m1 = slot (ds + 8) j m"
    by (rule mem_write_slot [of ds "bytes64 l" "ds + 8" i m]) (use assms in auto)
  have i: "(ds + 8) * (i + 1) \<le> length m1" using assms(1) m1(2) by simp
  obtain m2 where m2: "mem_write ((ds + 8) * i + 0) v m1 = Inr m2" "length m2 = length m1"
    "slot (ds + 8) i m2 = take 0 (slot (ds + 8) i m1) @ v @ drop (0 + length v) (slot (ds + 8) i m1)"
    "\<And>j. j \<noteq> i \<Longrightarrow> (ds + 8) * (j + 1) \<le> length m1 \<Longrightarrow> slot (ds + 8) j m2 = slot (ds + 8) j m1"
    by (rule mem_write_slot [of 0 v "ds + 8" i m1]) (use assms i in auto)
  have "length (slot (ds + 8) i m) = ds + 8" using assms(1) by (rule length_slot)
  then have "slot (ds + 8) i m1 = take ds (slot (ds + 8) i m) @ bytes64 l" "length (take ds (slot (ds + 8) i m)) = ds"
    using m1(3) by simp_all
  then have "slot (ds + 8) i m2 = v @ bytes64 l" using m2(3) assms(2) by simp
  then show ?thesis
    using that [OF m1(1) m2(1) [simplified]] m1(2,4) m2(2,4) by simp
qed

lemma bf_repr_slot:
  assumes r: "bf_repr ds cap b es" and i: "i < length es"
  shows "mem_read (bf_stride b * i) (bf_data_size b) (bf_data b) = Inr (snd (es ! i))"
    and "mem_read (bf_stride b * i + bf_data_size b) 8 (bf_data b) = Inr (bytes64 (fst (es ! i)))"
    and "mem_read (bf_stride b * i) (bf_data_size b + 8) (bf_data b) = Inr (snd (es ! i) @ bytes64 (fst (es ! i)))"
proof -
  have room: "(ds + 8) * (i + 1) \<le> length (bf_data b)"
    by (rule bf_repr_room [OF r]) (use r i in \<open>simp add: bf_repr_def\<close>)
  have s: "slot (ds + 8) i (bf_data b) = snd (es ! i) @ bytes64 (fst (es ! i))"
    and l: "length (snd (es ! i)) = ds" "bf_stride b = ds + 8" "bf_data_size b = ds"
    using r i by (simp_all add: bf_repr_def)
  show "mem_read (bf_stride b * i) (bf_data_size b) (bf_data b) = Inr (snd (es ! i))"
    using mem_read_slot [of 0 ds "ds + 8" i "bf_data b"] room s l by simp
  show "mem_read (bf_stride b * i + bf_data_size b) 8 (bf_data b) = Inr (bytes64 (fst (es ! i)))"
    using mem_read_slot [of ds 8 "ds + 8" i "bf_data b"] room s l by simp
  show "mem_read (bf_stride b * i) (bf_data_size b + 8) (bf_data b) = Inr (snd (es ! i) @ bytes64 (fst (es ! i)))"
    using mem_read_slot [of 0 "ds + 8" "ds + 8" i "bf_data b"] room s l by simp
qed

lemma bf_repr_label:
  "bf_repr ds cap b es \<Longrightarrow> i < length es \<Longrightarrow> bf_label i b = Inr (fst (es ! i))"
  by (simp add: bf_label_def bf_repr_slot)

lemma bf_repr_dist:
  "bf_repr ds cap b es \<Longrightarrow> i < length es \<Longrightarrow> bf_dist dist query i b = dist query (snd (es ! i))"
  by (simp add: bf_dist_def bf_repr_slot)

lemma bf_add_ok:
  assumes r: "bf_repr ds cap b es" and s: "entries_step ds cap (Add l v) es = Some es'"
  shows "\<exists>b'. bf_addPoint v l b = Inr b' \<and> bf_repr ds cap b' es'"
proof -
  have v: "length v = ds" using s by (auto split: if_splits)
  have lb: "bf_labels b = (\<lambda>l. place l es)" and f: "bf_stride b = ds + 8" "bf_data_size b = ds"
    "bf_count b = length es" "bf_capacity b = cap" "length es \<le> cap" "distinct (map fst es)"
    "\<forall>e \<in> set es. length (snd e) = ds"
    using r by (simp_all add: bf_repr_def)
  have sl: "slot (ds + 8) j (bf_data b) = snd (es ! j) @ bytes64 (fst (es ! j))" if "j < length es" for j
    using r that by (simp add: bf_repr_def)
  have room: "(ds + 8) * (j + 1) \<le> length (bf_data b)" if "j < cap" for j
    by (rule bf_repr_room [OF r that])
  have d: "distinct (map fst es')" by (rule entries_step_map(1) [OF s f(6)])
  show ?thesis
  proof (cases "place l es")
    case (Some i)
    have i: "i < length es" using place_Some [OF Some] by simp
    have es': "es' = es[i := (l, v)]" using s v Some by simp
    obtain m1 m2 where m: "mem_write ((ds + 8) * i + ds) (bytes64 l) (bf_data b) = Inr m1"
      "mem_write ((ds + 8) * i) v m1 = Inr m2" "length m2 = length (bf_data b)"
      "slot (ds + 8) i m2 = v @ bytes64 l"
      "\<And>j. j \<noteq> i \<Longrightarrow> (ds + 8) * (j + 1) \<le> length (bf_data b) \<Longrightarrow> slot (ds + 8) j m2 = slot (ds + 8) j (bf_data b)"
      using write_slot [OF room [OF less_le_trans [OF i f(5)]] v, where l = l] by blast
    have "bf_addPoint v l b = Inr (b\<lparr>bf_data := m2\<rparr>)"
      using Some lb f m(1,2) v by (simp add: bf_addPoint_def mem_read_def)
    moreover have "slot (ds + 8) j m2 = snd (es' ! j) @ bytes64 (fst (es' ! j))" if "j < length es'" for j
      using that m(4) m(5) [of j] sl room f(5) es' by (cases "j = i") auto
    moreover have "\<forall>e \<in> set es'. length (snd e) = ds"
      using f(7) v es' set_update_subset_insert [of es i "(l, v)"] by auto
    ultimately show ?thesis
      using r d es' m(3) place_update [OF Some] lb by (auto simp: bf_repr_def)
  next
    case None
    have lt: "length es < cap" and es': "es' = es @ [(l, v)]"
      using s v None by (auto split: if_splits)
    obtain m1 m2 where m: "mem_write ((ds + 8) * length es + ds) (bytes64 l) (bf_data b) = Inr m1"
      "mem_write ((ds + 8) * length es) v m1 = Inr m2" "length m2 = length (bf_data b)"
      "slot (ds + 8) (length es) m2 = v @ bytes64 l"
      "\<And>j. j \<noteq> length es \<Longrightarrow> (ds + 8) * (j + 1) \<le> length (bf_data b) \<Longrightarrow> slot (ds + 8) j m2 = slot (ds + 8) j (bf_data b)"
      using write_slot [OF room [OF lt] v, where l = l] by blast
    let ?b = "b\<lparr>bf_labels := (bf_labels b)(l \<mapsto> length es), bf_count := length es + 1, bf_data := m2\<rparr>"
    have "bf_addPoint v l b = Inr ?b"
      using None lb f m(1,2) v lt by (simp add: bf_addPoint_def mem_read_def)
    moreover have "slot (ds + 8) j m2 = snd (es' ! j) @ bytes64 (fst (es' ! j))" if "j < length es'" for j
      using that m(4) m(5) [of j] sl room f(5) es' by (cases "j = length es") (auto simp: nth_append)
    moreover have "bf_labels ?b = (\<lambda>l. place l es')"
      using lb place_append [OF None] es' by (auto simp: fun_eq_iff)
    ultimately show ?thesis
      using r d es' m(3) lt v by (auto simp: bf_repr_def)
  qed
qed

lemma place_iff:
  "distinct (map fst es) \<Longrightarrow> place m es = Some k \<longleftrightarrow> k < length es \<and> fst (es ! k) = m"
  using place_Some place_nth by blast

lemma nth_moved:
  assumes "i + 1 < length es" "k + 1 < length es"
  shows "butlast (es[i := last es]) ! k = (if k = i then last es else es ! k)"
  using assms by (simp add: nth_butlast nth_list_update)

lemma place_moved:
  assumes d: "distinct (map fst es)" and p: "place l es = Some i" and lt: "i + 1 < length es"
    and d': "distinct (map fst (butlast (es[i := last es])))"
  shows "(\<lambda>m. place m (butlast (es[i := last es]))) =
    ((\<lambda>m. place m es)(l := None, fst (last es) \<mapsto> i))"
proof (rule ext)
  fix m
  let ?es = "butlast (es[i := last es])" and ?n = "length es - 1"
  have last: "last es = es ! ?n" using lt by (intro last_conv_nth) auto
  have i: "fst (es ! i) = l" using place_Some [OF p] by simp
  have inj: "fst (es ! j) = fst (es ! k) \<longleftrightarrow> j = k" if "j < length es" "k < length es" for j k
    using nth_eq_iff_index_eq [OF d, of j k] that by simp
  have "place m ?es = Some k \<longleftrightarrow> ((\<lambda>m. place m es)(l := None, fst (last es) \<mapsto> i)) m = Some k" for k
  proof -
    have "place m ?es = Some k \<longleftrightarrow> k < ?n \<and> fst (?es ! k) = m"
      using place_iff [OF d'] by simp
    also have "\<dots> \<longleftrightarrow> k < ?n \<and> fst (if k = i then last es else es ! k) = m"
      using nth_moved [OF lt] by (auto simp: less_diff_conv)
    also have "\<dots> \<longleftrightarrow> ((\<lambda>m. place m es)(l := None, fst (last es) \<mapsto> i)) m = Some k"
      using lt i inj last place_iff [OF d, of m k] by (auto simp: less_Suc_eq dest: inj [THEN iffD1, rotated -1])
    finally show ?thesis .
  qed
  then show "place m ?es = ((\<lambda>m. place m es)(l := None, fst (last es) \<mapsto> i)) m"
    by (metis not_Some_eq)
qed

lemma bf_remove_ok:
  assumes r: "bf_repr ds cap b es" and s: "entries_step ds cap (Remove l) es = Some es'"
  shows "\<exists>b'. bf_removePoint Inr l b = Inr b' \<and> bf_repr ds cap b' es'"
proof (cases "place l es")
  case None
  then have "bf_removePoint Inr l b = Inr b" using r by (simp add: bf_removePoint_def bf_repr_def)
  then show ?thesis using r s None by auto
next
  case (Some i)
  let ?n = "length es - 1"
  have lt: "i + 1 < length es" and es': "es' = butlast (es[i := last es])"
    using s Some by (auto split: if_splits)
  have lb: "bf_labels b = (\<lambda>l. place l es)" and f: "bf_stride b = ds + 8" "bf_data_size b = ds"
    "bf_count b = length es" "bf_capacity b = cap" "length es \<le> cap" "distinct (map fst es)"
    "\<forall>e \<in> set es. length (snd e) = ds"
    using r by (simp_all add: bf_repr_def)
  have last: "last es = es ! ?n" using lt by (intro last_conv_nth) auto
  have n: "?n < length es" using lt by simp
  have d: "distinct (map fst es')" by (rule entries_step_map(1) [OF s f(6)])
  have room: "(ds + 8) * (j + 1) \<le> length (bf_data b)" if "j < length es" for j
    by (rule bf_repr_room [OF r]) (use that f(5) in simp)
  have sl: "slot (ds + 8) j (bf_data b) = snd (es ! j) @ bytes64 (fst (es ! j))" if "j < length es" for j
    using r that by (simp add: bf_repr_def)
  let ?e = "snd (last es) @ bytes64 (fst (last es))"
  have le: "length ?e = ds + 8" using f(7) n last by (simp add: nth_mem)
  have i: "i < length es" using lt by simp
  obtain m where m: "mem_write ((ds + 8) * i) ?e (bf_data b) = Inr m" "length m = length (bf_data b)"
    "slot (ds + 8) i m = ?e"
    "\<And>j. j \<noteq> i \<Longrightarrow> (ds + 8) * (j + 1) \<le> length (bf_data b) \<Longrightarrow> slot (ds + 8) j m = slot (ds + 8) j (bf_data b)"
    using mem_write_slot [of 0 ?e "ds + 8" i "bf_data b"] room [OF i] le length_slot [OF room [OF i]] by auto
  let ?b = "b\<lparr>bf_labels := (bf_labels b)(l := None, fst (last es) \<mapsto> i), bf_data := m, bf_count := ?n\<rparr>"
  have "bf_removePoint Inr l b = Inr ?b"
    using Some lb f m(1) bf_repr_slot(2,3) [OF r n] last by (simp add: bf_removePoint_def Let_def)
  moreover have "bf_labels ?b = (\<lambda>l. place l es')"
    using place_moved [OF f(6) Some lt] d lb es' by simp
  moreover have "slot (ds + 8) j m = snd (es' ! j) @ bytes64 (fst (es' ! j))" if "j < length es'" for j
  proof -
    have j: "j + 1 < length es" using that es' by simp
    show ?thesis using nth_moved [OF lt j] m(3) m(4) [of j] room [of j] sl [of j] j es' by (cases "j = i") auto
  qed
  moreover have "\<forall>e \<in> set es'. length (snd e) = ds"
    using f(7) last n es' in_set_butlastD set_update_subset_insert [of es i "last es"] by fastforce
  ultimately show ?thesis
    using r d es' m(2) f by (auto simp: bf_repr_def)
qed

lemma bf_step_ok:
  assumes "bf_repr ds cap b es" "entries_step ds cap c es = Some es'"
  shows "\<exists>b'. bf_step Inr c b = Inr b' \<and> bf_repr ds cap b' es'"
proof (cases c)
  case (Add l v)
  then show ?thesis using bf_add_ok [OF assms(1), of l v es'] assms(2) by simp
next
  case (Remove l)
  then show ?thesis using bf_remove_ok [OF assms(1), of l es'] assms(2) by simp
qed

interpretation bfi: contract_simulation "bf_step Inr" "entries_step ds cap" "bf_repr ds cap"
  for ds cap :: nat
  by unfold_locales (rule bf_step_ok)

lemma bf_repr_new:
  assumes "malloc (cap * (get_data_size space + 8)) = Some raw"
    "length raw = cap * (get_data_size space + 8)"
  shows "\<exists>b. new_brute malloc space cap = Inr b \<and> bf_repr (get_data_size space) cap b []"
  unfolding new_brute_def Let_def assms(1) using assms(2)
  by (auto simp: bf_repr_def intro!: exI)

section \<open>What the search returns\<close>

lemma take_insort:
  fixes ys :: "'a::linorder list"
  shows "sorted ys \<Longrightarrow> take k (insort e ys) = take k (insort e (take k ys))"
proof (induction ys arbitrary: k)
  case (Cons y ys)
  then show ?case by (cases k) (auto simp: take_Cons')
qed simp

lemma insort_above:
  fixes ys :: "'a::linorder list"
  assumes "\<And>y. y \<in> set ys \<Longrightarrow> y < e" shows "insort e ys = ys @ [e]"
  using assms
proof (induction ys)
  case (Cons y ys)
  then have "y < e" by simp
  then show ?case using Cons by (simp add: not_le [symmetric])
qed simp

definition scored :: "(u8 list \<Rightarrow> 'd) \<Rightarrow> entries \<Rightarrow> ('d \<times> u64) list" where
  "scored d es = map (\<lambda>e. (d (snd e), fst e)) es"

lemma sort_snoc: "sort (xs @ [x :: 'a::linorder]) = insort x (sort xs)"
  by (rule properties_for_sort) (simp_all add: sorted_insort)

lemma knn_first_loop_sort:
  assumes r: "bf_repr ds cap b es" and q: "\<And>v. length v = ds \<Longrightarrow> dist query v = Inr (d v)"
    and "i + n \<le> length es" "res = sort (filter (\<lambda>e. allowed flt (snd e)) (scored d (take i es)))"
  shows "knn_first_loop dist flt query b i n res =
    Inr (sort (filter (\<lambda>e. allowed flt (snd e)) (scored d (take (i + n) es))))"
  using assms(3,4)
proof (induction n arbitrary: i res)
  case (Suc n)
  have i: "i < length es" using Suc.prems(1) by simp
  then have v: "length (snd (es ! i)) = ds" using r by (simp add: bf_repr_def)
  have "take (Suc i) es = take i es @ [es ! i]" using i by (rule take_Suc_conv_app_nth)
  then have t: "(if allowed flt (fst (es ! i)) then insort (d (snd (es ! i)), fst (es ! i)) res else res) =
      sort (filter (\<lambda>e. allowed flt (snd e)) (scored d (take (Suc i) es)))"
    using Suc.prems(2) by (simp add: scored_def sort_snoc comp_def)
  show ?case
    using Suc.IH [OF _ t] Suc.prems(1)
    by (cases "allowed flt (fst (es ! i))")
      (simp_all add: bf_repr_dist [OF r i] bf_repr_label [OF r i] q [OF v] pq_emplace_def)
qed simp


text \<open>
  The invariant of the second loop: with \<open>K\<close> elements found, the list holds the \<open>K\<close> least of
  those examined so far, and the bound is the distance of its top.
\<close>

definition knn_inv :: "nat \<Rightarrow> ('d::linorder \<times> u64) list \<Rightarrow> 'd pq \<Rightarrow> 'd \<Rightarrow> bool" where
  "knn_inv K xs res lastdist \<longleftrightarrow>
     res = take K (sort xs) \<and> K \<le> length xs \<and> (0 < K \<longrightarrow> lastdist = fst (last res))"

lemma knn_consider_inv:
  assumes inv: "knn_inv K xs res lastdist" and "knn_consider flt K d l res lastdist = (res', lastdist')"
  shows "knn_inv K (if allowed flt l then xs @ [(d, l)] else xs) res' lastdist'"
proof -
  have len: "length res = K" and r: "res = take K (sort xs)" and k: "K \<le> length xs"
    using inv by (auto simp: knn_inv_def)
  show ?thesis
  proof (cases "allowed flt l")
    case True
    have "length (insort (d, l) res) = Suc K" using len by simp
    then have "butlast (insort (d, l) res) = take K (insort (d, l) res)" by (simp add: butlast_conv_take)
    also have "\<dots> = take K (sort (xs @ [(d, l)]))"
      unfolding sort_snoc r by (rule take_insort [symmetric]) simp
    finally have b: "butlast (insort (d, l) res) = take K (sort (xs @ [(d, l)]))" .
    have "res' = butlast (insort (d, l) res)"
      using assms(2) True len by (auto simp: knn_consider_def Let_def pq_emplace_def pq_pop_def)
    moreover have "lastdist' = fst (last res')" if "0 < K"
    proof -
      have "res' \<noteq> []" using b calculation that k by (metis length_append le_add1 le_trans length_0_conv
            length_sort length_take less_numeral_extra(3) min.absorb2)
      then show ?thesis
        using assms(2) True len by (auto simp: knn_consider_def Let_def pq_emplace_def pq_pop_def pq_top_def)
    qed
    ultimately show ?thesis using True b k by (simp add: knn_inv_def)
  next
    case False
    then have "res' = res" "res \<noteq> [] \<Longrightarrow> lastdist' = fst (last res)"
      using assms(2) len by (auto simp: knn_consider_def Let_def pq_top_def split: if_splits)
    moreover have "res \<noteq> []" if "0 < K" using len that by auto
    ultimately show ?thesis using inv False by (auto simp: knn_inv_def)
  qed
qed

lemma knn_skip_inv:
  assumes inv: "knn_inv K xs res lastdist" and d: "\<not> d \<le> lastdist" and K: "0 < K"
  shows "knn_inv K (xs @ [(d, l)]) res lastdist"
proof -
  have len: "length res = K" and r: "res = take K (sort xs)" and k: "K \<le> length xs"
    and ld: "lastdist = fst (last res)"
    using inv K by (auto simp: knn_inv_def)
  have s: "sorted res" unfolding r by (rule sorted_wrt_take) simp
  have "y < (d, l)" if y: "y \<in> set res" for y
  proof -
    obtain i where i: "i < length res" "y = res ! i" using y by (metis in_set_conv_nth)
    have ne: "res \<noteq> []" using y by auto
    then have "y \<le> last res"
      unfolding i(2) last_conv_nth [OF ne] using s i(1) by (intro sorted_nth_mono) auto
    also have "last res < (d, l)" using d ld by (simp add: less_prod_def' not_le)
    finally show ?thesis .
  qed
  then have "insort (d, l) res = res @ [(d, l)]" by (rule insort_above)
  then have "take K (sort (xs @ [(d, l)])) = res"
    using len take_insort [of "sort xs" K "(d, l)"] unfolding sort_snoc r [symmetric] by simp
  then show ?thesis using k ld by (simp add: knn_inv_def)
qed


lemma knn_rest_loop_take:
  assumes r: "bf_repr ds cap b es" and q: "\<And>v. length v = ds \<Longrightarrow> dist query v = Inr (d v)"
    and "i + n \<le> length es" "knn_inv K (filter (\<lambda>e. allowed flt (snd e)) (scored d (take i es))) res lastdist"
  shows "knn_rest_loop dist flt query K b i n res lastdist =
    Inr (take K (sort (filter (\<lambda>e. allowed flt (snd e)) (scored d (take (i + n) es)))))"
  using assms(3,4)
proof (induction n arbitrary: i res lastdist)
  case 0
  then show ?case by (simp add: knn_inv_def)
next
  case (Suc n)
  let ?f = "\<lambda>i. filter (\<lambda>e. allowed flt (snd e)) (scored d (take i es))"
  let ?d = "d (snd (es ! i))" and ?l = "fst (es ! i)"
  have i: "i < length es" using Suc.prems(1) by simp
  then have v: "length (snd (es ! i)) = ds" using r by (simp add: bf_repr_def)
  have "take (Suc i) es = take i es @ [es ! i]" using i by (rule take_Suc_conv_app_nth)
  then have f: "?f (Suc i) = (if allowed flt ?l then ?f i @ [(?d, ?l)] else ?f i)"
    by (simp add: scored_def)
  have dist: "bf_dist dist query i b = Inr ?d" using bf_repr_dist [OF r i, of dist query] q [OF v] by simp
  show ?case
  proof (cases "?d \<le> lastdist")
    case True
    obtain res' lastdist' where c: "knn_consider flt K ?d ?l res lastdist = (res', lastdist')"
      by (cases "knn_consider flt K ?d ?l res lastdist")
    have "knn_inv K (?f (Suc i)) res' lastdist'"
      unfolding f by (rule knn_consider_inv [OF Suc.prems(2) c])
    then show ?thesis
      using Suc.IH [of "Suc i" res' lastdist'] Suc.prems(1) True c
      by (simp add: dist bf_repr_label [OF r i])
  next
    case False
    have "knn_inv K (?f (Suc i)) res lastdist"
    proof (cases "K = 0")
      case True
      then show ?thesis using Suc.prems(2) by (simp add: knn_inv_def)
    next
      case False
      then show ?thesis
        unfolding f using knn_skip_inv [OF Suc.prems(2) \<open>\<not> ?d \<le> lastdist\<close>, of ?l] Suc.prems(2) by simp
    qed
    then show ?thesis
      using Suc.IH [of "Suc i" res lastdist] Suc.prems(1) False by (simp add: dist)
  qed
qed

lemma closer_first_id: "closer_first_loop (length q) q (q' @ r) = q @ r" if "length q' = length q"
  using that
proof (induction q arbitrary: q' r rule: rev_induct)
  case (snoc x q)
  obtain y ys where q': "q' = ys @ [y]" "length ys = length q"
    using snoc.prems by (cases q' rule: rev_cases) auto
  have "(ys @ [y] @ r)[length q := x] = ys @ ([x] @ r)"
    using q'(2) by (metis append_Cons append_Nil list_update_length)
  then show ?case using snoc.IH [of ys "x # r"] q' by (simp add: pq_top_def pq_pop_def)
qed simp

lemma search_exact:
  assumes r: "bf_repr ds cap b es" and q: "\<And>v. length v = ds \<Longrightarrow> dist query v = Inr (d v)"
    and K: "K \<le> length es" and first: "\<And>i. i < K \<Longrightarrow> allowed flt (fst (es ! i))"
  shows "SearchKNN dist dmax query K flt b = Inr (take K (sort (filter (\<lambda>e. allowed flt (snd e)) (scored d es))))"
proof -
  let ?f = "\<lambda>i. filter (\<lambda>e. allowed flt (snd e)) (scored d (take i es))"
  have c: "bf_count b = length es" using r by (simp add: bf_repr_def)
  have "knn_first_loop dist flt query b 0 K [] = Inr (sort (?f (0 + K)))"
    by (rule knn_first_loop_sort [OF r, where d = d and dist = dist and query = query])
      (use K q in \<open>simp_all add: scored_def\<close>)
  then have one: "knn_first_loop dist flt query b 0 K [] = Inr (sort (?f K))" by simp
  have "x \<in> set (take K es) \<Longrightarrow> allowed flt (fst x)" for x
    using first K by (auto simp: in_set_conv_nth)
  then have fk: "?f K = scored d (take K es)" by (auto simp: scored_def filter_map filter_id_conv)
  have len: "length (?f K) = K" unfolding fk using K by (simp add: scored_def)
  let ?res = "sort (?f K)"
  let ?ld = "if ?res = [] then dmax else fst (pq_top ?res)"
  have "length ?res = K" using len by simp
  then have "?res \<noteq> []" if "0 < K" using that by (metis less_numeral_extra(3) list.size(3))
  then have "knn_inv K (?f K) ?res ?ld" using len by (auto simp: knn_inv_def pq_top_def)
  then have "knn_rest_loop dist flt query K b K (length es - K) ?res ?ld =
      Inr (take K (sort (?f (K + (length es - K)))))"
    using K q by (intro knn_rest_loop_take [OF r, where d = d and dist = dist and query = query]) simp_all
  then have two: "knn_rest_loop dist flt query K b K (length es - K) ?res ?ld =
      Inr (take K (sort (filter (\<lambda>e. allowed flt (snd e)) (scored d es))))"
    using K by simp
  show ?thesis
  proof (cases "es = []")
    case True
    then show ?thesis using K c by (simp add: SearchKNN_def scored_def)
  next
    case False
    have "SearchKNN dist dmax query K flt b = knn_rest_loop dist flt query K b K (length es - K) ?res ?ld"
      using K False
      by (simp only: SearchKNN_def c one bindR_Inr Let_def not_True_eq_False if_False length_0_conv)
    then show ?thesis using two by (simp only:)
  qed
qed

section \<open>Properties\<close>




lemma search_labels:
  "knn_first_loop dist flt query (b\<lparr>bf_labels := m\<rparr>) i n res = knn_first_loop dist flt query b i n res"
  "knn_rest_loop dist flt query K (b\<lparr>bf_labels := m\<rparr>) i n res ld = knn_rest_loop dist flt query K b i n res ld"
proof -
  have s: "bf_dist dist query i (b\<lparr>bf_labels := m\<rparr>) = bf_dist dist query i b"
    "bf_label i (b\<lparr>bf_labels := m\<rparr>) = bf_label i b" for i
    by (simp_all add: bf_dist_def bf_label_def)
  show "knn_first_loop dist flt query (b\<lparr>bf_labels := m\<rparr>) i n res = knn_first_loop dist flt query b i n res"
    by (induction n arbitrary: i res) (simp_all add: s)
  show "knn_rest_loop dist flt query K (b\<lparr>bf_labels := m\<rparr>) i n res ld = knn_rest_loop dist flt query K b i n res ld"
    by (induction n arbitrary: i res ld) (simp_all add: s case_prod_unfold Let_def cong: if_cong)
qed

lemma SearchKNN_labels: "SearchKNN dist dmax query K flt (b\<lparr>bf_labels := m\<rparr>) = SearchKNN dist dmax query K flt b"
  by (simp add: SearchKNN_def search_labels)

text \<open>
  C37: Loading a saved index into an empty one, with the space it was built for, restores the
  vectors, their labels and the sizes, so that every search answers as before; the map from
  labels to places is not restored and stays empty.
\<close>

theorem brute_save_load:
  assumes r: "bf_repr (get_data_size space) cap b es" and "cap < 2 ^ 64" "get_data_size space + 8 < 2 ^ 64"
    and m: "malloc (cap * (get_data_size space + 8)) = Some raw"
      "length raw = cap * (get_data_size space + 8)"
  shows "\<exists>out b'. bf_saveIndex b = Inr out \<and> bf_loadIndex malloc out space empty_brute = Inr b' \<and>
    b' = b\<lparr>bf_labels := Map.empty\<rparr> \<and>
    SearchKNN dist dmax query K flt b' = SearchKNN dist dmax query K flt b"
proof -
  have f: "bf_stride b = get_data_size space + 8" "bf_capacity b = cap" "bf_data_size b = get_data_size space"
    "length (bf_data b) = cap * (get_data_size space + 8)" "bf_count b \<le> cap"
    using r by (simp_all add: bf_repr_def)
  have rd: "readBinaryPOD x (bytes64 (of_nat n) @ ys) = (n, ys)" if "n < 2 ^ 64" for x n ys
    using that by (simp add: readBinaryPOD_def Let_def unat_of_nat_small)
  let ?file = "bytes64 (of_nat cap) @ bytes64 (of_nat (get_data_size space + 8)) @ bytes64 (of_nat (bf_count b)) @ bf_data b"
  have sv: "bf_saveIndex b = Inr ?file"
    using f by (simp add: bf_saveIndex_def mem_read_def writeBinaryPOD_def)
  have rds: "readBinaryPOD x (bytes64 (of_nat cap) @ ys) = (cap, ys)"
    "readBinaryPOD x (bytes64 (of_nat (get_data_size space + 8)) @ ys) = (get_data_size space + 8, ys)"
    "readBinaryPOD x (bytes64 (of_nat (bf_count b)) @ ys) = (bf_count b, ys)" for x ys
    using rd assms(2,3) f(5) le_less_trans by blast+
  have "bf_loadIndex malloc ?file space empty_brute =
      Inr \<lparr>bf_data = bf_data b, bf_data_size = get_data_size space, bf_count = bf_count b,
        bf_stride = get_data_size space + 8, bf_capacity = cap, bf_labels = Map.empty\<rparr>"
    unfolding bf_loadIndex_def rds Let_def split m(1) option.case using f(4) m(2)
    by (simp add: empty_brute_def)
  also have "\<dots> = Inr (b\<lparr>bf_labels := Map.empty\<rparr>)" using f by simp
  finally have "bf_loadIndex malloc ?file space empty_brute = Inr (b\<lparr>bf_labels := Map.empty\<rparr>)" .
  then show ?thesis using sv SearchKNN_labels by blast
qed


text \<open>An index of one vector with one byte per vector.\<close>

lemma bf_repr_example:
  "bf_repr 1 2 \<lparr>bf_data = [5] @ bytes64 7 @ replicate 9 0, bf_data_size = 1, bf_count = 1, bf_stride = 9,
     bf_capacity = 2, bf_labels = [7 \<mapsto> 0]\<rparr> [(7, [5])]"
  by (simp add: bf_repr_def slot_def fun_eq_iff)

theorem brute_save_load_witness:
  "\<exists>out b'. bf_saveIndex \<lparr>bf_data = [5] @ bytes64 7 @ replicate 9 0, bf_data_size = 1, bf_count = 1,
       bf_stride = 9, bf_capacity = 2, bf_labels = [7 \<mapsto> 0]\<rparr> = Inr out \<and>
     bf_loadIndex (\<lambda>n. Some (replicate n 0)) out (new_L2SpaceI 1) empty_brute = Inr b' \<and>
     bf_count b' = 1 \<and> bf_labels b' 7 = None"
proof -
  let ?b = "\<lparr>bf_data = [5] @ bytes64 7 @ replicate 9 0, bf_data_size = 1, bf_count = 1,
       bf_stride = 9, bf_capacity = 2, bf_labels = [7 \<mapsto> 0]\<rparr> :: brute"
  have ds: "get_data_size (new_L2SpaceI 1) = 1" by (simp add: get_data_size_def new_L2SpaceI_def)
  have "\<exists>out b'. bf_saveIndex ?b = Inr out \<and>
    bf_loadIndex (\<lambda>n. Some (replicate n 0)) out (new_L2SpaceI 1) empty_brute = Inr b' \<and>
    b' = ?b\<lparr>bf_labels := Map.empty\<rparr> \<and>
    SearchKNN (\<lambda>p q. L2SqrI p q 1) 0 [5] 1 None b' = SearchKNN (\<lambda>p q. L2SqrI p q 1) 0 [5] 1 None ?b"
    by (rule brute_save_load [where cap = 2 and es = "[(7, [5])]" and raw = "replicate 18 0"])
      (use bf_repr_example in \<open>simp_all add: ds [simplified]\<close>)
  then obtain out b' where "bf_saveIndex ?b = Inr out"
    "bf_loadIndex (\<lambda>n. Some (replicate n 0)) out (new_L2SpaceI 1) empty_brute = Inr b'"
    "b' = ?b\<lparr>bf_labels := Map.empty\<rparr>"
    by blast
  then show ?thesis by (intro exI [of _ out] exI [of _ b']) simp
qed

text \<open>
  C38: Removing the element at the last place, even if the read through the erased map entry
  yields its old value, puts the label back into the map: a later addition of the same label
  then writes behind the counted elements and returns, and no search finds the vector.
\<close>

theorem brute_remove_last_loses:
  fixes dist :: "u8 list \<Rightarrow> u8 list \<Rightarrow> 'd::linorder result"
  assumes r: "bf_repr ds cap b (es @ [(l, v)])" and w: "length w = ds"
    and q: "\<And>v. length v = ds \<Longrightarrow> dist query v = Inr (d v)" and K: "K \<le> length es"
  shows "\<exists>b1 b2. bf_removePoint Inr l b = Inr b1 \<and> bf_addPoint w l b1 = Inr b2 \<and>
    bf_count b2 = length es \<and>
    SearchKNN dist dmax query K None b2 = Inr (take K (sort (scored d es)))"
proof -
  let ?n = "length es" and ?es = "es @ [(l, v)]"
  have lb: "bf_labels b = (\<lambda>l. place l ?es)" and f: "bf_stride b = ds + 8" "bf_data_size b = ds"
    "bf_count b = Suc ?n" "bf_capacity b = cap" "Suc ?n \<le> cap" "distinct (map fst ?es)"
    "\<forall>e \<in> set ?es. length (snd e) = ds"
    using r by (simp_all add: bf_repr_def)
  have pl: "place l ?es = Some ?n" using place_nth [OF f(6), of ?n] by simp
  have room: "(ds + 8) * (?n + 1) \<le> length (bf_data b)"
    by (rule bf_repr_room [OF r]) (use f(5) in simp)
  have sl: "slot (ds + 8) j (bf_data b) = snd (?es ! j) @ bytes64 (fst (?es ! j))" if "j < Suc ?n" for j
    using r that by (simp add: bf_repr_def)
  have n: "?n < length ?es" by simp
  note rd = bf_repr_slot(2,3) [OF r n]
  let ?e = "v @ bytes64 l"
  have le: "length ?e = ds + 8" using f(7) by simp
  obtain m where m: "mem_write ((ds + 8) * ?n) ?e (bf_data b) = Inr m" "length m = length (bf_data b)"
    "\<And>j. j \<noteq> ?n \<Longrightarrow> (ds + 8) * (j + 1) \<le> length (bf_data b) \<Longrightarrow> slot (ds + 8) j m = slot (ds + 8) j (bf_data b)"
    using mem_write_slot [of 0 ?e "ds + 8" ?n "bf_data b"] room le by auto
  let ?b1 = "b\<lparr>bf_labels := (bf_labels b)(l := None, l \<mapsto> ?n), bf_data := m, bf_count := ?n\<rparr>"
  have b1: "bf_removePoint Inr l b = Inr ?b1"
    using pl lb f m(1) rd by (simp add: bf_removePoint_def Let_def)
  obtain m1 m2 where m2: "mem_write ((ds + 8) * ?n + ds) (bytes64 l) m = Inr m1"
    "mem_write ((ds + 8) * ?n) w m1 = Inr m2" "length m2 = length m"
    "\<And>j. j \<noteq> ?n \<Longrightarrow> (ds + 8) * (j + 1) \<le> length m \<Longrightarrow> slot (ds + 8) j m2 = slot (ds + 8) j m"
    using write_slot [OF room [folded m(2)] w, where l = l] by blast
  let ?b2 = "?b1\<lparr>bf_data := m2\<rparr>"
  have b2: "bf_addPoint w l ?b1 = Inr ?b2"
    using f m2(1,2) w by (simp add: bf_addPoint_def mem_read_def)
  have "bf_repr ds cap (?b2\<lparr>bf_labels := \<lambda>l. place l es\<rparr>) es"
  proof -
    have "slot (ds + 8) j m2 = snd (es ! j) @ bytes64 (fst (es ! j))" if j: "j < ?n" for j
    proof -
      have "(ds + 8) * (j + 1) \<le> length (bf_data b)"
        by (rule bf_repr_room [OF r]) (use f(5) j in simp)
      then show ?thesis using m(2) m(3) [of j] m2(4) [of j] sl [of j] j by (simp add: nth_append)
    qed
    then show ?thesis using r m(2) m2(3) f by (simp add: bf_repr_def)
  qed
  note sr = search_exact [OF this, of dist query d K None dmax]
  have "SearchKNN dist dmax query K None ?b2 =
      SearchKNN dist dmax query K None (?b2\<lparr>bf_labels := \<lambda>l. place l es\<rparr>)"
    by (rule SearchKNN_labels [symmetric])
  also have "\<dots> = Inr (take K (sort (scored d es)))"
    using sr q K by (simp only: allowed_def option.case simp_thms) simp
  finally have "SearchKNN dist dmax query K None ?b2 = Inr (take K (sort (scored d es)))" .
  then show ?thesis using b1 b2 by (intro exI conjI) simp_all
qed

theorem brute_remove_last_loses_witness:
  "\<exists>b1 b2. bf_removePoint Inr 7 \<lparr>bf_data = [5] @ bytes64 7 @ replicate 9 0, bf_data_size = 1, bf_count = 1,
       bf_stride = 9, bf_capacity = 2, bf_labels = [7 \<mapsto> 0]\<rparr> = Inr b1 \<and>
     bf_addPoint [6] 7 b1 = Inr b2 \<and> bf_count b2 = 0"
proof -
  let ?b = "\<lparr>bf_data = [5] @ bytes64 7 @ replicate 9 0, bf_data_size = 1, bf_count = 1,
       bf_stride = 9, bf_capacity = 2, bf_labels = [7 \<mapsto> 0]\<rparr> :: brute"
  have r: "bf_repr 1 2 \<lparr>bf_data = [5] @ bytes64 7 @ replicate 9 0, bf_data_size = 1, bf_count = 1, bf_stride = 9,
     bf_capacity = 2, bf_labels = [7 \<mapsto> 0]\<rparr> ([] @ [(7, [5])])"
    using bf_repr_example by simp
  have "\<exists>b1 b2. bf_removePoint Inr 7 ?b = Inr b1 \<and> bf_addPoint [6] 7 b1 = Inr b2 \<and>
    bf_count b2 = length ([] :: entries) \<and>
    SearchKNN (\<lambda>p v. Inr (0 :: int)) 0 [] 0 None b2 = Inr (take 0 (sort (scored (\<lambda>v. 0) [])))"
    by (rule brute_remove_last_loses [OF r]) simp_all
  then show ?thesis by (simp only: list.size) blast
qed


text \<open>
  A filter that rejects an element at the first \<open>K\<close> places can make the search return fewer
  elements than it allows: here two are asked for and allowed, the nearer of them is
  found in the first loop, and the other is farther away than the bound it leaves.
\<close>

lemma filtered_search_incomplete:
  "bindR (new_brute (\<lambda>n. Some (replicate n 0)) (new_L2SpaceI 1) 3) (\<lambda>b.
   bindR (run_calls (bf_step Inr) [Add 1 [1], Add 2 [2], Add 3 [9]] b) (\<lambda>b.
   SearchKNN (\<lambda>p q. L2SqrI p q 1) (2 ^ 31 - 1) [0] 2 (Some (\<lambda>l. l \<noteq> 1)) b)) = Inr [(4, 2)]"
  by code_simp

end
