(* ===== verification/Skip_List.thy ===== *)
theory Skip_List
  imports Interfaces
begin

text \<open>
  The skip list of \<^verbatim>\<open>src/src/dsa/skiplist.hpp\<close> as one thread sees it.  Nodes live in a store of
  addresses, a null pointer is \<open>None\<close>, and new nodes get addresses that were never used.  An
  operation that locks several nodes collects the mutexes it holds, so that locking one of
  them twice is a failure, as is an access through a null pointer.  A compare-and-exchange of
  a single thread succeeds, and the validation after locking is kept although it cannot fail.

  The theory shows that the list is a set of keys as long as every node is drawn with level one,
  and that an addition with any higher level fails.
\<close>

section \<open>Nodes and state\<close>

record ('k, 'v) snode =
  sn_key :: 'k
  sn_value :: 'v
  sn_next :: "nat option list"
  sn_marked :: bool

record ('k, 'v) skip_list =
  sl_heap :: "nat \<rightharpoonup> ('k, 'v) snode"
  sl_head :: nat
  sl_tail :: nat
  sl_level :: nat
  sl_fresh :: nat

definition MAX_LEVEL :: nat where
  "MAX_LEVEL = 16"

definition new_snode :: "'k \<Rightarrow> 'v \<Rightarrow> nat \<Rightarrow> ('k, 'v) snode" where
  "new_snode k v level = \<lparr>sn_key = k, sn_value = v, sn_next = replicate level None, sn_marked = False\<rparr>"

definition sl_deref :: "nat option \<Rightarrow> ('k, 'v) skip_list \<Rightarrow> ('k, 'v) snode result" where
  "sl_deref p s = (case p of
     None \<Rightarrow> Inl NullDeref
   | Some a \<Rightarrow> (case sl_heap s a of None \<Rightarrow> Inl Dangling | Some n \<Rightarrow> Inr n))"

definition next_load :: "nat option \<Rightarrow> nat \<Rightarrow> ('k, 'v) skip_list \<Rightarrow> nat option result" where
  "next_load p level s = bindR (sl_deref p s) (\<lambda>n. vec_at (sn_next n) level)"

definition sl_put :: "nat \<Rightarrow> ('k, 'v) snode \<Rightarrow> ('k, 'v) skip_list \<Rightarrow> ('k, 'v) skip_list" where
  "sl_put a n s = s\<lparr>sl_heap := (sl_heap s)(a \<mapsto> n)\<rparr>"

definition next_store :: "nat option \<Rightarrow> nat \<Rightarrow> nat option \<Rightarrow> ('k, 'v) skip_list \<Rightarrow> ('k, 'v) skip_list result" where
  "next_store p level q s =
     bindR (sl_deref p s) (\<lambda>n.
     bindR (vec_at (sn_next n) level) (\<lambda>_.
     Inr (sl_put (the p) (n\<lparr>sn_next := (sn_next n)[level := q]\<rparr>) s)))"

text \<open>The constructor, with the least and the greatest key and the default value.\<close>

definition new_skip_list :: "'k \<Rightarrow> 'k \<Rightarrow> 'v \<Rightarrow> ('k, 'v) skip_list" where
  "new_skip_list kmin kmax v0 =
     \<lparr>sl_heap = [0 \<mapsto> (new_snode kmin v0 MAX_LEVEL)\<lparr>sn_next := replicate MAX_LEVEL (Some 1)\<rparr>,
                1 \<mapsto> new_snode kmax v0 MAX_LEVEL],
      sl_head = 0, sl_tail = 1, sl_level = 1, sl_fresh = 2\<rparr>"

text \<open>The loop of \<^verbatim>\<open>randomLevel\<close>; \<open>flips\<close> are the outcomes of \<^verbatim>\<open>dist(gen) < PROBABILITY\<close>.\<close>

fun random_level_loop :: "nat \<Rightarrow> bool list \<Rightarrow> nat" where
  "random_level_loop lvl (True # flips) =
     (if lvl < MAX_LEVEL then random_level_loop (lvl + 1) flips else lvl)"
| "random_level_loop lvl flips = lvl"

definition randomLevel :: "bool list \<Rightarrow> nat" where
  "randomLevel flips = random_level_loop 1 flips"

section \<open>Traversal\<close>

text \<open>The inner loop of \<^verbatim>\<open>find\<close> on one level.\<close>

partial_function (option) find_walk :: "'k::linorder \<Rightarrow> nat \<Rightarrow> nat option \<Rightarrow> nat option \<Rightarrow>
    ('k, 'v) skip_list \<Rightarrow> (nat option \<times> nat option) result option" where
  "find_walk key level pred cur s =
     (case sl_deref cur s of
        Inl e \<Rightarrow> Some (Inl e)
      | Inr c \<Rightarrow>
          if sn_marked c then
            (case vec_at (sn_next c) level of
               Inl e \<Rightarrow> Some (Inl e)
             | Inr nx \<Rightarrow> find_walk key level pred nx s)
          else if sn_key c < key then
            (case vec_at (sn_next c) level of
               Inl e \<Rightarrow> Some (Inl e)
             | Inr nx \<Rightarrow> find_walk key level cur nx s)
          else Some (Inr (pred, cur)))"

definition returned :: "'a result option \<Rightarrow> 'a result" where
  "returned r = (case r of None \<Rightarrow> Inl Diverges | Some x \<Rightarrow> x)"

text \<open>The outer loop, over the levels below \<open>n\<close> from the highest on.\<close>

fun find_levels :: "'k::linorder \<Rightarrow> nat \<Rightarrow> nat option \<Rightarrow> nat option list \<Rightarrow> nat option list \<Rightarrow>
    ('k, 'v) skip_list \<Rightarrow> (nat option list \<times> nat option list) result" where
  "find_levels key 0 pred preds succs s = Inr (preds, succs)"
| "find_levels key (Suc level) pred preds succs s =
     bindR (next_load pred level s) (\<lambda>cur.
     bindR (returned (find_walk key level pred cur s)) (\<lambda>(pred, cur).
     find_levels key level pred (preds[level := pred]) (succs[level := cur]) s))"

definition sl_find :: "'k::linorder \<Rightarrow> ('k, 'v) skip_list \<Rightarrow> (nat option list \<times> nat option list) result" where
  "sl_find key s =
     find_levels key (sl_level s) (Some (sl_head s)) (replicate MAX_LEVEL None) (replicate MAX_LEVEL None) s"

partial_function (option) contains_walk :: "'k::linorder \<Rightarrow> nat \<Rightarrow> nat option \<Rightarrow>
    ('k, 'v) skip_list \<Rightarrow> nat option result option" where
  "contains_walk key level cur s =
     (case next_load cur level s of
        Inl e \<Rightarrow> Some (Inl e)
      | Inr None \<Rightarrow> Some (Inr cur)
      | Inr (Some a) \<Rightarrow>
          (case sl_deref (Some a) s of
             Inl e \<Rightarrow> Some (Inl e)
           | Inr c \<Rightarrow>
               if sn_key c < key then contains_walk key level (Some a) s
               else Some (Inr cur)))"

fun contains_levels :: "'k::linorder \<Rightarrow> nat \<Rightarrow> nat option \<Rightarrow> ('k, 'v) skip_list \<Rightarrow> nat option result" where
  "contains_levels key 0 cur s = Inr cur"
| "contains_levels key (Suc level) cur s =
     bindR (returned (contains_walk key level cur s)) (\<lambda>cur. contains_levels key level cur s)"

definition sl_contains :: "'k::linorder \<Rightarrow> ('k, 'v) skip_list \<Rightarrow> bool result" where
  "sl_contains key s =
     bindR (contains_levels key (sl_level s) (Some (sl_head s)) s) (\<lambda>cur.
     bindR (next_load cur 0 s) (\<lambda>nx.
     case nx of
       None \<Rightarrow> Inr False
     | Some a \<Rightarrow> bindR (sl_deref (Some a) s) (\<lambda>n. Inr (sn_key n = key \<and> \<not> sn_marked n))))"

section \<open>Addition and removal\<close>

text \<open>Locking the nodes at the levels from \<open>level\<close> on; \<open>held\<close> are the nodes locked already.\<close>

fun lock_preds :: "nat \<Rightarrow> nat \<Rightarrow> nat option list \<Rightarrow> nat list \<Rightarrow> ('k, 'v) skip_list \<Rightarrow> nat list result" where
  "lock_preds level 0 preds held s = Inr held"
| "lock_preds level (Suc n) preds held s =
     bindR (vec_at preds level) (\<lambda>p.
     bindR (sl_deref p s) (\<lambda>_.
     if the p \<in> set held then Inl Relock else lock_preds (Suc level) n preds (the p # held) s))"

text \<open>The validation loops: every predecessor still points to the expected node.\<close>

fun validate :: "nat \<Rightarrow> nat \<Rightarrow> nat option list \<Rightarrow> nat option list \<Rightarrow> ('k, 'v) skip_list \<Rightarrow> bool result" where
  "validate level 0 preds expected s = Inr True"
| "validate level (Suc n) preds expected s =
     bindR (vec_at preds level) (\<lambda>p.
     bindR (vec_at expected level) (\<lambda>q.
     bindR (next_load p level s) (\<lambda>x.
     if x \<noteq> q then Inr False else validate (Suc level) n preds expected s)))"

fun link_preds :: "nat \<Rightarrow> nat \<Rightarrow> nat option list \<Rightarrow> nat \<Rightarrow> ('k, 'v) skip_list \<Rightarrow> ('k, 'v) skip_list result" where
  "link_preds level 0 preds a s = Inr s"
| "link_preds level (Suc n) preds a s =
     bindR (vec_at preds level) (\<lambda>p.
     bindR (next_store p level (Some a) s) (\<lambda>s.
     link_preds (Suc level) n preds a s))"

text \<open>
  The body of the retry loop of \<^verbatim>\<open>add\<close>; \<open>None\<close> is \<^verbatim>\<open>continue\<close>.  The locks are released at the
  end of the body.
\<close>

definition add_body :: "'k::linorder \<Rightarrow> 'v \<Rightarrow> nat \<Rightarrow> ('k, 'v) skip_list \<Rightarrow> (bool option \<times> ('k, 'v) skip_list) result" where
  "add_body key value topLevel s =
     bindR (sl_find key s) (\<lambda>(preds, succs).
     bindR (vec_at succs 0) (\<lambda>p.
     bindR (sl_deref p s) (\<lambda>found.
     if sn_key found = key \<and> \<not> sn_marked found then Inr (Some False, s)
     else
       let a = sl_fresh s;
           n = (new_snode key value topLevel)\<lparr>sn_next := take topLevel succs\<rparr>;
           s = (sl_put a n s)\<lparr>sl_fresh := a + 1\<rparr>
       in bindR (lock_preds 0 topLevel preds [] s) (\<lambda>_.
          bindR (validate 0 topLevel preds succs s) (\<lambda>valid.
          if \<not> valid then Inr (None, s\<lparr>sl_heap := (sl_heap s)(a := None)\<rparr>)
          else
            bindR (link_preds 0 topLevel preds a s) (\<lambda>s.
            Inr (Some True, s\<lparr>sl_level := max (sl_level s) topLevel\<rparr>)))))))"

partial_function (option) add_loop :: "'k::linorder \<Rightarrow> 'v \<Rightarrow> nat \<Rightarrow> ('k, 'v) skip_list \<Rightarrow>
    (bool \<times> ('k, 'v) skip_list) result option" where
  "add_loop key value topLevel s =
     (case add_body key value topLevel s of
        Inl e \<Rightarrow> Some (Inl e)
      | Inr (Some r, s) \<Rightarrow> Some (Inr (r, s))
      | Inr (None, s) \<Rightarrow> add_loop key value topLevel s)"

definition sl_add :: "bool list \<Rightarrow> 'k::linorder \<Rightarrow> 'v \<Rightarrow> ('k, 'v) skip_list \<Rightarrow>
    (bool \<times> ('k, 'v) skip_list) result" where
  "sl_add flips key value s = returned (add_loop key value (randomLevel flips) s)"

text \<open>Unlinking the victim, from its highest level down.\<close>

fun unlink_preds :: "nat \<Rightarrow> nat option list \<Rightarrow> nat option \<Rightarrow> ('k, 'v) skip_list \<Rightarrow> ('k, 'v) skip_list result" where
  "unlink_preds 0 preds victim s = Inr s"
| "unlink_preds (Suc level) preds victim s =
     bindR (vec_at preds level) (\<lambda>p.
     bindR (next_load victim level s) (\<lambda>x.
     bindR (next_store p level x s) (\<lambda>s.
     unlink_preds level preds victim s)))"

text \<open>The body of the retry loop of \<^verbatim>\<open>remove\<close>, with the flag \<open>isMarked\<close> it carries.\<close>

definition remove_body :: "'k::linorder \<Rightarrow> bool \<Rightarrow> ('k, 'v) skip_list \<Rightarrow>
    (bool option \<times> bool \<times> ('k, 'v) skip_list) result" where
  "remove_body key isMarked s =
     bindR (sl_find key s) (\<lambda>(preds, succs).
     bindR (vec_at succs 0) (\<lambda>victim.
     bindR (sl_deref victim s) (\<lambda>n.
     if sn_key n \<noteq> key then Inr (Some False, isMarked, s)
     else if \<not> isMarked \<and> sn_marked n then Inr (Some False, isMarked, s)
     else
       let s = (if isMarked then s else sl_put (the victim) (n\<lparr>sn_marked := True\<rparr>) s);
           levels = length (sn_next n)
       in bindR (lock_preds 0 levels preds [] s) (\<lambda>_.
          bindR (validate 0 levels preds (replicate levels victim) s) (\<lambda>valid.
          if \<not> valid then Inr (None, True, s)
          else
            bindR (unlink_preds levels preds victim s) (\<lambda>s.
            Inr (Some True, True, s\<lparr>sl_heap := (sl_heap s)(the victim := None)\<rparr>)))))))"

partial_function (option) remove_loop :: "'k::linorder \<Rightarrow> bool \<Rightarrow> ('k, 'v) skip_list \<Rightarrow>
    (bool \<times> ('k, 'v) skip_list) result option" where
  "remove_loop key isMarked s =
     (case remove_body key isMarked s of
        Inl e \<Rightarrow> Some (Inl e)
      | Inr (Some r, _, s) \<Rightarrow> Some (Inr (r, s))
      | Inr (None, isMarked, s) \<Rightarrow> remove_loop key isMarked s)"

definition sl_remove :: "'k::linorder \<Rightarrow> ('k, 'v) skip_list \<Rightarrow> (bool \<times> ('k, 'v) skip_list) result" where
  "sl_remove key s = returned (remove_loop key False s)"

text \<open>The destructor: the nodes between head and tail, and then head and tail themselves.\<close>

partial_function (option) delete_walk :: "nat option \<Rightarrow> ('k, 'v) skip_list \<Rightarrow> ('k, 'v) skip_list result option" where
  "delete_walk node s =
     (if node \<noteq> None \<and> node \<noteq> Some (sl_tail s) then
        (case next_load node 0 s of
           Inl e \<Rightarrow> Some (Inl e)
         | Inr nx \<Rightarrow> delete_walk nx (s\<lparr>sl_heap := (sl_heap s)(the node := None)\<rparr>))
      else Some (Inr s))"

definition delete_skip_list :: "('k, 'v) skip_list \<Rightarrow> ('k, 'v) skip_list result" where
  "delete_skip_list s =
     bindR (next_load (Some (sl_head s)) 0 s) (\<lambda>node.
     bindR (returned (delete_walk node s)) (\<lambda>s.
     Inr (s\<lparr>sl_heap := (sl_heap s)(sl_head s := None, sl_tail s := None)\<rparr>)))"

section \<open>The list on level zero\<close>

definition nx0 :: "('k, 'v) skip_list \<Rightarrow> nat \<Rightarrow> nat option" where
  "nx0 s a = (case sl_heap s a of None \<Rightarrow> None | Some n \<Rightarrow> sn_next n ! 0)"

fun path :: "('k, 'v) skip_list \<Rightarrow> nat list \<Rightarrow> bool" where
  "path s (a # b # cs) = (nx0 s a = Some b \<and> path s (b # cs))"
| "path s cs = True"

definition node_ok :: "('k, 'v) skip_list \<Rightarrow> nat \<Rightarrow> 'k \<Rightarrow> nat \<Rightarrow> bool" where
  "node_ok s l k a = (\<exists>n. sl_heap s a = Some n \<and> sn_key n = k \<and> \<not> sn_marked n \<and> length (sn_next n) = l)"

text \<open>
  A list with the nodes \<open>ns\<close>, given by address and key: only level zero is in use, the path from
  the head to the tail visits the nodes in the order of their keys, and nothing is marked.
\<close>

definition sl_ok :: "'k::linorder \<Rightarrow> 'k \<Rightarrow> ('k, 'v) skip_list \<Rightarrow> (nat \<times> 'k) list \<Rightarrow> bool" where
  "sl_ok kmin kmax s ns \<longleftrightarrow>
     sl_level s = 1 \<and> sl_head s = 0 \<and> sl_tail s = 1 \<and>
     distinct (0 # 1 # map fst ns) \<and> 1 < sl_fresh s \<and> (\<forall>a \<in> fst ` set ns. a < sl_fresh s) \<and>
     node_ok s MAX_LEVEL kmin 0 \<and> node_ok s MAX_LEVEL kmax 1 \<and> (\<forall>(a, k) \<in> set ns. node_ok s 1 k a) \<and>
     path s (0 # map fst ns @ [1]) \<and> sorted_wrt (<) (map snd ns) \<and> (\<forall>k \<in> snd ` set ns. k < kmax)"

lemma path_split: "path s (us @ a # vs) \<longleftrightarrow> path s (us @ [a]) \<and> path s (a # vs)"
proof (induction us)
  case (Cons u us)
  then show ?case by (cases us) auto
qed simp

lemma path_first: "path s (p # xs @ [t]) \<Longrightarrow> nx0 s p = Some (hd (xs @ [t]))"
  by (cases xs) auto

lemma path_frame:
  assumes "\<And>a. a \<in> set (butlast cs) \<Longrightarrow> nx0 s' a = nx0 s a" shows "path s' cs = path s cs"
  using assms by (induction s cs rule: path.induct) auto

lemma node_ok_deref:
  assumes "node_ok s l k a"
  obtains n where "sl_deref (Some a) s = Inr n" "sn_key n = k" "\<not> sn_marked n" "length (sn_next n) = l"
    "sl_heap s a = Some n" "0 < l \<Longrightarrow> sn_next n ! 0 = nx0 s a"
  using assms by (auto simp: node_ok_def sl_deref_def nx0_def)

lemma next_load_0: "node_ok s l k a \<Longrightarrow> 0 < l \<Longrightarrow> next_load (Some a) 0 s = Inr (nx0 s a)"
  by (erule node_ok_deref) (simp add: next_load_def)

lemma sl_ok_nodes:
  assumes "sl_ok kmin kmax s ns" "a \<in> set (0 # map fst ns @ [1])"
  obtains l k where "node_ok s l k a" "0 < l"
proof -
  have m: "0 < MAX_LEVEL" by (simp add: MAX_LEVEL_def)
  consider "a = 0" | "a = 1" | k where "(a, k) \<in> set ns" using assms(2) by auto
  then show ?thesis
    using assms(1) m that by cases (auto simp: sl_ok_def)
qed

lemma find_walk_path:
  assumes "sl_ok kmin kmax s ns" "key \<le> kmax"
    and "path s (p # map fst (us @ vs) @ [1])" "set (us @ vs) \<subseteq> set ns"
    and "\<And>k. k \<in> snd ` set us \<Longrightarrow> k < key" "vs = [] \<or> key \<le> snd (hd vs)"
  shows "find_walk key 0 (Some p) (Some (hd (map fst (us @ vs) @ [1]))) s =
    Some (Inr (Some (last (p # map fst us)), Some (hd (map fst vs @ [1]))))"
  using assms(3-6)
proof (induction us arbitrary: p)
  case Nil
  show ?case
  proof (cases vs)
    case Nil
    obtain n where "sl_deref (Some 1) s = Inr n" "sn_key n = kmax" "\<not> sn_marked n"
      using assms(1) by (auto simp: sl_ok_def elim: node_ok_deref)
    then show ?thesis using Nil leD [OF assms(2)] by (subst find_walk.simps) simp
  next
    case (Cons v vs')
    then have "node_ok s 1 (snd v) (fst v)" using Nil.prems(2) assms(1) by (auto simp: sl_ok_def)
    then obtain n where "sl_deref (Some (fst v)) s = Inr n" "sn_key n = snd v" "\<not> sn_marked n"
      by (rule node_ok_deref)
    then show ?thesis using Cons Nil.prems(4) by (subst find_walk.simps) (auto simp: not_less [symmetric])
  qed
next
  case (Cons u us)
  have "node_ok s 1 (snd u) (fst u)" using Cons.prems(2) assms(1) by (auto simp: sl_ok_def)
  then obtain n where n: "sl_deref (Some (fst u)) s = Inr n" "sn_key n = snd u" "\<not> sn_marked n"
    "length (sn_next n) = 1" "sn_next n ! 0 = nx0 s (fst u)"
    by (rule node_ok_deref) simp
  have pt: "path s (fst u # map fst (us @ vs) @ [1])" using Cons.prems(1) by simp
  then have nx: "nx0 s (fst u) = Some (hd (map fst (us @ vs) @ [1]))" by (rule path_first)
  have "find_walk key 0 (Some (fst u)) (Some (hd (map fst (us @ vs) @ [1]))) s =
      Some (Inr (Some (last (fst u # map fst us)), Some (hd (map fst vs @ [1]))))"
    by (rule Cons.IH [OF pt]) (use Cons.prems in auto)
  then show ?case
    using n nx Cons.prems(3) by (subst find_walk.simps) simp
qed


text \<open>Every key splits the nodes into those below it and the others.\<close>

lemma split_at_key:
  fixes key :: "'k::linorder"
  obtains us vs where "ns = us @ vs" "\<And>k. k \<in> snd ` set us \<Longrightarrow> k < key" "vs = [] \<or> key \<le> snd (hd vs)"
proof
  show "ns = takeWhile (\<lambda>x. snd x < key) ns @ dropWhile (\<lambda>x. snd x < key) ns" by simp
  show "k \<in> snd ` set (takeWhile (\<lambda>x. snd x < key) ns) \<Longrightarrow> k < key" for k
    by (auto dest: set_takeWhileD)
  show "dropWhile (\<lambda>x. snd x < key) ns = [] \<or> key \<le> snd (hd (dropWhile (\<lambda>x. snd x < key) ns))"
    by (induction ns) (simp_all add: not_less)
qed

lemma sl_find_eq:
  assumes ok: "sl_ok kmin kmax s (us @ vs)" and key: "key \<le> kmax"
    and us: "\<And>k. k \<in> snd ` set us \<Longrightarrow> k < key" and vs: "vs = [] \<or> key \<le> snd (hd vs)"
  shows "sl_find key s = Inr ((replicate MAX_LEVEL None)[0 := Some (last (0 # map fst us))],
    (replicate MAX_LEVEL None)[0 := Some (hd (map fst vs @ [1]))])"
proof -
  have p: "path s (0 # map fst (us @ vs) @ [1])" and l: "sl_level s = 1" "sl_head s = 0"
    and h: "node_ok s MAX_LEVEL kmin 0"
    using ok by (auto simp: sl_ok_def)
  have "nx0 s 0 = Some (hd (map fst (us @ vs) @ [1]))" using p by (rule path_first)
  then have "next_load (Some 0) 0 s = Inr (Some (hd (map fst (us @ vs) @ [1])))"
    using next_load_0 [OF h] by (simp add: MAX_LEVEL_def)
  moreover have "find_walk key 0 (Some 0) (Some (hd (map fst (us @ vs) @ [1]))) s =
      Some (Inr (Some (last (0 # map fst us)), Some (hd (map fst vs @ [1]))))"
    by (rule find_walk_path [OF ok key p _ us vs]) simp_all
  ultimately show ?thesis
    by (simp add: sl_find_def l returned_def)
qed

text \<open>The node behind the search position holds the key exactly if the key is in the list.\<close>

lemma found_iff:
  assumes ok: "sl_ok kmin kmax s (us @ vs)" and key: "key < kmax"
    and us: "\<And>k. k \<in> snd ` set us \<Longrightarrow> k < key" and vs: "vs = [] \<or> key \<le> snd (hd vs)"
  obtains n where "sl_deref (Some (hd (map fst vs @ [1]))) s = Inr n" "\<not> sn_marked n"
    "sn_key n = key \<longleftrightarrow> key \<in> snd ` set (us @ vs)"
    "sn_key n = key \<Longrightarrow> \<exists>vs'. vs = (hd (map fst vs @ [1]), key) # vs' \<and> length (sn_next n) = 1"
proof (cases vs)
  case Nil
  obtain n where n: "sl_deref (Some 1) s = Inr n" "sn_key n = kmax" "\<not> sn_marked n"
    using ok by (auto simp: sl_ok_def elim: node_ok_deref)
  have "key \<notin> snd ` set us" using us by blast
  then show ?thesis using that [of n] n Nil key by auto
next
  case (Cons v vs')
  have "node_ok s 1 (snd v) (fst v)" using Cons ok by (auto simp: sl_ok_def)
  then obtain n where n: "sl_deref (Some (fst v)) s = Inr n" "sn_key n = snd v" "\<not> sn_marked n"
    "length (sn_next n) = 1"
    by (rule node_ok_deref)
  have "key \<notin> snd ` set us" using us by blast
  moreover have "key \<notin> snd ` set vs'"
  proof
    assume "key \<in> snd ` set vs'"
    then have "snd v < key" using ok Cons by (auto simp: sl_ok_def sorted_wrt_append)
    then show False using vs Cons by simp
  qed
  ultimately show ?thesis
    using that [of n] n Cons by (cases v) auto
qed

lemma path_after:
  assumes "path s (0 # us @ vs @ [1])"
  shows "nx0 s (last (0 # us)) = Some (hd (vs @ [1]))" "path s (vs @ [1])"
proof -
  have s1: "butlast (0 # us) @ [last (0 # us)] = 0 # us" by (rule append_butlast_last_id) simp
  have "path s ((butlast (0 # us) @ [last (0 # us)]) @ vs @ [1])" unfolding s1 using assms by simp
  then have "path s (last (0 # us) # vs @ [1])"
    using path_split [of s "butlast (0 # us)" "last (0 # us)" "vs @ [1]"] by simp
  then show "nx0 s (last (0 # us)) = Some (hd (vs @ [1]))" by (rule path_first)
  show "path s (vs @ [1])"
    using assms path_split [of s "0 # us" "hd (vs @ [1])" "tl (vs @ [1])"] by simp
qed

text \<open>
  Redirecting the successor of one node of the list, all else equal on the nodes that remain.
\<close>

lemma path_redirect:
  assumes p: "path s (0 # us @ vs @ [1])" and d: "distinct (0 # 1 # us @ vs)"
    and a: "nx0 s' (last (0 # us)) = Some (hd (ws @ [1]))" and ws: "path s' (ws @ [1])"
    and same: "\<And>x. x \<in> set (0 # us) \<Longrightarrow> x \<noteq> last (0 # us) \<Longrightarrow> nx0 s' x = nx0 s x"
  shows "path s' (0 # us @ ws @ [1])"
proof -
  have s1: "butlast (0 # us) @ [last (0 # us)] = 0 # us" by (rule append_butlast_last_id) simp
  have "path s ((butlast (0 # us) @ [last (0 # us)]) @ vs @ [1])" unfolding s1 using p by simp
  then have c: "path s (butlast (0 # us) @ [last (0 # us)])"
    using path_split [of s "butlast (0 # us)" "last (0 # us)" "vs @ [1]"] by simp
  have "distinct (butlast (0 # us) @ [last (0 # us)])" unfolding s1 using d by simp
  then have ne: "x \<noteq> last (0 # us)" if "x \<in> set (butlast (0 # us))" for x
    using that by auto
  have "path s' (butlast (0 # us) @ [last (0 # us)]) = path s (butlast (0 # us) @ [last (0 # us)])"
  proof (rule path_frame)
    fix x assume "x \<in> set (butlast (butlast (0 # us) @ [last (0 # us)]))"
    then have "x \<in> set (butlast (0 # us))" by simp
    then show "nx0 s' x = nx0 s x" using same ne in_set_butlastD by metis
  qed
  moreover have "path s' (last (0 # us) # ws @ [1])" using a ws by (cases ws) auto
  ultimately have "path s' (butlast (0 # us) @ last (0 # us) # ws @ [1])"
    using c path_split [of s' "butlast (0 # us)" "last (0 # us)" "ws @ [1]"] by simp
  then show ?thesis using s1 by (metis append.assoc append_Cons append_Nil)
qed

lemma next_store_0:
  assumes "node_ok s l k a" "0 < l"
  obtains s' where "next_store (Some a) 0 q s = Inr s'" "nx0 s' a = q"
    "\<And>x. x \<noteq> a \<Longrightarrow> sl_heap s' x = sl_heap s x" "\<And>x l' k'. node_ok s' l' k' x = node_ok s l' k' x"
    "sl_level s' = sl_level s" "sl_head s' = sl_head s" "sl_tail s' = sl_tail s" "sl_fresh s' = sl_fresh s"
proof -
  obtain n where n: "sl_deref (Some a) s = Inr n" "sn_key n = k" "\<not> sn_marked n" "length (sn_next n) = l"
    "sl_heap s a = Some n"
    using assms(1) by (rule node_ok_deref)
  let ?s = "sl_put a (n\<lparr>sn_next := (sn_next n)[0 := q]\<rparr>) s"
  have "next_store (Some a) 0 q s = Inr ?s" using n assms(2) by (simp add: next_store_def)
  then show ?thesis
    by (rule that) (use n assms(2) in \<open>auto simp: sl_put_def nx0_def node_ok_def\<close>)
qed

lemma node_ok_frame: "sl_heap s' x = sl_heap s x \<Longrightarrow> node_ok s' l k x = node_ok s l k x"
  by (simp add: node_ok_def)

lemma nx0_frame: "sl_heap s' x = sl_heap s x \<Longrightarrow> nx0 s' x = nx0 s x"
  by (simp add: nx0_def)

lemma add_absent:
  assumes ok: "sl_ok kmin kmax s (us @ vs)" and key: "key < kmax" "key \<notin> snd ` set (us @ vs)"
    and us: "\<And>k. k \<in> snd ` set us \<Longrightarrow> k < key" and vs: "vs = [] \<or> key \<le> snd (hd vs)"
  shows "\<exists>s'. add_body key v 1 s = Inr (Some True, s') \<and> sl_ok kmin kmax s' (us @ (sl_fresh s, key) # vs)"
proof -
  let ?p = "last (0 # map fst us)" and ?q = "hd (map fst vs @ [1])" and ?a = "sl_fresh s"
  have find: "sl_find key s = Inr ((replicate MAX_LEVEL None)[0 := Some ?p], (replicate MAX_LEVEL None)[0 := Some ?q])"
    by (rule sl_find_eq [OF ok less_imp_le [OF key(1)] us vs])
  obtain n where n: "sl_deref (Some ?q) s = Inr n" "sn_key n \<noteq> key"
    using found_iff [OF ok key(1) us vs] key(2) by metis
  let ?n = "(new_snode key v 1)\<lparr>sn_next := [Some ?q]\<rparr>"
  let ?s = "(sl_put ?a ?n s)\<lparr>sl_fresh := ?a + 1\<rparr>"
  have d: "distinct (0 # 1 # map fst us @ map fst vs)" and fr: "1 < ?a" "\<forall>x \<in> fst ` set (us @ vs). x < ?a"
    and lv: "sl_level s = 1" "sl_head s = 0" "sl_tail s = 1"
    and pth: "path s (0 # map fst us @ map fst vs @ [1])"
    and nodes: "node_ok s MAX_LEVEL kmin 0" "node_ok s MAX_LEVEL kmax 1" "\<forall>(a, k) \<in> set (us @ vs). node_ok s 1 k a"
    and srt: "sorted_wrt (<) (map snd (us @ vs))" "\<forall>k \<in> snd ` set (us @ vs). k < kmax"
    using ok by (auto simp: sl_ok_def)
  have pin: "?p \<in> set (0 # map fst us)" by (rule last_in_set) simp
  moreover have "x < ?a" if "x \<in> set (0 # map fst us)" for x using that fr by auto
  ultimately have "?p < ?a" by blast
  then have pa: "?p \<noteq> ?a" by simp
  obtain l k where pk: "node_ok s l k ?p" "0 < l"
    using sl_ok_nodes [OF ok, of ?p] pin by auto
  have h: "sl_heap ?s x = sl_heap s x" if "x \<noteq> ?a" for x using that by (simp add: sl_put_def)
  have pk': "node_ok ?s l k ?p" using pk node_ok_frame [OF h [OF pa]] by simp
  have nxp: "nx0 s ?p = Some ?q" using path_after(1) [OF pth] by simp
  have lock: "lock_preds 0 1 ((replicate MAX_LEVEL None)[0 := Some ?p]) [] ?s = Inr [?p]"
  proof -
    obtain m where "sl_deref (Some ?p) ?s = Inr m" using pk' by (rule node_ok_deref)
    then show ?thesis by (simp add: MAX_LEVEL_def)
  qed
  have val: "validate 0 1 ((replicate MAX_LEVEL None)[0 := Some ?p]) ((replicate MAX_LEVEL None)[0 := Some ?q]) ?s = Inr True"
    using next_load_0 [OF pk'] pk(2) nxp nx0_frame [OF h [OF pa]] by (simp add: MAX_LEVEL_def)
  obtain s' where s': "next_store (Some ?p) 0 (Some ?a) ?s = Inr s'" "nx0 s' ?p = Some ?a"
    "\<And>x. x \<noteq> ?p \<Longrightarrow> sl_heap s' x = sl_heap ?s x" "\<And>x l' k'. node_ok s' l' k' x = node_ok ?s l' k' x"
    "sl_level s' = sl_level ?s" "sl_head s' = sl_head ?s" "sl_tail s' = sl_tail ?s" "sl_fresh s' = sl_fresh ?s"
    using next_store_0 [OF pk' pk(2), of "Some ?a"] by blast
  let ?ps = "(replicate MAX_LEVEL None)[0 := Some ?p]" and ?qs = "(replicate MAX_LEVEL None)[0 := Some ?q]"
  have v0: "vec_at ?qs 0 = Inr (Some ?q)" "take 1 ?qs = [Some ?q]"
    by (simp_all add: MAX_LEVEL_def take_Suc_conv_app_nth)
  have link: "link_preds 0 1 ?ps ?a ?s = Inr s'" using s'(1) by (simp add: MAX_LEVEL_def)
  have body: "add_body key v 1 s = Inr (Some True, s'\<lparr>sl_level := max (sl_level s') 1\<rparr>)"
    unfolding add_body_def find bindR_Inr split v0 n(1) Let_def lock val link
    using n(2) by (simp only: simp_thms if_False bindR_Inr)
  have nok: "node_ok s' l' k' x = node_ok s l' k' x" if "x \<noteq> ?a" for x l' k'
    using s'(4) node_ok_frame [OF h [OF that]] by simp
  have new: "node_ok s' 1 key ?a" "nx0 s' ?a = Some ?q"
    using s'(3) [of ?a] pa by (auto simp: node_ok_def nx0_def sl_put_def new_snode_def)
  have nx: "nx0 s' x = nx0 s x" if "x \<noteq> ?a" "x \<noteq> ?p" for x
    using nx0_frame [OF s'(3) [OF that(2)]] nx0_frame [OF h [OF that(1)]] by simp
  have fresh: "?a \<noteq> 0" "?a \<noteq> 1" "?a \<notin> fst ` set (us @ vs)"
    using fr(1) less_irrefl fr(2) by (simp, simp, blast)
  have "path s' (map fst vs @ [1])"
  proof -
    have "path s (map fst vs @ [1])" by (rule path_after(2) [OF pth])
    moreover have "nx0 s' x = nx0 s x" if x: "x \<in> set (butlast (map fst vs @ [1]))" for x
    proof -
      have x: "x \<in> set (map fst vs)" using x by simp
      have "set (0 # map fst us) \<inter> set (map fst vs) = {}" using d by simp
      then have "x \<noteq> ?p" using x pin by blast
      moreover have "x \<noteq> ?a" using x fresh(3) by force
      ultimately show ?thesis by (intro nx)
    qed
    ultimately show ?thesis using path_frame by metis
  qed
  then have "path s' ((?a # map fst vs) @ [1])" using new(2) by (cases "map fst vs") auto
  then have "path s' (0 # map fst us @ (?a # map fst vs) @ [1])"
    using s'(2) fresh d by (intro path_redirect [OF pth]) (auto intro!: nx)
  moreover have "sorted_wrt (<) (map snd (us @ (?a, key) # vs))"
  proof -
    have "key < k" if "k \<in> snd ` set vs" for k
    proof (cases vs)
      case (Cons w ws)
      then have "snd w \<le> k" using srt(1) that by (auto simp: sorted_wrt_append)
      then show ?thesis using vs Cons key(2) that by (metis dual_order.not_eq_order_implies_strict
            image_eqI list.discI list.sel(1) list.set_intros(1) order_less_le_trans set_append Un_iff)
    qed (use that in simp)
    then show ?thesis using srt(1) us by (auto simp: sorted_wrt_append)
  qed
  moreover have "\<forall>(a, k) \<in> set (us @ (?a, key) # vs). node_ok s' 1 k a"
  proof -
    have "node_ok s' 1 k a" if "(a, k) \<in> set (us @ vs)" for a k
    proof -
      have "a \<noteq> ?a" using that fresh(3) by force
      then show ?thesis using nodes(3) nok that by auto
    qed
    then show ?thesis using new(1) by auto
  qed
  moreover have "node_ok s' MAX_LEVEL kmin 0" "node_ok s' MAX_LEVEL kmax 1"
    using nodes(1,2) nok fresh(1,2) by auto
  moreover have f: "sl_level s' = 1" "sl_head s' = 0" "sl_tail s' = 1" "sl_fresh s' = ?a + 1"
    using s'(5-8) lv by (simp_all add: sl_put_def)
  moreover have "\<forall>x \<in> fst ` set (us @ (?a, key) # vs). x < ?a + 1" using fr(2) by (auto simp: less_Suc_eq)
  moreover have "distinct (0 # 1 # map fst (us @ (?a, key) # vs))" using d fresh by auto
  ultimately have "sl_ok kmin kmax s' (us @ (?a, key) # vs)"
    using srt(2) key(1) fr(1) by (auto simp: sl_ok_def)
  moreover have "s'\<lparr>sl_level := max (sl_level s') 1\<rparr> = s'" using f(1) by (cases s') simp
  ultimately show ?thesis using body by auto
qed

lemma remove_present:
  assumes ok: "sl_ok kmin kmax s (us @ (a, key) # vs)" and us: "\<And>k. k \<in> snd ` set us \<Longrightarrow> k < key"
  shows "\<exists>s'. remove_body key False s = Inr (Some True, True, s') \<and> sl_ok kmin kmax s' (us @ vs)"
proof -
  let ?p = "last (0 # map fst us)" and ?q = "hd (map fst vs @ [1])"
  let ?ps = "(replicate MAX_LEVEL None)[0 := Some ?p]" and ?qs = "(replicate MAX_LEVEL None)[0 := Some a]"
  have d: "distinct (0 # 1 # map fst us @ a # map fst vs)" and fr: "1 < sl_fresh s"
      "\<forall>x \<in> fst ` set (us @ (a, key) # vs). x < sl_fresh s"
    and lv: "sl_level s = 1" "sl_head s = 0" "sl_tail s = 1"
    and pth: "path s (0 # map fst us @ (a # map fst vs) @ [1])"
    and nodes: "node_ok s MAX_LEVEL kmin 0" "node_ok s MAX_LEVEL kmax 1"
      "\<forall>(a, k) \<in> set (us @ (a, key) # vs). node_ok s 1 k a"
    and srt: "sorted_wrt (<) (map snd (us @ (a, key) # vs))" "\<forall>k \<in> snd ` set (us @ (a, key) # vs). k < kmax"
    using ok by (auto simp: sl_ok_def)
  have key: "key < kmax" using srt(2) by simp
  have find: "sl_find key s = Inr (?ps, ?qs)"
    using sl_find_eq [OF ok less_imp_le [OF key] us] by simp
  have "node_ok s 1 key a" using nodes(3) by simp
  then obtain n where n: "sl_deref (Some a) s = Inr n" "sn_key n = key" "\<not> sn_marked n" "length (sn_next n) = 1"
    "sl_heap s a = Some n" "sn_next n ! 0 = nx0 s a"
    by (rule node_ok_deref) simp
  have nxa: "nx0 s a = Some ?q"
    using path_after(2) [OF pth] path_first [of s a "map fst vs" 1] by simp
  let ?s = "sl_put a (n\<lparr>sn_marked := True\<rparr>) s"
  have h: "sl_heap ?s x = sl_heap s x" if "x \<noteq> a" for x using that by (simp add: sl_put_def)
  have pin: "?p \<in> set (0 # map fst us)" by (rule last_in_set) simp
  have disj: "a \<notin> set (0 # map fst us)" "set (0 # map fst us) \<inter> set (map fst vs) = {}"
    "a \<notin> set (map fst vs)" "a \<noteq> 1"
    using d by simp_all
  have pa: "?p \<noteq> a" using pin disj(1) by blast
  obtain l k where pk: "node_ok s l k ?p" "0 < l"
    using sl_ok_nodes [OF ok, of ?p] pin by auto
  have pk': "node_ok ?s l k ?p" using pk node_ok_frame [OF h [OF pa]] by simp
  have nxp: "nx0 ?s ?p = Some a" using path_after(1) [OF pth] nx0_frame [OF h [OF pa]] by simp
  have v0: "vec_at ?qs 0 = Inr (Some a)" by (simp add: MAX_LEVEL_def)
  have lock: "lock_preds 0 1 ?ps [] ?s = Inr [?p]"
  proof -
    obtain m where "sl_deref (Some ?p) ?s = Inr m" using pk' by (rule node_ok_deref)
    then show ?thesis by (simp add: MAX_LEVEL_def)
  qed
  have val: "validate 0 1 ?ps (replicate 1 (Some a)) ?s = Inr True"
    using next_load_0 [OF pk' pk(2)] nxp by (simp add: MAX_LEVEL_def)
  obtain s' where s': "next_store (Some ?p) 0 (Some ?q) ?s = Inr s'" "nx0 s' ?p = Some ?q"
    "\<And>x. x \<noteq> ?p \<Longrightarrow> sl_heap s' x = sl_heap ?s x" "\<And>x l' k'. node_ok s' l' k' x = node_ok ?s l' k' x"
    "sl_level s' = sl_level ?s" "sl_head s' = sl_head ?s" "sl_tail s' = sl_tail ?s" "sl_fresh s' = sl_fresh ?s"
    using next_store_0 [OF pk' pk(2), of "Some ?q"] by blast
  have "next_load (Some a) 0 ?s = Inr (Some ?q)"
    using n(4,6) nxa by (simp add: next_load_def sl_deref_def sl_put_def)
  then have unl: "unlink_preds 1 ?ps (Some a) ?s = Inr s'" using s'(1) by (simp add: MAX_LEVEL_def)
  let ?t = "s'\<lparr>sl_heap := (sl_heap s')(a := None)\<rparr>"
  have body: "remove_body key False s = Inr (Some True, True, ?t)"
    unfolding remove_body_def find bindR_Inr split v0 n(1) Let_def n(2,4) option.sel
    using n(3) lock val unl by simp
  have nok: "node_ok ?t l' k' x = node_ok s l' k' x" if "x \<noteq> a" for x l' k'
  proof -
    have "node_ok ?t l' k' x = node_ok s' l' k' x" using that by (intro node_ok_frame) simp
    then show ?thesis using s'(4) node_ok_frame [OF h [OF that]] by simp
  qed
  have nx: "nx0 ?t x = nx0 s x" if "x \<noteq> a" "x \<noteq> ?p" for x
  proof -
    have "nx0 ?t x = nx0 s' x" using that by (intro nx0_frame) simp
    then show ?thesis using nx0_frame [OF s'(3) [OF that(2)]] nx0_frame [OF h [OF that(1)]] by simp
  qed
  have tp: "nx0 ?t ?p = Some ?q"
  proof -
    have "nx0 ?t ?p = nx0 s' ?p" using pa by (intro nx0_frame) simp
    then show ?thesis using s'(2) by simp
  qed
  have "path ?t (map fst vs @ [1])"
  proof -
    have "path s (map fst vs @ [1])" using path_after(2) [OF pth] by (cases "map fst vs") auto
    moreover have "nx0 ?t x = nx0 s x" if x: "x \<in> set (butlast (map fst vs @ [1]))" for x
    proof -
      have x: "x \<in> set (map fst vs)" using x by simp
      have "x \<noteq> ?p" using x pin disj(2) by blast
      moreover have "x \<noteq> a" using x disj(3) by blast
      ultimately show ?thesis by (intro nx)
    qed
    ultimately show ?thesis using path_frame by metis
  qed
  then have "path ?t (0 # map fst us @ map fst vs @ [1])"
    using tp disj(1) d by (intro path_redirect [OF pth]) (auto intro!: nx simp del: fun_upd_apply)
  moreover have "\<forall>(x, k) \<in> set (us @ vs). node_ok ?t 1 k x"
  proof -
    have "node_ok ?t 1 k x" if "(x, k) \<in> set (us @ vs)" for x k
    proof -
      have "x \<noteq> a" using that disj(1,3) by force
      moreover have "node_ok s 1 k x" using nodes(3) that by fastforce
      ultimately show ?thesis using nok by blast
    qed
    then show ?thesis by auto
  qed
  moreover have "node_ok ?t MAX_LEVEL kmin 0" "node_ok ?t MAX_LEVEL kmax 1"
    using nodes(1,2) nok disj(1,4) by auto
  moreover have "sl_level ?t = 1" "sl_head ?t = 0" "sl_tail ?t = 1" "sl_fresh ?t = sl_fresh s"
    using s'(5-8) lv by (simp_all add: sl_put_def)
  moreover have "sorted_wrt (<) (map snd (us @ vs))" using srt(1) by (auto simp: sorted_wrt_append)
  ultimately have "sl_ok kmin kmax ?t (us @ vs)"
    using srt(2) fr d by (auto simp: sl_ok_def)
  then show ?thesis using body by blast
qed


lemma sl_ok_pred:
  assumes "sl_ok kmin kmax s (us @ vs)"
  obtains l k where "node_ok s l k (last (0 # map fst us))" "0 < l"
proof -
  have "last (0 # map fst us) \<in> set (0 # map fst us)" by (rule last_in_set) simp
  moreover have "set (0 # map fst us) \<subseteq> set (0 # map fst (us @ vs) @ [1])" by auto
  ultimately have "last (0 # map fst us) \<in> set (0 # map fst (us @ vs) @ [1])" by blast
  then show ?thesis using that by (rule sl_ok_nodes [OF assms])
qed

lemma remove_absent:
  assumes ok: "sl_ok kmin kmax s (us @ vs)" and key: "key < kmax" "key \<notin> snd ` set (us @ vs)"
    and us: "\<And>k. k \<in> snd ` set us \<Longrightarrow> k < key" and vs: "vs = [] \<or> key \<le> snd (hd vs)"
  shows "remove_body key False s = Inr (Some False, False, s)"
proof -
  let ?qs = "(replicate MAX_LEVEL None)[0 := Some (hd (map fst vs @ [1]))]"
  obtain n where n: "sl_deref (Some (hd (map fst vs @ [1]))) s = Inr n" "sn_key n \<noteq> key"
    using found_iff [OF ok key(1) us vs] key(2) by metis
  have v0: "vec_at ?qs 0 = Inr (Some (hd (map fst vs @ [1])))" by (simp add: MAX_LEVEL_def)
  have find: "sl_find key s = Inr ((replicate MAX_LEVEL None)[0 := Some (last (0 # map fst us))],
    (replicate MAX_LEVEL None)[0 := Some (hd (map fst vs @ [1]))])"
    by (rule sl_find_eq [OF ok less_imp_le [OF key(1)] us vs])
  show ?thesis
    unfolding remove_body_def find bindR_Inr split v0 n(1)
    using n(2) by simp
qed

lemma add_present:
  assumes ok: "sl_ok kmin kmax s (us @ vs)" and key: "key < kmax" "key \<in> snd ` set (us @ vs)"
    and us: "\<And>k. k \<in> snd ` set us \<Longrightarrow> k < key" and vs: "vs = [] \<or> key \<le> snd (hd vs)"
  shows "add_body key v t s = Inr (Some False, s)"
proof -
  let ?qs = "(replicate MAX_LEVEL None)[0 := Some (hd (map fst vs @ [1]))]"
  obtain n where n: "sl_deref (Some (hd (map fst vs @ [1]))) s = Inr n" "sn_key n = key" "\<not> sn_marked n"
    using found_iff [OF ok key(1) us vs] key(2) by metis
  have v0: "vec_at ?qs 0 = Inr (Some (hd (map fst vs @ [1])))" by (simp add: MAX_LEVEL_def)
  have find: "sl_find key s = Inr ((replicate MAX_LEVEL None)[0 := Some (last (0 # map fst us))],
    (replicate MAX_LEVEL None)[0 := Some (hd (map fst vs @ [1]))])"
    by (rule sl_find_eq [OF ok less_imp_le [OF key(1)] us vs])
  show ?thesis
    unfolding add_body_def find bindR_Inr split v0 n(1)
    using n(2,3) by simp
qed

text \<open>
  A node drawn with two or more levels: only the predecessor on level zero is known, the
  other entries are null, and locking the second one goes through a null pointer.
\<close>

lemma add_two_levels:
  assumes ok: "sl_ok kmin kmax s (us @ vs)" and key: "key < kmax" "key \<notin> snd ` set (us @ vs)"
    and us: "\<And>k. k \<in> snd ` set us \<Longrightarrow> k < key" and vs: "vs = [] \<or> key \<le> snd (hd vs)"
  shows "add_body key v (Suc (Suc t)) s = Inl NullDeref"
proof -
  let ?p = "last (0 # map fst us)" and ?q = "hd (map fst vs @ [1])"
  let ?ps = "(replicate MAX_LEVEL None)[0 := Some ?p]" and ?qs = "(replicate MAX_LEVEL None)[0 := Some ?q]"
  obtain n where n: "sl_deref (Some ?q) s = Inr n" "sn_key n \<noteq> key"
    using found_iff [OF ok key(1) us vs] key(2) by metis
  have v0: "vec_at ?qs 0 = Inr (Some ?q)" by (simp add: MAX_LEVEL_def)
  obtain l k where pk: "node_ok s l k ?p" by (rule sl_ok_pred [OF ok])
  have lock: "lock_preds 0 (Suc (Suc t)) ?ps [] s' = Inl NullDeref"
    if hp: "sl_heap s' ?p \<noteq> None" for s' :: "('a, 'b) skip_list"
  proof -
    obtain m where "sl_deref (Some ?p) s' = Inr m" using hp by (auto simp: sl_deref_def)
    then show ?thesis by (simp add: MAX_LEVEL_def sl_deref_def)
  qed
  have find: "sl_find key s = Inr ((replicate MAX_LEVEL None)[0 := Some (last (0 # map fst us))],
    (replicate MAX_LEVEL None)[0 := Some (hd (map fst vs @ [1]))])"
    by (rule sl_find_eq [OF ok less_imp_le [OF key(1)] us vs])
  have "sl_heap s ?p \<noteq> None" using pk by (auto simp: node_ok_def)
  then show ?thesis
    unfolding add_body_def find bindR_Inr split v0 n(1) Let_def
    using n(2) by (subst lock) (simp_all add: sl_put_def)
qed

lemma contains_walk_path:
  assumes "sl_ok kmin kmax s ns" "key \<le> kmax"
    and "path s (p # map fst (us @ vs) @ [1])" "set (us @ vs) \<subseteq> set ns" "p = 0 \<or> p \<in> fst ` set ns"
    and "\<And>k. k \<in> snd ` set us \<Longrightarrow> k < key" "vs = [] \<or> key \<le> snd (hd vs)"
  shows "contains_walk key 0 (Some p) s = Some (Inr (Some (last (p # map fst us))))"
  using assms(3-7)
proof (induction us arbitrary: p)
  case Nil
  obtain l k where "node_ok s l k p" "0 < l"
    using sl_ok_nodes [OF assms(1), of p] Nil.prems(3) by auto
  then have nl: "next_load (Some p) 0 s = Inr (Some (hd (map fst vs @ [1])))"
    using next_load_0 path_first [OF Nil.prems(1)] by fastforce
  show ?case
  proof (cases vs)
    case Nil
    obtain n where "sl_deref (Some 1) s = Inr n" "sn_key n = kmax" "\<not> sn_marked n"
      using assms(1) by (auto simp: sl_ok_def elim: node_ok_deref)
    then show ?thesis using Nil nl leD [OF assms(2)] by (subst contains_walk.simps) simp
  next
    case (Cons v vs')
    then have "node_ok s 1 (snd v) (fst v)" using Nil.prems(2) assms(1) by (auto simp: sl_ok_def)
    then obtain n where "sl_deref (Some (fst v)) s = Inr n" "sn_key n = snd v" by (rule node_ok_deref)
    then show ?thesis using Cons nl Nil.prems(5) by (subst contains_walk.simps) (auto simp: not_less [symmetric])
  qed
next
  case (Cons u us)
  obtain l k where "node_ok s l k p" "0 < l"
    using sl_ok_nodes [OF assms(1), of p] Cons.prems(3) by auto
  then have nl: "next_load (Some p) 0 s = Inr (Some (fst u))"
    using next_load_0 path_first [OF Cons.prems(1)] by fastforce
  have "node_ok s 1 (snd u) (fst u)" using Cons.prems(2) assms(1) by (auto simp: sl_ok_def)
  then obtain n where n: "sl_deref (Some (fst u)) s = Inr n" "sn_key n = snd u" by (rule node_ok_deref)
  have "contains_walk key 0 (Some (fst u)) s = Some (Inr (Some (last (fst u # map fst us))))"
    by (rule Cons.IH) (use Cons.prems in auto)
  then show ?case using n nl Cons.prems(4) by (subst contains_walk.simps) simp
qed

lemma contains_eq:
  assumes ok: "sl_ok kmin kmax s ns" and key: "key < kmax"
  shows "sl_contains key s = Inr (key \<in> snd ` set ns)"
proof -
  obtain us vs where ns: "ns = us @ vs" and us: "\<And>k. k \<in> snd ` set us \<Longrightarrow> k < key"
    and vs: "vs = [] \<or> key \<le> snd (hd vs)"
    using split_at_key by blast
  have p: "path s (0 # map fst us @ map fst vs @ [1])" and l: "sl_level s = 1" "sl_head s = 0"
    using ok ns by (auto simp: sl_ok_def)
  have w: "contains_walk key 0 (Some 0) s = Some (Inr (Some (last (0 # map fst us))))"
    by (rule contains_walk_path [OF ok less_imp_le [OF key] _ _ _ us vs]) (use p ns in simp_all)
  obtain l' k' where pk: "node_ok s l' k' (last (0 # map fst us))" "0 < l'"
    by (rule sl_ok_pred [OF ok [unfolded ns]])
  have nl: "next_load (Some (last (0 # map fst us))) 0 s = Inr (Some (hd (map fst vs @ [1])))"
    using next_load_0 [OF pk] path_after(1) [OF p] by simp
  obtain n where n: "sl_deref (Some (hd (map fst vs @ [1]))) s = Inr n" "\<not> sn_marked n"
    "sn_key n = key \<longleftrightarrow> key \<in> snd ` set (us @ vs)"
    using found_iff [OF ok [unfolded ns] key us vs] by blast
  have c: "contains_levels key (sl_level s) (Some (sl_head s)) s = Inr (Some (last (0 # map fst us)))"
    using w by (simp add: l returned_def)
  show ?thesis
    unfolding sl_contains_def c bindR_Inr nl option.case n(1) ns using n(2,3) by blast
qed

section \<open>Sequences of operations\<close>

text \<open>
  A client that adds, removes and asks for keys below the greatest key; the state carries the
  answers given so far.  The contract demands that an absent key is added with a node
  of one level.
\<close>

datatype ('k, 'v) sl_op = AddKey "bool list" 'k 'v | RemoveKey 'k | Contains 'k

fun sl_step :: "('k::linorder, 'v) sl_op \<Rightarrow> ('k, 'v) skip_list \<times> bool list \<Rightarrow>
    (('k, 'v) skip_list \<times> bool list) result" where
  "sl_step (AddKey flips k v) (s, out) = bindR (sl_add flips k v s) (\<lambda>(r, s). Inr (s, out @ [r]))"
| "sl_step (RemoveKey k) (s, out) = bindR (sl_remove k s) (\<lambda>(r, s). Inr (s, out @ [r]))"
| "sl_step (Contains k) (s, out) = bindR (sl_contains k s) (\<lambda>r. Inr (s, out @ [r]))"

fun set_step :: "'k::linorder \<Rightarrow> ('k, 'v) sl_op \<Rightarrow> 'k set \<times> bool list \<Rightarrow> ('k set \<times> bool list) option" where
  "set_step kmax (AddKey flips k v) (K, out) =
     (if \<not> k < kmax then None
      else if k \<in> K then Some (K, out @ [False])
      else if randomLevel flips = 1 then Some (insert k K, out @ [True]) else None)"
| "set_step kmax (RemoveKey k) (K, out) =
     (if k < kmax then Some (K - {k}, out @ [k \<in> K]) else None)"
| "set_step kmax (Contains k) (K, out) =
     (if k < kmax then Some (K, out @ [k \<in> K]) else None)"

definition sl_repr :: "'k::linorder \<Rightarrow> 'k \<Rightarrow> ('k, 'v) skip_list \<times> bool list \<Rightarrow> 'k set \<times> bool list \<Rightarrow> bool" where
  "sl_repr kmin kmax x y \<longleftrightarrow> snd x = snd y \<and> (\<exists>ns. sl_ok kmin kmax (fst x) ns \<and> fst y = snd ` set ns)"

lemma sl_add_ok:
  assumes ok: "sl_ok kmin kmax s ns" and key: "key < kmax"
  shows "key \<in> snd ` set ns \<Longrightarrow> sl_add flips key v s = Inr (False, s)"
    and "key \<notin> snd ` set ns \<Longrightarrow> randomLevel flips = 1 \<Longrightarrow>
      \<exists>s' ns'. sl_add flips key v s = Inr (True, s') \<and> sl_ok kmin kmax s' ns' \<and>
        snd ` set ns' = insert key (snd ` set ns)"
    and "key \<notin> snd ` set ns \<Longrightarrow> 2 \<le> randomLevel flips \<Longrightarrow> sl_add flips key v s = Inl NullDeref"
proof -
  obtain us vs where ns: "ns = us @ vs" and us: "\<And>k. k \<in> snd ` set us \<Longrightarrow> k < key"
    and vs: "vs = [] \<or> key \<le> snd (hd vs)"
    using split_at_key by blast
  note ok' = ok [unfolded ns]
  show "sl_add flips key v s = Inr (False, s)" if "key \<in> snd ` set ns"
    using add_present [OF ok' key that [unfolded ns] us vs]
    by (simp add: sl_add_def returned_def add_loop.simps)
  show "\<exists>s' ns'. sl_add flips key v s = Inr (True, s') \<and> sl_ok kmin kmax s' ns' \<and>
        snd ` set ns' = insert key (snd ` set ns)" if k: "key \<notin> snd ` set ns" and l: "randomLevel flips = 1"
  proof -
    obtain s' where s': "add_body key v 1 s = Inr (Some True, s')" "sl_ok kmin kmax s' (us @ (sl_fresh s, key) # vs)"
      using add_absent [OF ok' key k [unfolded ns] us vs] by blast
    then have "sl_add flips key v s = Inr (True, s')"
      using l by (simp add: sl_add_def returned_def add_loop.simps)
    then show ?thesis using s'(2) ns by (intro exI conjI) auto
  qed
  show "sl_add flips key v s = Inl NullDeref" if k: "key \<notin> snd ` set ns" and l: "2 \<le> randomLevel flips"
  proof -
    obtain t where "randomLevel flips = Suc (Suc t)" using l by (metis add_2_eq_Suc le_Suc_ex)
    then show ?thesis
      using add_two_levels [OF ok' key k [unfolded ns] us vs, of v t]
      by (simp add: sl_add_def returned_def add_loop.simps)
  qed
qed

lemma sl_remove_ok:
  assumes ok: "sl_ok kmin kmax s ns" and key: "key < kmax"
  shows "\<exists>s' ns'. sl_remove key s = Inr (key \<in> snd ` set ns, s') \<and> sl_ok kmin kmax s' ns' \<and>
    snd ` set ns' = snd ` set ns - {key}"
proof -
  obtain us vs where ns: "ns = us @ vs" and us: "\<And>k. k \<in> snd ` set us \<Longrightarrow> k < key"
    and vs: "vs = [] \<or> key \<le> snd (hd vs)"
    using split_at_key by blast
  note ok' = ok [unfolded ns]
  show ?thesis
  proof (cases "key \<in> snd ` set ns")
    case False
    then have "sl_remove key s = Inr (False, s)"
      using remove_absent [OF ok' key _ us vs] ns by (simp add: sl_remove_def returned_def remove_loop.simps)
    then show ?thesis using False ok by (intro exI [of _ s] exI [of _ ns]) auto
  next
    case True
    obtain n where n: "sl_deref (Some (hd (map fst vs @ [1]))) s = Inr n" "\<not> sn_marked n"
      "sn_key n = key \<longleftrightarrow> key \<in> snd ` set (us @ vs)"
      "sn_key n = key \<Longrightarrow> \<exists>vs'. vs = (hd (map fst vs @ [1]), key) # vs' \<and> length (sn_next n) = 1"
      using found_iff [OF ok' key us vs] by blast
    then obtain a vs' where v: "vs = (a, key) # vs'" using True ns by blast
    obtain s' where s': "remove_body key False s = Inr (Some True, True, s')" "sl_ok kmin kmax s' (us @ vs')"
      using remove_present [OF ok' [unfolded v] us] by blast
    have "key \<notin> snd ` set us" "key \<notin> snd ` set vs'"
      using ok' v us by (auto simp: sl_ok_def sorted_wrt_append)
    moreover have "sl_remove key s = Inr (True, s')"
      using s'(1) by (simp add: sl_remove_def returned_def remove_loop.simps)
    ultimately show ?thesis using s'(2) True ns v by (intro exI [of _ s'] exI [of _ "us @ vs'"]) auto
  qed
qed

lemma sl_step_ok:
  assumes r: "sl_repr kmin kmax x y" and s: "set_step kmax c y = Some y'"
  shows "\<exists>x'. sl_step c x = Inr x' \<and> sl_repr kmin kmax x' y'"
proof -
  obtain st out where x: "x = (st, out)" by (cases x)
  obtain ns where ok: "sl_ok kmin kmax st ns" and y: "y = (snd ` set ns, out)"
    using r x by (cases y) (auto simp: sl_repr_def)
  show ?thesis
  proof (cases c)
    case (AddKey flips k v)
    have k: "k < kmax" using s AddKey y by (auto split: if_splits)
    show ?thesis
    proof (cases "k \<in> snd ` set ns")
      case True
      then show ?thesis
        using s AddKey y k ok x sl_add_ok(1) [OF ok k True, of flips v] by (auto simp: sl_repr_def)
    next
      case False
      then have l: "randomLevel flips = 1" and y': "y' = (insert k (snd ` set ns), out @ [True])"
        using s AddKey y k by (auto split: if_splits)
      obtain s' ns' where "sl_add flips k v st = Inr (True, s')" "sl_ok kmin kmax s' ns'"
        "insert k (snd ` set ns) = snd ` set ns'"
        using sl_add_ok(2) [OF ok k False l, of v] by metis
      then show ?thesis using AddKey x y' by (auto simp: sl_repr_def)
    qed
  next
    case (RemoveKey k)
    then have k: "k < kmax" and y': "y' = (snd ` set ns - {k}, out @ [k \<in> snd ` set ns])"
      using s y by (auto split: if_splits)
    obtain s' ns' where "sl_remove k st = Inr (k \<in> snd ` set ns, s')" "sl_ok kmin kmax s' ns'"
      "snd ` set ns - {k} = snd ` set ns'"
      using sl_remove_ok [OF ok k] by metis
    then show ?thesis using RemoveKey x y' by (auto simp: sl_repr_def)
  next
    case (Contains k)
    then have k: "k < kmax" and y': "y' = (snd ` set ns, out @ [k \<in> snd ` set ns])"
      using s y by (auto split: if_splits)
    show ?thesis using contains_eq [OF ok k] Contains x y' ok by (auto simp: sl_repr_def)
  qed
qed

interpretation skl: contract_simulation sl_step "set_step kmax" "sl_repr kmin kmax"
  for kmin kmax :: "'k::linorder"
  by unfold_locales (rule sl_step_ok)

lemma sl_ok_new: "sl_ok kmin kmax (new_skip_list kmin kmax v0) []"
  by (simp add: sl_ok_def new_skip_list_def node_ok_def nx0_def new_snode_def MAX_LEVEL_def)

text \<open>
  C8: Any sequence of additions, removals and queries of keys below the greatest key, in which
  absent keys are drawn with one level, returns and answers as a set: an addition
  tells whether the key was absent, a removal whether it was present.  Afterwards \<^verbatim>\<open>contains\<close> decides
  membership, and adding an absent key whose node is drawn with two or more levels goes through
  a null pointer, since \<^verbatim>\<open>find\<close> fills the predecessors below the current level only.
\<close>

theorem skip_list_refines_set:
  assumes "run_contract (set_step kmax) cs ({}, []) = Some (K, out)"
  shows "\<exists>s. run_calls sl_step cs (new_skip_list kmin kmax v0, []) = Inr (s, out) \<and>
    (\<forall>k < kmax. sl_contains k s = Inr (k \<in> K)) \<and>
    (\<forall>k v flips. k < kmax \<longrightarrow> k \<notin> K \<longrightarrow> 2 \<le> randomLevel flips \<longrightarrow> sl_add flips k v s = Inl NullDeref)"
proof -
  have "sl_repr kmin kmax (new_skip_list kmin kmax v0, []) ({}, [])"
    using sl_ok_new [of kmin kmax v0] by (auto simp: sl_repr_def)
  from skl.calls_simulate [OF this assms] obtain s ns
    where s: "run_calls sl_step cs (new_skip_list kmin kmax v0, []) = Inr (s, out)"
      and ok: "sl_ok kmin kmax s ns" and K: "K = snd ` set ns"
    by (auto simp: sl_repr_def)
  have "sl_contains k s = Inr (k \<in> K)" if "k < kmax" for k
    unfolding K by (rule contains_eq [OF ok that])
  moreover have "sl_add flips k v s = Inl NullDeref" if "k < kmax" "k \<notin> K" "2 \<le> randomLevel flips" for k v flips
    using sl_add_ok(3) [OF ok that(1)] that(2,3) K by blast
  ultimately show ?thesis using s by blast
qed

theorem skip_list_refines_set_witness:
  "\<exists>s. run_calls sl_step [AddKey [False] 5 ''a'', AddKey [] 3 ''b'', AddKey [True] 5 ''c'', RemoveKey 3, Contains 5]
       (new_skip_list (-100) (100 :: int) [], []) = Inr (s, [True, True, False, True, True]) \<and>
     sl_contains 3 s = Inr False \<and> sl_add [True] 7 ''x'' s = Inl NullDeref"
proof -
  let ?cs = "[AddKey [False] 5 ''a'', AddKey [] 3 ''b'', AddKey [True] 5 ''c'', RemoveKey 3, Contains (5 :: int)]"
  have c: "run_contract (set_step 100) ?cs ({}, []) = Some ({5}, [True, True, False, True, True])"
    by (simp add: randomLevel_def)
  obtain s where "run_calls sl_step ?cs (new_skip_list (-100) 100 [], []) = Inr (s, [True, True, False, True, True])"
    and "\<forall>k < 100. sl_contains k s = Inr (k \<in> {5})"
    and "\<forall>k v flips. k < 100 \<longrightarrow> k \<notin> {5} \<longrightarrow> 2 \<le> randomLevel flips \<longrightarrow> sl_add flips k v s = Inl NullDeref"
    using skip_list_refines_set [OF c, of "-100" "[]"] by blast
  moreover have "2 \<le> randomLevel [True]" by (simp add: randomLevel_def MAX_LEVEL_def)
  ultimately show ?thesis by (intro exI [of _ s] conjI) simp_all
qed

end
