(* ===== verification/Thread_Pool.thy ===== *)
theory Thread_Pool
  imports VDB_Prelude Interfaces
begin

text \<open>
  \<^verbatim>\<open>thread_pool.hpp\<close>: the pool of worker threads with its queue, its mutex and its condition
  variable.  The threads are modelled as program counters that move one atomic action at a
  time: acquiring the mutex, evaluating a wait condition, blocking (which releases the mutex),
  being woken, and the stores to the atomic \<^verbatim>\<open>stop\<close> and \<^verbatim>\<open>active_workers_\<close>.  The threads that call
  the pool are clients, one program counter per call.  A wait may also end without a
  notification, as the C++ standard allows.

  \<^verbatim>\<open>enqueue\<close> passes a \<^verbatim>\<open>std::lock_guard\<close> to \<^verbatim>\<open>wait\<close>, which takes a \<^verbatim>\<open>std::unique_lock\<close>, and
  \<^verbatim>\<open>worker\<close> calls \<^verbatim>\<open>pop\<close> on a \<^verbatim>\<open>std::deque\<close>; the model reads them as a unique lock and as
  \<^verbatim>\<open>pop_front\<close>.

  The theorems show that a pool which was told to stop always comes to rest with all its workers
  and all its clients returned, that no task is ever run and that no call of \<^verbatim>\<open>enqueue\<close> returns
  before the pool is stopped, because \<^verbatim>\<open>enqueue\<close> never puts the task into the queue; and that a
  constructor that fails may wait for ever, because it sets \<^verbatim>\<open>stop\<close> without the mutex.
\<close>

section \<open>State\<close>

text \<open>
  A worker: at the head of its loop or woken and acquiring the mutex, evaluating the wait
  condition, about to block, blocked, past the wait, running a task, before the decrement of
  \<^verbatim>\<open>active_workers_\<close>, before \<^verbatim>\<open>notify_all\<close>, returned.
\<close>

datatype 't wpc =
    WLock | WPred | WBlock | WWait | WTest | WRun 't | WSub | WNotify | WReturned

datatype pool_exn = Invalid_argument | Runtime_error | System_error

datatype 't outcome = Ret | RetFuture 't | RetSize nat | Thrown pool_exn

text \<open>
  A client: the constructor with the number of threads and the loop index, and its handler;
  \<^verbatim>\<open>enqueue\<close> of a task; \<^verbatim>\<open>queue_size\<close>; \<^verbatim>\<open>wait_for_tasks\<close>; \<^verbatim>\<open>shutdown\<close> and the destructor,
  which differ in whether \<^verbatim>\<open>wait_for_tasks\<close> follows the joins.
\<close>

datatype 't cpc =
    NewThread nat nat | CatchStop | CatchNotify | CatchJoin nat
  | EnqLock 't | EnqPred 't | EnqBlock 't | EnqWait 't | EnqWoken 't | EnqNotify 't
  | SizeLock
  | TasksLock | TasksPred | TasksBlock | TasksWait
  | StopLock bool | StopNotify bool | StopJoin bool nat
  | Finished "'t outcome"

datatype tid = Worker nat | Client nat

text \<open>
  \<open>tp_workers\<close> and \<open>tp_joinable\<close> are the vector \<^verbatim>\<open>threads_\<close>; \<open>tp_ran\<close> records the tasks that were
  called.
\<close>

record 't tpool =
  tp_workers :: "'t wpc list"
  tp_joinable :: "bool list"
  tp_tasks :: "'t list"
  tp_active :: u64
  tp_mutex :: "tid option"
  tp_stop :: bool
  tp_clients :: "'t cpc list"
  tp_ran :: "'t list"

abbreviation set_w :: "nat \<Rightarrow> 't wpc \<Rightarrow> 't tpool \<Rightarrow> 't tpool" where
  "set_w i pc p \<equiv> p\<lparr>tp_workers := (tp_workers p)[i := pc]\<rparr>"

abbreviation set_c :: "nat \<Rightarrow> 't cpc \<Rightarrow> 't tpool \<Rightarrow> 't tpool" where
  "set_c c pc p \<equiv> p\<lparr>tp_clients := (tp_clients p)[c := pc]\<rparr>"

section \<open>The condition variable\<close>

fun wake_w :: "'t wpc \<Rightarrow> 't wpc" where
  "wake_w WWait = WLock"
| "wake_w pc = pc"

text \<open>
  A woken client acquires the mutex and evaluates its condition again; the first action of
  \<^verbatim>\<open>wait_for_tasks\<close> is the same.
\<close>

fun wake_c :: "'t cpc \<Rightarrow> 't cpc" where
  "wake_c (EnqWait t) = EnqWoken t"
| "wake_c TasksWait = TasksLock"
| "wake_c pc = pc"

definition notify_all :: "'t tpool \<Rightarrow> 't tpool" where
  "notify_all p = p\<lparr>tp_workers := map wake_w (tp_workers p), tp_clients := map wake_c (tp_clients p)\<rparr>"

text \<open>The threads that are blocked in a wait, and the end of one wait.\<close>

fun waits :: "tid \<Rightarrow> 't tpool \<Rightarrow> bool" where
  "waits (Worker i) p \<longleftrightarrow> i < length (tp_workers p) \<and> wake_w (tp_workers p ! i) \<noteq> tp_workers p ! i"
| "waits (Client c) p \<longleftrightarrow> c < length (tp_clients p) \<and> wake_c (tp_clients p ! c) \<noteq> tp_clients p ! c"

fun wake :: "tid \<Rightarrow> 't tpool \<Rightarrow> 't tpool" where
  "wake (Worker i) p = set_w i (wake_w (tp_workers p ! i)) p"
| "wake (Client c) p = set_c c (wake_c (tp_clients p ! c)) p"

text \<open>\<^verbatim>\<open>notify_one\<close> ends one of the waits, if there is any; \<open>pick\<close> is the choice.\<close>

definition notify_one :: "tid \<Rightarrow> 't tpool \<Rightarrow> 't tpool" where
  "notify_one pick p = (if waits pick p then wake pick p else p)"

section \<open>Workers\<close>

text \<open>
  One action of worker \<open>i\<close>; \<open>None\<close> means that it cannot act, because the mutex is taken, because
  it is blocked in the wait or because it has returned.
\<close>

definition worker_step :: "nat \<Rightarrow> 't tpool \<Rightarrow> 't tpool result option" where
  "worker_step i p =
     (case tp_workers p ! i of
        WLock \<Rightarrow>
          if tp_mutex p = None then Some (Inr (set_w i WPred (p\<lparr>tp_mutex := Some (Worker i)\<rparr>)))
          else None
      | WPred \<Rightarrow> Some (Inr (set_w i (if tp_tasks p \<noteq> [] \<or> tp_stop p then WTest else WBlock) p))
      | WBlock \<Rightarrow> Some (Inr (set_w i WWait (p\<lparr>tp_mutex := None\<rparr>)))
      | WWait \<Rightarrow> None
      | WTest \<Rightarrow>
          if tp_stop p \<and> tp_tasks p = [] then Some (Inr (set_w i WReturned (p\<lparr>tp_mutex := None\<rparr>)))
          else (case tp_tasks p of
                  [] \<Rightarrow> Some (Inl OutOfBounds)
                | task # rest \<Rightarrow>
                    Some (Inr (set_w i (WRun task)
                      (p\<lparr>tp_tasks := rest, tp_active := tp_active p + 1, tp_mutex := None\<rparr>))))
      | WRun task \<Rightarrow> Some (Inr (set_w i WSub (p\<lparr>tp_ran := tp_ran p @ [task]\<rparr>)))
      | WSub \<Rightarrow> Some (Inr (set_w i WNotify (p\<lparr>tp_active := tp_active p - 1\<rparr>)))
      | WNotify \<Rightarrow> Some (Inr (set_w i WLock (notify_all p)))
      | WReturned \<Rightarrow> None)"

section \<open>Clients\<close>

text \<open>The constructor: an exception, or a pool whose constructor is about to start the threads.\<close>

definition new_ThreadPool :: "nat \<Rightarrow> pool_exn + 't tpool" where
  "new_ThreadPool num_threads =
     (if num_threads = 0 then Inl Invalid_argument
      else Inr \<lparr>tp_workers = [], tp_joinable = [], tp_tasks = [], tp_active = 0, tp_mutex = None,
                tp_stop = False, tp_clients = [NewThread num_threads 0], tp_ran = []\<rparr>)"

text \<open>Starting a thread; \<open>ok\<close> says whether the system could create it.\<close>

definition new_thread_step :: "bool \<Rightarrow> nat \<Rightarrow> nat \<Rightarrow> nat \<Rightarrow> 't tpool \<Rightarrow> 't tpool" where
  "new_thread_step ok c n i p =
     (if i < n then
        if ok then set_c c (NewThread n (i + 1))
          (p\<lparr>tp_workers := tp_workers p @ [WLock], tp_joinable := tp_joinable p @ [True]\<rparr>)
        else set_c c CatchStop p
      else set_c c (Finished Ret) p)"

text \<open>
  One round of the loop that joins the threads: \<open>next\<close> is the state for the following index and
  \<open>after\<close> the state after the loop.
\<close>

definition join_step :: "nat \<Rightarrow> nat \<Rightarrow> 't cpc \<Rightarrow> 't cpc \<Rightarrow> 't tpool \<Rightarrow> 't tpool option" where
  "join_step c i next after p =
     (if i < length (tp_workers p) then
        if tp_joinable p ! i then
          if tp_workers p ! i = WReturned
          then Some (set_c c next (p\<lparr>tp_joinable := (tp_joinable p)[i := False]\<rparr>))
          else None
        else Some (set_c c next p)
      else Some (set_c c after p))"

text \<open>An action that starts with the acquisition of the mutex.\<close>

abbreviation locked :: "'t tpool \<Rightarrow> 't tpool \<Rightarrow> 't tpool option" where
  "locked p q \<equiv> if tp_mutex p = None then Some q else None"

text \<open>
  The operations.  The sections that hold the mutex without waiting are one action.  \<open>pick\<close> is the
  thread that \<^verbatim>\<open>notify_one\<close> wakes.
\<close>

definition ctor_step :: "bool \<Rightarrow> nat \<Rightarrow> 't tpool \<Rightarrow> 't tpool option" where
  "ctor_step ok c p =
     (case tp_clients p ! c of
        NewThread n i \<Rightarrow> Some (new_thread_step ok c n i p)
      | CatchStop \<Rightarrow> Some (set_c c CatchNotify (p\<lparr>tp_stop := True\<rparr>))
      | CatchNotify \<Rightarrow> Some (set_c c (CatchJoin 0) (notify_all p))
      | CatchJoin i \<Rightarrow> join_step c i (CatchJoin (i + 1)) (Finished (Thrown System_error)) p
      | _ \<Rightarrow> None)"

definition enqueue_step :: "tid \<Rightarrow> nat \<Rightarrow> 't tpool \<Rightarrow> 't tpool option" where
  "enqueue_step pick c p =
     (case tp_clients p ! c of
        EnqLock task \<Rightarrow>
          locked p (if tp_stop p then set_c c (Finished (Thrown Runtime_error)) p
                    else set_c c (EnqPred task) (p\<lparr>tp_mutex := Some (Client c)\<rparr>))
      | EnqPred task \<Rightarrow>
          if tp_tasks p \<noteq> [] \<or> tp_stop p
          then Some (set_c c (EnqNotify task) (p\<lparr>tp_mutex := None\<rparr>))
          else Some (set_c c (EnqBlock task) p)
      | EnqBlock task \<Rightarrow> Some (set_c c (EnqWait task) (p\<lparr>tp_mutex := None\<rparr>))
      | EnqWoken task \<Rightarrow> locked p (set_c c (EnqPred task) (p\<lparr>tp_mutex := Some (Client c)\<rparr>))
      | EnqNotify task \<Rightarrow> Some (set_c c (Finished (RetFuture task)) (notify_one pick p))
      | _ \<Rightarrow> None)"

definition queue_size_step :: "nat \<Rightarrow> 't tpool \<Rightarrow> 't tpool option" where
  "queue_size_step c p = locked p (set_c c (Finished (RetSize (length (tp_tasks p)))) p)"

definition wait_for_tasks_step :: "nat \<Rightarrow> 't tpool \<Rightarrow> 't tpool option" where
  "wait_for_tasks_step c p =
     (case tp_clients p ! c of
        TasksLock \<Rightarrow> locked p (set_c c TasksPred (p\<lparr>tp_mutex := Some (Client c)\<rparr>))
      | TasksPred \<Rightarrow>
          if tp_tasks p = [] \<and> tp_active p = 0
          then Some (set_c c (Finished Ret) (p\<lparr>tp_mutex := None\<rparr>))
          else Some (set_c c TasksBlock p)
      | TasksBlock \<Rightarrow> Some (set_c c TasksWait (p\<lparr>tp_mutex := None\<rparr>))
      | _ \<Rightarrow> None)"

text \<open>\<^verbatim>\<open>shutdown\<close> and, with \<open>True\<close>, the destructor.\<close>

definition shutdown_step :: "nat \<Rightarrow> 't tpool \<Rightarrow> 't tpool option" where
  "shutdown_step c p =
     (case tp_clients p ! c of
        StopLock dtor \<Rightarrow> locked p (set_c c (StopNotify dtor) (p\<lparr>tp_stop := True\<rparr>))
      | StopNotify dtor \<Rightarrow> Some (set_c c (StopJoin dtor 0) (notify_all p))
      | StopJoin dtor i \<Rightarrow>
          join_step c i (StopJoin dtor (i + 1)) (if dtor then Finished Ret else TasksLock) p
      | _ \<Rightarrow> None)"

fun client_of :: "'t cpc \<Rightarrow> bool \<Rightarrow> tid \<Rightarrow> nat \<Rightarrow> 't tpool \<Rightarrow> 't tpool option" where
  "client_of (NewThread n i) ok pick c p = ctor_step ok c p"
| "client_of CatchStop ok pick c p = ctor_step ok c p"
| "client_of CatchNotify ok pick c p = ctor_step ok c p"
| "client_of (CatchJoin i) ok pick c p = ctor_step ok c p"
| "client_of SizeLock ok pick c p = queue_size_step c p"
| "client_of TasksLock ok pick c p = wait_for_tasks_step c p"
| "client_of TasksPred ok pick c p = wait_for_tasks_step c p"
| "client_of TasksBlock ok pick c p = wait_for_tasks_step c p"
| "client_of TasksWait ok pick c p = wait_for_tasks_step c p"
| "client_of (StopLock d) ok pick c p = shutdown_step c p"
| "client_of (StopNotify d) ok pick c p = shutdown_step c p"
| "client_of (StopJoin d i) ok pick c p = shutdown_step c p"
| "client_of (Finished r) ok pick c p = None"
| "client_of pc ok pick c p = enqueue_step pick c p"

definition client_step :: "bool \<Rightarrow> tid \<Rightarrow> nat \<Rightarrow> 't tpool \<Rightarrow> 't tpool option" where
  "client_step ok pick c p = client_of (tp_clients p ! c) ok pick c p"

lemmas client_step_defs =
  client_step_def ctor_step_def enqueue_step_def queue_size_step_def wait_for_tasks_step_def shutdown_step_def

definition thread_count :: "'t tpool \<Rightarrow> nat" where
  "thread_count p = length (tp_workers p)"

text \<open>The first state of a call of each operation.\<close>

fun first_pc :: "'t cpc \<Rightarrow> bool" where
  "first_pc (EnqLock t) = True"
| "first_pc SizeLock = True"
| "first_pc TasksLock = True"
| "first_pc (StopLock d) = True"
| "first_pc _ = False"

section \<open>Runs\<close>

inductive tp_step :: "'t tpool \<Rightarrow> 't tpool \<Rightarrow> bool" where
  worker: "i < length (tp_workers p) \<Longrightarrow> worker_step i p = Some (Inr p') \<Longrightarrow> tp_step p p'"
| client: "c < length (tp_clients p) \<Longrightarrow> waits pick p \<or> (\<forall>x. \<not> waits x p) \<Longrightarrow>
    client_step ok pick c p = Some p' \<Longrightarrow> tp_step p p'"

text \<open>A wait that ends without a notification.\<close>

inductive tp_spurious :: "'t tpool \<Rightarrow> 't tpool \<Rightarrow> bool" where
  spurious: "waits x p \<Longrightarrow> tp_spurious p (wake x p)"

text \<open>A pool is used once its constructor has returned.\<close>

inductive tp_call :: "'t tpool \<Rightarrow> 't tpool \<Rightarrow> bool" where
  call: "tp_clients p ! 0 = Finished Ret \<Longrightarrow> first_pc pc \<Longrightarrow>
    tp_call p (p\<lparr>tp_clients := tp_clients p @ [pc]\<rparr>)"

inductive tp_reach :: "nat \<Rightarrow> 't tpool \<Rightarrow> bool" for n where
  start: "new_ThreadPool n = Inr p \<Longrightarrow> tp_reach n p"
| step: "tp_reach n p \<Longrightarrow> tp_step p p' \<Longrightarrow> tp_reach n p'"
| spurious: "tp_reach n p \<Longrightarrow> tp_spurious p p' \<Longrightarrow> tp_reach n p'"
| call: "tp_reach n p \<Longrightarrow> tp_call p p' \<Longrightarrow> tp_reach n p'"

section \<open>What holds in every reachable state\<close>

fun w_holds :: "'t wpc \<Rightarrow> bool" where
  "w_holds WPred = True" | "w_holds WBlock = True" | "w_holds WTest = True" | "w_holds _ = False"

fun c_holds :: "'t cpc \<Rightarrow> bool" where
  "c_holds (EnqPred t) = True" | "c_holds (EnqBlock t) = True"
| "c_holds TasksPred = True" | "c_holds TasksBlock = True" | "c_holds _ = False"

text \<open>The states in which a worker and a client can be, before and after the pool is stopped.\<close>

fun w_ok :: "bool \<Rightarrow> 't wpc \<Rightarrow> bool" where
  "w_ok st (WRun t) = False" | "w_ok st WSub = False" | "w_ok st WNotify = False"
| "w_ok st WTest = st" | "w_ok st WReturned = st" | "w_ok st _ = True"

fun c_ok :: "bool \<Rightarrow> 't cpc \<Rightarrow> bool" where
  "c_ok st TasksBlock = False" | "c_ok st TasksWait = False"
| "c_ok st (EnqNotify t) = st" | "c_ok st (Finished (RetFuture t)) = st"
| "c_ok st (Finished (Thrown e)) = st"
| "c_ok st (StopNotify d) = st" | "c_ok st (StopJoin d i) = st"
| "c_ok st (NewThread n i) = (\<not> st)" | "c_ok st CatchStop = (\<not> st)"
| "c_ok st CatchNotify = st" | "c_ok st (CatchJoin i) = st"
| "c_ok st _ = True"

fun is_ctor :: "'t cpc \<Rightarrow> bool" where
  "is_ctor (NewThread n i) = True" | "is_ctor CatchStop = True" | "is_ctor _ = False"

definition tp_inv :: "'t tpool \<Rightarrow> bool" where
  "tp_inv p \<longleftrightarrow>
     tp_tasks p = [] \<and> tp_active p = 0 \<and> tp_ran p = [] \<and>
     length (tp_joinable p) = length (tp_workers p) \<and> tp_clients p \<noteq> [] \<and>
     (\<forall>i. tp_mutex p = Some (Worker i) \<longleftrightarrow> i < length (tp_workers p) \<and> w_holds (tp_workers p ! i)) \<and>
     (\<forall>c. tp_mutex p = Some (Client c) \<longleftrightarrow> c < length (tp_clients p) \<and> c_holds (tp_clients p ! c)) \<and>
     (\<forall>i < length (tp_workers p). w_ok (tp_stop p) (tp_workers p ! i)) \<and>
     (\<forall>c < length (tp_clients p). c_ok (tp_stop p) (tp_clients p ! c) \<and>
        (is_ctor (tp_clients p ! c) \<longrightarrow> length (tp_clients p) = 1))"

lemma tp_inv_new: "new_ThreadPool n = Inr p \<Longrightarrow> tp_inv p"
  by (auto simp: new_ThreadPool_def tp_inv_def split: if_splits)

lemma wake_w_simps [simp]:
  "w_holds (wake_w pc) = w_holds pc" "w_ok st (wake_w pc) = w_ok st pc"
  by (cases pc; simp)+

lemma wake_c_simps [simp]:
  "c_holds (wake_c pc) = c_holds pc" "is_ctor (wake_c pc) = is_ctor pc"
  "c_ok st pc \<Longrightarrow> c_ok st (wake_c pc)"
  by (cases pc; simp)+

lemma tp_inv_notify_all: "tp_inv p \<Longrightarrow> tp_inv (notify_all p)"
  unfolding tp_inv_def notify_all_def by (simp cong: conj_cong)

text \<open>A thread moves on, and acquires, keeps or releases the mutex.\<close>

lemma tp_inv_w_keep:
  assumes "tp_inv p" "i < length (tp_workers p)" "w_holds pc = w_holds (tp_workers p ! i)"
    "w_ok (tp_stop p) pc"
  shows "tp_inv (set_w i pc p)"
  using assms unfolding tp_inv_def by (simp add: nth_list_update)

lemma tp_inv_w_acquire:
  assumes "tp_inv p" "i < length (tp_workers p)" "w_holds pc" "w_ok (tp_stop p) pc" "tp_mutex p = None"
  shows "tp_inv (p\<lparr>tp_mutex := Some (Worker i), tp_workers := (tp_workers p)[i := pc]\<rparr>)"
  using assms unfolding tp_inv_def by (auto simp: nth_list_update)

lemma tp_inv_w_release:
  assumes "tp_inv p" "i < length (tp_workers p)" "w_holds (tp_workers p ! i)" "\<not> w_holds pc"
    "w_ok (tp_stop p) pc"
  shows "tp_inv (p\<lparr>tp_mutex := None, tp_workers := (tp_workers p)[i := pc]\<rparr>)"
proof -
  have m: "tp_mutex p = Some (Worker i)" using assms by (simp add: tp_inv_def)
  have "\<not> (j < length (tp_workers p) \<and> w_holds (tp_workers p ! j))" if "j \<noteq> i" for j
    using assms(1) m that unfolding tp_inv_def by (metis option.inject tid.inject(1))
  moreover have "\<not> (c < length (tp_clients p) \<and> c_holds (tp_clients p ! c))" for c
    using assms(1) m unfolding tp_inv_def by (metis option.inject tid.distinct(1))
  ultimately show ?thesis using assms unfolding tp_inv_def by (auto simp: nth_list_update)
qed

lemma tp_inv_c_keep:
  assumes "tp_inv p" "c < length (tp_clients p)" "c_holds pc = c_holds (tp_clients p ! c)"
    "c_ok (tp_stop p) pc" "is_ctor pc \<Longrightarrow> is_ctor (tp_clients p ! c)"
  shows "tp_inv (set_c c pc p)"
  using assms unfolding tp_inv_def by (auto simp: nth_list_update)

lemma tp_inv_c_acquire:
  assumes "tp_inv p" "c < length (tp_clients p)" "c_holds pc" "c_ok (tp_stop p) pc" "tp_mutex p = None"
    "\<not> is_ctor pc"
  shows "tp_inv (p\<lparr>tp_mutex := Some (Client c), tp_clients := (tp_clients p)[c := pc]\<rparr>)"
  using assms unfolding tp_inv_def by (auto simp: nth_list_update)

lemma tp_inv_c_release:
  assumes "tp_inv p" "c < length (tp_clients p)" "c_holds (tp_clients p ! c)" "\<not> c_holds pc"
    "c_ok (tp_stop p) pc" "\<not> is_ctor pc"
  shows "tp_inv (p\<lparr>tp_mutex := None, tp_clients := (tp_clients p)[c := pc]\<rparr>)"
proof -
  have m: "tp_mutex p = Some (Client c)" using assms by (simp add: tp_inv_def)
  have "\<not> (j < length (tp_clients p) \<and> c_holds (tp_clients p ! j))" if "j \<noteq> c" for j
    using assms(1) m that unfolding tp_inv_def by (metis option.inject tid.inject(2))
  moreover have "\<not> (i < length (tp_workers p) \<and> w_holds (tp_workers p ! i))" for i
    using assms(1) m unfolding tp_inv_def by (metis option.inject tid.distinct(1))
  ultimately show ?thesis using assms unfolding tp_inv_def by (auto simp: nth_list_update)
qed

lemma tp_inv_w_okD: "tp_inv p \<Longrightarrow> i < length (tp_workers p) \<Longrightarrow> w_ok (tp_stop p) (tp_workers p ! i)"
  by (simp add: tp_inv_def)

lemma tp_inv_c_okD: "tp_inv p \<Longrightarrow> c < length (tp_clients p) \<Longrightarrow> c_ok (tp_stop p) (tp_clients p ! c)"
  by (simp add: tp_inv_def)

lemma tp_inv_queue: "tp_inv p \<Longrightarrow> tp_tasks p = [] \<and> tp_active p = 0 \<and> tp_ran p = []"
  by (simp add: tp_inv_def)

lemma tp_inv_wake:
  assumes "tp_inv p" "waits x p"
  shows "tp_inv (wake x p)"
proof (cases x)
  case (Worker i)
  then show ?thesis using assms tp_inv_w_okD [OF assms(1)]
    by (auto intro!: tp_inv_w_keep)
next
  case (Client c)
  then show ?thesis using assms tp_inv_c_okD [OF assms(1)]
    by (auto intro!: tp_inv_c_keep)
qed

lemma tp_inv_notify_one: "tp_inv p \<Longrightarrow> tp_inv (notify_one pick p)"
  by (simp add: notify_one_def tp_inv_wake)

lemma tp_inv_worker:
  assumes "tp_inv p" "i < length (tp_workers p)" "worker_step i p = Some (Inr p')"
  shows "tp_inv p'"
  using tp_inv_w_okD [OF assms(1,2)] tp_inv_queue [OF assms(1)] assms
  by (cases "tp_workers p ! i")
    (auto simp: worker_step_def split: if_splits
      intro!: tp_inv_w_keep tp_inv_w_acquire tp_inv_w_release)

text \<open>Setting \<open>stop\<close>: a client that is past the start of its constructor exists.\<close>

lemma tp_inv_stop:
  assumes "tp_inv p" "c < length (tp_clients p)" "\<not> c_holds (tp_clients p ! c)" "\<not> c_holds pc" 
    "c_ok True pc" "\<not> is_ctor pc" "is_ctor (tp_clients p ! c) \<or> (\<forall>c < length (tp_clients p). \<not> is_ctor (tp_clients p ! c))"
  shows "tp_inv (p\<lparr>tp_stop := True, tp_clients := (tp_clients p)[c := pc]\<rparr>)"
proof -
  have w: "w_ok True pc" if "w_ok st pc" for st and pc :: "'a wpc" using that by (cases pc) auto
  have c: "c_ok True pc" if "c_ok st pc" "\<not> is_ctor pc" for st and pc :: "'a cpc"
    using that by (cases "(st, pc)" rule: c_ok.cases) auto
  show ?thesis using assms unfolding tp_inv_def by (auto simp: nth_list_update intro: w c)
qed

lemma tp_inv_new_thread:
  assumes "tp_inv p" "c < length (tp_clients p)" "tp_clients p ! c = NewThread n i"
  shows "tp_inv (new_thread_step ok c n i p)"
proof -
  have "tp_inv (p\<lparr>tp_workers := tp_workers p @ [WLock], tp_joinable := tp_joinable p @ [True],
      tp_clients := (tp_clients p)[c := NewThread n (Suc i)]\<rparr>)"
    using assms unfolding tp_inv_def by (auto simp: nth_list_update nth_append less_Suc_eq)
  moreover have "\<not> tp_stop p" using tp_inv_c_okD [OF assms(1,2)] assms(3) by simp
  ultimately show ?thesis using assms
    by (auto simp: new_thread_step_def intro!: tp_inv_c_keep)
qed

lemma tp_inv_joinable: "tp_inv p \<Longrightarrow> tp_inv (p\<lparr>tp_joinable := (tp_joinable p)[i := b]\<rparr>)"
  by (simp add: tp_inv_def)

lemma tp_inv_join:
  assumes "tp_inv p" "c < length (tp_clients p)" "join_step c i nxt aft p = Some p'"
    "\<not> c_holds (tp_clients p ! c)" "\<not> c_holds nxt" "\<not> c_holds aft" "c_ok (tp_stop p) nxt" "c_ok (tp_stop p) aft"
    "\<not> is_ctor nxt" "\<not> is_ctor aft"
  shows "tp_inv p'"
  using assms tp_inv_c_keep [OF tp_inv_joinable [OF assms(1)], of c i False nxt]
  by (auto simp: join_step_def split: if_splits intro!: tp_inv_c_keep)

lemma tp_inv_no_ctor:
  assumes "tp_inv p" "c < length (tp_clients p)" "\<not> is_ctor (tp_clients p ! c)" "d < length (tp_clients p)"
  shows "\<not> is_ctor (tp_clients p ! d)"
  using assms unfolding tp_inv_def by (metis less_one)

lemma tp_inv_client:
  assumes I: "tp_inv p" and c: "c < length (tp_clients p)" and s: "client_step ok pick c p = Some p'"
  shows "tp_inv p'"
proof -
  note ok = tp_inv_c_okD [OF I c] tp_inv_queue [OF I]
  note no = tp_inv_no_ctor [OF I c]
  show ?thesis
  proof (cases "tp_clients p ! c")
    case (NewThread n i)
    then show ?thesis using s tp_inv_new_thread [OF I c NewThread] by (auto simp: client_step_defs)
  next
    case CatchNotify
    then show ?thesis using s ok c tp_inv_c_keep [OF tp_inv_notify_all [OF I], of c "CatchJoin 0"]
      by (auto simp: client_step_defs notify_all_def)
  next
    case (StopNotify d)
    then show ?thesis using s ok c tp_inv_c_keep [OF tp_inv_notify_all [OF I], of c "StopJoin d 0"]
      by (auto simp: client_step_defs notify_all_def)
  next
    case (CatchJoin i)
    then show ?thesis using s ok by (auto simp: client_step_defs intro: tp_inv_join [OF I c])
  next
    case (StopJoin d i)
    then show ?thesis using s ok by (auto simp: client_step_defs intro: tp_inv_join [OF I c] split: if_splits)
  next
    case (EnqNotify t)
    have "length (tp_clients (notify_one pick p)) = length (tp_clients p)"
      "tp_clients (notify_one pick p) ! c = EnqNotify t" "tp_stop (notify_one pick p) = tp_stop p"
      using EnqNotify by (cases pick; auto simp: notify_one_def nth_list_update)+
    then show ?thesis using EnqNotify s ok c
        tp_inv_c_keep [OF tp_inv_notify_one [OF I], of c pick "Finished (RetFuture t)"]
      by (simp add: client_step_defs)
  qed (use I c s ok no in \<open>auto simp: client_step_defs split: if_splits
      intro!: tp_inv_c_keep tp_inv_c_acquire tp_inv_c_release tp_inv_stop\<close>)
qed

lemma tp_inv_step: "tp_inv p \<Longrightarrow> tp_step p p' \<Longrightarrow> tp_inv p'"
  by (auto elim!: tp_step.cases dest: tp_inv_worker tp_inv_client)

lemma tp_inv_spurious: "tp_inv p \<Longrightarrow> tp_spurious p p' \<Longrightarrow> tp_inv p'"
  by (auto elim!: tp_spurious.cases dest: tp_inv_wake)

lemma first_pc_simps: "first_pc pc \<Longrightarrow> \<not> c_holds pc \<and> \<not> is_ctor pc \<and> c_ok st pc"
  by (cases pc) auto

lemma tp_inv_call:
  assumes "tp_inv p" "tp_call p p'"
  shows "tp_inv p'"
  using assms(2)
proof cases
  case (call pc)
  have "0 < length (tp_clients p)" using assms(1) by (simp add: tp_inv_def)
  then have "\<not> is_ctor (tp_clients p ! d)" if "d < length (tp_clients p)" for d
    using tp_inv_no_ctor [OF assms(1) _ _ that, of 0] call(2) by simp
  then show ?thesis using assms(1) call first_pc_simps [OF call(3)]
    unfolding tp_inv_def by (auto simp: nth_append less_Suc_eq)
qed

lemma tp_inv_reach: "tp_reach n p \<Longrightarrow> tp_inv p"
  by (induction rule: tp_reach.induct) (blast intro: tp_inv_new tp_inv_step tp_inv_spurious tp_inv_call)+

section \<open>A pool that is stopped comes to rest\<close>

text \<open>The constructor has failed, or is about to report its failure.\<close>

fun ctor_failed_pc :: "'t cpc \<Rightarrow> bool" where
  "ctor_failed_pc CatchStop = True" | "ctor_failed_pc CatchNotify = True"
| "ctor_failed_pc (CatchJoin i) = True" | "ctor_failed_pc (Finished (Thrown System_error)) = True"
| "ctor_failed_pc _ = False"

definition ctor_failed :: "'t tpool \<Rightarrow> bool" where
  "ctor_failed p \<longleftrightarrow> (\<exists>pc \<in> set (tp_clients p). ctor_failed_pc pc)"

fun w_sleepy :: "'t wpc \<Rightarrow> bool" where
  "w_sleepy WBlock = True" | "w_sleepy _ = False"

fun c_sleepy :: "'t cpc \<Rightarrow> bool" where
  "c_sleepy (EnqBlock t) = True" | "c_sleepy _ = False"

text \<open>
  No wake-up is lost: once the pool is stopped no thread is about to block, and while one is
  blocked a client is about to notify all.
\<close>

definition awake :: "'t tpool \<Rightarrow> bool" where
  "awake p \<longleftrightarrow> (\<forall>pc \<in> set (tp_workers p). wake_w pc = pc) \<and> (\<forall>pc \<in> set (tp_clients p). wake_c pc = pc)"

definition no_lost_wakeup :: "'t tpool \<Rightarrow> bool" where
  "no_lost_wakeup p \<longleftrightarrow> (tp_stop p \<longrightarrow>
     (\<forall>pc \<in> set (tp_workers p). \<not> w_sleepy pc) \<and> (\<forall>pc \<in> set (tp_clients p). \<not> c_sleepy pc) \<and>
     (awake p \<or> (\<exists>d. StopNotify d \<in> set (tp_clients p))))"

lemma waits_awake: "(\<exists>x. waits x p) \<longleftrightarrow> \<not> awake p"
proof
  assume "\<exists>x. waits x p"
  then obtain x where "waits x p" ..
  then show "\<not> awake p" by (cases x) (auto simp: awake_def)
next
  assume "\<not> awake p"
  then consider pc where "pc \<in> set (tp_workers p)" "wake_w pc \<noteq> pc" | pc where "pc \<in> set (tp_clients p)" "wake_c pc \<noteq> pc"
    by (auto simp: awake_def)
  then show "\<exists>x. waits x p"
  proof cases
    case 1
    then obtain i where "waits (Worker i) p" by (auto simp: in_set_conv_nth)
    then show ?thesis ..
  next
    case 2
    then obtain c where "waits (Client c) p" by (auto simp: in_set_conv_nth)
    then show ?thesis ..
  qed
qed

lemma set_updateE:
  assumes "y \<in> set (xs[i := x])"
  obtains "y = x" | "y \<in> set xs"
  using assms set_update_subset_insert [of xs i x] by auto

lemma set_update_keeps: "y \<in> set xs \<Longrightarrow> y \<noteq> xs ! i \<Longrightarrow> y \<in> set (xs[i := x])"
  by (metis in_set_conv_nth length_list_update nth_list_update_neq)

lemma nlw_worker:
  assumes "no_lost_wakeup p" "tp_workers p' = (tp_workers p)[i := pc]" "tp_clients p' = tp_clients p"
    "tp_stop p' = tp_stop p" "tp_stop p \<Longrightarrow> \<not> w_sleepy pc \<and> wake_w pc = pc"
  shows "no_lost_wakeup p'"
  using assms unfolding no_lost_wakeup_def awake_def by (auto elim!: set_updateE)

lemma nlw_client:
  assumes "no_lost_wakeup p" "tp_workers p' = tp_workers p" "tp_clients p' = (tp_clients p)[c := pc]"
    "tp_stop p' = tp_stop p" "tp_stop p \<Longrightarrow> \<not> c_sleepy pc \<and> wake_c pc = pc"
    "\<And>d. tp_clients p ! c \<noteq> StopNotify d"
  shows "no_lost_wakeup p'"
proof -
  have "StopNotify d \<in> set (tp_clients p')" if "StopNotify d \<in> set (tp_clients p)" for d
    using set_update_keeps [OF that, of c pc] assms(3) assms(6) [of d] by (metis)
  moreover have "awake p'" if "awake p" "tp_stop p"
    using that assms(2,3,5) by (auto simp: awake_def elim!: set_updateE)
  moreover have "\<forall>x \<in> set (tp_clients p'). \<not> c_sleepy x" if "\<forall>x \<in> set (tp_clients p). \<not> c_sleepy x" "tp_stop p"
    using that assms(3,5) by (auto elim!: set_updateE)
  ultimately show ?thesis using assms(1,2,4) unfolding no_lost_wakeup_def by metis
qed

lemma wake_idem [simp]: "wake_w (wake_w w) = wake_w w" "wake_c (wake_c pc) = wake_c pc"
  "w_sleepy (wake_w w) = w_sleepy w" "c_sleepy (wake_c pc) = c_sleepy pc"
  by (cases w; simp; fail) (cases pc; simp; fail | cases w; simp; fail)+

lemma wakes_not_sleepy: "wake_w w \<noteq> w \<Longrightarrow> \<not> w_sleepy w" "wake_c pc \<noteq> pc \<Longrightarrow> \<not> c_sleepy pc"
  by (cases w; simp) (cases pc; simp)

lemma awake_notify_all: "awake (notify_all p)"
  by (simp add: awake_def notify_all_def)

lemma nlw_notify_all: "no_lost_wakeup p \<Longrightarrow> no_lost_wakeup (notify_all p)"
  using awake_notify_all [of p] by (simp add: no_lost_wakeup_def notify_all_def)


lemma nlw_wake:
  assumes "no_lost_wakeup p" "waits x p"
  shows "no_lost_wakeup (wake x p)"
proof (cases x)
  case (Worker i)
  then show ?thesis using assms
    by (auto intro!: nlw_worker [OF assms(1), where i = i] dest: wakes_not_sleepy)
next
  case (Client c)
  then have "tp_clients p ! c \<noteq> StopNotify d" for d using assms(2) by auto
  then show ?thesis using assms Client
    by (auto intro!: nlw_client [OF assms(1), where c = c] dest: wakes_not_sleepy)
qed

lemma nlw_notify_one: "no_lost_wakeup p \<Longrightarrow> no_lost_wakeup (notify_one pick p)"
  by (simp add: notify_one_def nlw_wake)

lemma nlw_worker_step:
  assumes "tp_inv p" "no_lost_wakeup p" "i < length (tp_workers p)" "worker_step i p = Some (Inr p')"
  shows "no_lost_wakeup p'"
proof -
  have "tp_stop p \<Longrightarrow> tp_workers p ! i \<noteq> WBlock"
    using assms(2,3) nth_mem [of i "tp_workers p"] unfolding no_lost_wakeup_def by force
  then show ?thesis using tp_inv_w_okD [OF assms(1,3)] tp_inv_queue [OF assms(1)] assms(4)
    by (cases "tp_workers p ! i")
      (auto simp: worker_step_def split: if_splits intro!: nlw_worker [OF assms(2), where i = i])
qed

lemma nlw_new_thread:
  assumes "\<not> tp_stop p"
  shows "no_lost_wakeup (new_thread_step ok c n i p)"
  using assms by (simp add: no_lost_wakeup_def new_thread_step_def)

lemma nlw_join:
  assumes "no_lost_wakeup p" "join_step c i nxt aft p = Some p'" "\<And>d. tp_clients p ! c \<noteq> StopNotify d"
    "\<not> c_sleepy nxt \<and> wake_c nxt = nxt" "\<not> c_sleepy aft \<and> wake_c aft = aft"
  shows "no_lost_wakeup p'"
  using assms(2-) by (auto simp: join_step_def split: if_splits intro!: nlw_client [OF assms(1), where c = c])

lemma sleepy_holds: "w_sleepy w \<Longrightarrow> w_holds w" "c_sleepy pc \<Longrightarrow> c_holds pc"
  by (cases w; simp) (cases pc; simp)

lemma nlw_stop:
  assumes "tp_inv p" "tp_mutex p = None" "c < length (tp_clients p)"
  shows "no_lost_wakeup (p\<lparr>tp_stop := True, tp_clients := (tp_clients p)[c := StopNotify d]\<rparr>)"
proof -
  have "\<not> w_sleepy pc" if "pc \<in> set (tp_workers p)" for pc
    using that assms(1,2) by (auto simp: tp_inv_def in_set_conv_nth dest: sleepy_holds)
  moreover have "\<not> c_sleepy pc" if "pc \<in> set (tp_clients p)" for pc
    using that assms(1,2) by (auto simp: tp_inv_def in_set_conv_nth dest: sleepy_holds)
  moreover have "\<exists>d'. StopNotify d' \<in> set ((tp_clients p)[c := StopNotify d])"
    using set_update_memI [OF assms(3)] by blast
  ultimately show ?thesis unfolding no_lost_wakeup_def
    by (auto elim!: set_updateE)
qed

lemma ctor_failed_client: 
  assumes "ctor_failed p" "tp_clients p' = (tp_clients p)[c := pc]"
    "c < length (tp_clients p)" "ctor_failed_pc (tp_clients p ! c) \<Longrightarrow> ctor_failed_pc pc"
  shows "ctor_failed p'"
  using assms set_update_keeps [of _ "tp_clients p" c pc] set_update_memI [OF assms(3), of pc]
  unfolding ctor_failed_def by metis


text \<open>An action of a client: a constructor that has failed stays so, and otherwise no wake-up is lost.\<close>

lemma ctor_failed_pc_wake [simp]: "ctor_failed_pc (wake_c pc) = ctor_failed_pc pc"
  by (cases pc) auto

lemma ctor_failed_notify [simp]: "ctor_failed (notify_all p) = ctor_failed p"
  by (simp add: ctor_failed_def notify_all_def)

lemma ctor_failed_wake:
  assumes "waits x p" "ctor_failed p"
  shows "ctor_failed (wake x p)"
proof (cases x)
  case (Worker i)
  then show ?thesis using assms(2) by (simp add: ctor_failed_def)
next
  case (Client c)
  then show ?thesis using assms by (intro ctor_failed_client [OF assms(2), where c = c and pc = "wake_c (tp_clients p ! c)"]) auto
qed

definition tp_live :: "'t tpool \<Rightarrow> bool" where
  "tp_live p \<longleftrightarrow> tp_inv p \<and> (ctor_failed p \<or> no_lost_wakeup p)"

lemma live_spurious:
  assumes "tp_live p" "tp_spurious p p'"
  shows "tp_live p'"
  using assms(2)
proof cases
  case (spurious x)
  then show ?thesis using assms(1) by (auto simp: tp_live_def intro: tp_inv_wake ctor_failed_wake nlw_wake)
qed

lemma ctor_failed_worker_step:
  assumes "worker_step i p = Some (Inr p')"
  shows "ctor_failed p' = ctor_failed p"
proof -
  have "ctor_failed (set_w i pc q) = ctor_failed q" for pc and q :: "'a tpool" by (simp add: ctor_failed_def)
  moreover have "ctor_failed p' = ctor_failed p" if "tp_clients p' = tp_clients p"
    using that by (simp add: ctor_failed_def)
  ultimately show ?thesis using assms
    by (auto simp: worker_step_def split: wpc.splits if_splits list.splits)
qed

lemma notify_all_sel [simp]: "tp_clients (notify_all p) = map wake_c (tp_clients p)"
  "tp_workers (notify_all p) = map wake_w (tp_workers p)" "tp_stop (notify_all p) = tp_stop p"
  by (simp_all add: notify_all_def)

lemma ctor_failed_client_step:
  assumes "ctor_failed p" "c < length (tp_clients p)" "client_step ok pick c p = Some p'"
  shows "ctor_failed p'"
proof (cases "tp_clients p ! c")
  case (EnqNotify t)
  have "length (tp_clients (notify_one pick p)) = length (tp_clients p)"
    "tp_clients (notify_one pick p) ! c = EnqNotify t"
    using EnqNotify by (cases pick; auto simp: notify_one_def nth_list_update)+
  moreover have "ctor_failed (notify_one pick p)"
    using assms(1) ctor_failed_wake [of pick p] by (simp add: notify_one_def)
  ultimately show ?thesis using EnqNotify assms(2,3)
      ctor_failed_client [of "notify_one pick p" p' c "Finished (RetFuture t)"]
    by (auto simp: client_step_defs)
next
  case CatchNotify
  then show ?thesis using assms ctor_failed_client [of "notify_all p" p' c "CatchJoin 0"]
    by (auto simp: client_step_defs)
next
  case (StopNotify d)
  then show ?thesis using assms ctor_failed_client [of "notify_all p" p' c "StopJoin d 0"]
    by (auto simp: client_step_defs)
qed (use assms in \<open>auto simp: client_step_defs join_step_def new_thread_step_def split: if_splits
    intro: ctor_failed_client [OF assms(1) _ assms(2)]\<close>)

lemma nlw_client_step:
  assumes I: "tp_inv p" and n: "no_lost_wakeup p" and f: "\<not> ctor_failed p"
    and c: "c < length (tp_clients p)" and s: "client_step ok pick c p = Some p'"
  shows "no_lost_wakeup p'"
proof -
  note okc = tp_inv_c_okD [OF I c] tp_inv_queue [OF I]
  have nf: "\<not> ctor_failed_pc (tp_clients p ! c)" using f c by (auto simp: ctor_failed_def)
  have b: "tp_stop p \<Longrightarrow> tp_clients p ! c \<noteq> EnqBlock t" for t
    using n c nth_mem [of c "tp_clients p"] unfolding no_lost_wakeup_def by force
  show ?thesis
  proof (cases "tp_clients p ! c")
    case (NewThread k i)
    then show ?thesis using s okc by (auto simp: client_step_defs intro!: nlw_new_thread)
  next
    case (StopLock d)
    then show ?thesis using s nlw_stop [OF I _ c] by (auto simp: client_step_defs split: if_splits)
  next
    case (StopNotify d)
    have "awake p'" using s StopNotify awake_notify_all [of p]
      by (auto simp: client_step_defs awake_def elim!: set_updateE)
    moreover have "tp_workers p' = map wake_w (tp_workers p)" "tp_stop p' = tp_stop p"
      "tp_clients p' = (map wake_c (tp_clients p))[c := StopJoin d 0]"
      using s StopNotify by (auto simp: client_step_defs)
    ultimately show ?thesis using n by (auto simp: no_lost_wakeup_def elim!: set_updateE)
  next
    case (StopJoin d i)
    then show ?thesis using s nlw_join [OF n] by (auto simp: client_step_defs split: if_splits)
  next
    case (EnqNotify t)
    have "tp_clients (notify_one pick p) ! c = EnqNotify t"
      using EnqNotify by (cases pick; auto simp: notify_one_def nth_list_update)
    then show ?thesis using EnqNotify s
      by (auto simp: client_step_defs intro!: nlw_client [OF nlw_notify_one [OF n], where c = c])
  qed (use s okc b nf in \<open>auto simp: client_step_defs split: if_splits
      intro!: nlw_client [OF n, where c = c]\<close>)
qed

lemma live_step:
  assumes "tp_live p" "tp_step p p'"
  shows "tp_live p'"
  using assms(2)
proof cases
  case (worker i)
  then show ?thesis using assms(1) tp_inv_worker nlw_worker_step ctor_failed_worker_step
    unfolding tp_live_def by blast
next
  case (client c pick ok)
  then show ?thesis using assms(1) tp_inv_client nlw_client_step ctor_failed_client_step
    unfolding tp_live_def by blast
qed

lemma live_call:
  assumes "tp_live p" "tp_call p p'"
  shows "tp_live p'"
  using assms(2)
proof cases
  case (call pc)
  have "\<not> c_sleepy pc" "wake_c pc = pc" using call(3) by (cases pc; simp)+
  then show ?thesis using assms(1) tp_inv_call [OF _ assms(2)] call(1)
    by (auto simp: tp_live_def ctor_failed_def no_lost_wakeup_def awake_def)
qed

lemma live_reach: "tp_reach n p \<Longrightarrow> tp_live p"
proof (induction rule: tp_reach.induct)
  case (start p)
  then show ?case using tp_inv_new [OF start]
    by (auto simp: tp_live_def no_lost_wakeup_def new_ThreadPool_def split: if_splits)
qed (blast intro: live_step live_spurious live_call)+

section \<open>Progress and termination\<close>

text \<open>The number of actions that a thread of a stopped pool has left at most.\<close>

fun w_weight :: "'t wpc \<Rightarrow> nat" where
  "w_weight WBlock = 5" | "w_weight WWait = 4" | "w_weight WLock = 3" | "w_weight WPred = 2"
| "w_weight WTest = 1" | "w_weight _ = 0"

fun c_weight :: "nat \<Rightarrow> 't cpc \<Rightarrow> nat" where
  "c_weight n (EnqBlock t) = 5" | "c_weight n (EnqWait t) = 4" | "c_weight n (EnqWoken t) = 3"
| "c_weight n (EnqLock t) = 3" | "c_weight n (EnqPred t) = 2" | "c_weight n (EnqNotify t) = 1"
| "c_weight n SizeLock = 1" | "c_weight n TasksWait = 3" | "c_weight n TasksLock = 2" | "c_weight n TasksPred = 1"
| "c_weight n (StopLock d) = n + 5" | "c_weight n (StopNotify d) = n + 4"
| "c_weight n (StopJoin d i) = (n - i) + 3"
| "c_weight n _ = 0"

definition tp_weight :: "'t tpool \<Rightarrow> nat" where
  "tp_weight p = sum_list (map w_weight (tp_workers p)) +
     sum_list (map (c_weight (length (tp_workers p))) (tp_clients p))"

definition tp_settled :: "'t tpool \<Rightarrow> bool" where
  "tp_settled p \<longleftrightarrow> (\<forall>pc \<in> set (tp_workers p). pc = WReturned) \<and>
     (\<forall>pc \<in> set (tp_clients p). \<exists>r. pc = Finished r)"

definition tp_stopping :: "'t tpool \<Rightarrow> bool" where
  "tp_stopping p \<longleftrightarrow> tp_live p \<and> tp_stop p \<and> \<not> ctor_failed p"

lemma sum_list_upd:
  fixes f :: "'a \<Rightarrow> nat"
  shows "i < length xs \<Longrightarrow> sum_list (map f (xs[i := x])) + f (xs ! i) = sum_list (map f xs) + f x"
  by (induction xs arbitrary: i) (auto split: nat.split)

lemma weight_w:
  assumes "i < length (tp_workers p)" "tp_workers p' = (tp_workers p)[i := pc]" "tp_clients p' = tp_clients p"
    "w_weight pc < w_weight (tp_workers p ! i)"
  shows "tp_weight p' < tp_weight p"
  using assms sum_list_upd [OF assms(1), of w_weight pc] by (simp add: tp_weight_def)

lemma weight_c:
  assumes "c < length (tp_clients p)" "tp_workers p' = tp_workers p" "tp_clients p' = (tp_clients p)[c := pc]"
    "c_weight (length (tp_workers p)) pc < c_weight (length (tp_workers p)) (tp_clients p ! c)"
  shows "tp_weight p' < tp_weight p"
  using assms sum_list_upd [OF assms(1), of "c_weight (length (tp_workers p))" pc] by (simp add: tp_weight_def)

lemma wake_weight: "w_weight (wake_w w) \<le> w_weight w" "c_weight n (wake_c pc) \<le> c_weight n pc"
  "wake_w w \<noteq> w \<Longrightarrow> w_weight (wake_w w) < w_weight w" "wake_c pc \<noteq> pc \<Longrightarrow> c_weight n (wake_c pc) < c_weight n pc"
  by (cases w; simp; fail | cases pc; simp; fail)+

lemma weight_notify_all: "tp_weight (notify_all p) \<le> tp_weight p"
  unfolding tp_weight_def by (auto intro!: add_mono sum_list_mono simp: wake_weight comp_def)

lemma weight_wake: "waits x p \<Longrightarrow> tp_weight (wake x p) < tp_weight p"
  by (cases x) (auto intro: weight_w weight_c wake_weight)

lemma weight_worker_step:
  assumes "tp_inv p" "tp_stop p" "i < length (tp_workers p)" "worker_step i p = Some (Inr p')"
  shows "tp_weight p' < tp_weight p"
  using tp_inv_w_okD [OF assms(1,3)] tp_inv_queue [OF assms(1)] assms(2-)
  by (cases "tp_workers p ! i")
    (auto simp: worker_step_def split: if_splits intro!: weight_w [OF assms(3)])

lemma weight_client_step:
  assumes I: "tp_inv p" and st: "tp_stop p" and f: "\<not> ctor_failed p"
    and c: "c < length (tp_clients p)" and s: "client_step ok pick c p = Some p'"
  shows "tp_weight p' < tp_weight p"
proof -
  note okc = tp_inv_c_okD [OF I c] tp_inv_queue [OF I]
  have nf: "\<not> ctor_failed_pc (tp_clients p ! c)" using f c by (auto simp: ctor_failed_def)
  show ?thesis
  proof (cases "tp_clients p ! c")
    case (StopNotify d)
    then have "tp_weight p' < tp_weight (notify_all p)" using s c
      by (auto simp: client_step_defs intro!: weight_c [where c = c])
    then show ?thesis using weight_notify_all [of p] by simp
  next
    case (EnqNotify t)
    have "length (tp_clients (notify_one pick p)) = length (tp_clients p)"
      "tp_clients (notify_one pick p) ! c = EnqNotify t"
      using EnqNotify by (cases pick; auto simp: notify_one_def nth_list_update)+
    then have "tp_weight p' < tp_weight (notify_one pick p)" using EnqNotify s c
      by (auto simp: client_step_defs intro!: weight_c [where c = c])
    moreover have "tp_weight (notify_one pick p) \<le> tp_weight p"
      using weight_wake [of pick p] by (auto simp: notify_one_def)
    ultimately show ?thesis by simp
  qed (use s st okc nf in \<open>auto simp: client_step_defs join_step_def split: if_splits
      intro!: weight_c [OF c]\<close>)
qed

text \<open>A stopped pool stays stopped, and its constructor does not fail any more.\<close>

lemma stop_client_step:
  assumes I: "tp_inv p" and st: "tp_stop p" and f: "\<not> ctor_failed p"
    and c: "c < length (tp_clients p)" and s: "client_step ok pick c p = Some p'"
  shows "tp_stop p' \<and> \<not> ctor_failed p'"
proof -
  have F: "\<not> ctor_failed q" if "tp_clients q = (tp_clients r)[c := pc]" "\<not> ctor_failed r" "\<not> ctor_failed_pc pc"
    for q r :: "'a tpool" and pc using that by (auto simp: ctor_failed_def elim!: set_updateE)
  have nf: "\<not> ctor_failed_pc (tp_clients p ! c)" using f c by (auto simp: ctor_failed_def)
  have w: "ctor_failed (wake x p) \<Longrightarrow> ctor_failed p" if "waits x p" for x
    using that by (cases x) (auto simp: ctor_failed_def elim!: set_updateE)
  have n: "\<not> ctor_failed (notify_one pick p)" using f w [of pick] by (auto simp: notify_one_def)
  have n': "tp_stop (notify_one pick p)" using st by (cases pick) (simp_all add: notify_one_def)
  show ?thesis
  proof (cases "tp_clients p ! c")
    case (StopNotify d)
    then show ?thesis using s st f F [of p' "notify_all p" "StopJoin d 0"]
      by (auto simp: client_step_defs)
  next
    case (EnqNotify t)
    then show ?thesis using s n n' F [of p' "notify_one pick p" "Finished (RetFuture t)"]
      by (auto simp: client_step_defs)
  qed (use s st f nf tp_inv_c_okD [OF I c] in \<open>auto simp: client_step_defs join_step_def ctor_failed_def split: if_splits
      elim!: set_updateE\<close>)
qed

lemma stopping_step:
  assumes "tp_stopping p" "tp_step p p'"
  shows "tp_stopping p' \<and> tp_weight p' < tp_weight p"
proof -
  have l: "tp_live p'" "tp_inv p" "tp_stop p" "\<not> ctor_failed p"
    using assms live_step by (auto simp: tp_stopping_def tp_live_def)
  from assms(2) show ?thesis
  proof cases
    case (worker i)
    have "tp_stop p' = tp_stop p" using worker(2)
      by (auto simp: worker_step_def split: wpc.splits if_splits list.splits)
    then show ?thesis using l weight_worker_step [OF l(2,3) worker] ctor_failed_worker_step [OF worker(2)]
      by (simp add: tp_stopping_def)
  next
    case (client c pick ok)
    then show ?thesis using l weight_client_step [OF l(2,3,4) client(1,3)] stop_client_step [OF l(2,3,4) client(1,3)]
      by (simp add: tp_stopping_def)
  qed
qed

lemma stopping_spurious:
  assumes "tp_stopping p" "tp_spurious p p'"
  shows "tp_stopping p' \<and> tp_weight p' < tp_weight p"
  using assms(2)
proof cases
  case (spurious x)
  have "tp_stop p' = tp_stop p" "ctor_failed p' \<Longrightarrow> ctor_failed p"
    using spurious by (cases x; auto simp: ctor_failed_def elim!: set_updateE)+
  then show ?thesis using assms live_spurious spurious weight_wake by (auto simp: tp_stopping_def)
qed

lemma pick_exists: "\<exists>pick. waits pick p \<or> (\<forall>x. \<not> waits x p)"
  by blast

lemma stopping_progress:
  assumes "tp_stopping p" "\<not> tp_settled p"
  shows "\<exists>p'. tp_step p p'"
proof -
  have I: "tp_inv p" and st: "tp_stop p" and f: "\<not> ctor_failed p" and nl: "no_lost_wakeup p"
    using assms(1) by (auto simp: tp_stopping_def tp_live_def)
  obtain pick where pick: "waits pick p \<or> (\<forall>x. \<not> waits x p)" using pick_exists by blast
  have W: ?thesis if "i < length (tp_workers p)" "worker_step i p = Some (Inr p')" for i p'
    using tp_step.worker [OF that] by blast
  have C: ?thesis if "c < length (tp_clients p)" "client_step True pick c p = Some p'" for c p'
    using tp_step.client [OF that(1) pick that(2)] by blast
  have holder: "tp_mutex p = None" if "\<not> ?thesis"
  proof (cases "tp_mutex p")
    case (Some x)
    then show ?thesis
    proof (cases x)
      case (Worker i)
      then have "i < length (tp_workers p)" "w_holds (tp_workers p ! i)" using I Some by (auto simp: tp_inv_def)
      then show ?thesis using W [of i] that tp_inv_queue [OF I] tp_inv_w_okD [OF I, of i]
        by (cases "tp_workers p ! i") (auto simp: worker_step_def)
    next
      case (Client c)
      then have "c < length (tp_clients p)" "c_holds (tp_clients p ! c)" using I Some by (auto simp: tp_inv_def)
      then show ?thesis using C [of c] that tp_inv_queue [OF I] st
        by (cases "tp_clients p ! c") (auto simp: client_step_defs)
    qed
  qed simp
  have awake: "awake p" if "\<not> ?thesis"
  proof (rule ccontr)
    assume "\<not> awake p"
    then obtain d where "StopNotify d \<in> set (tp_clients p)" using nl st by (auto simp: no_lost_wakeup_def)
    then obtain c where "c < length (tp_clients p)" "tp_clients p ! c = StopNotify d" by (auto simp: in_set_conv_nth)
    then show False using C [of c] that by (simp add: client_step_defs)
  qed
  have ret: "\<forall>pc \<in> set (tp_workers p). pc = WReturned" if n: "\<not> ?thesis"
  proof
    fix pc assume "pc \<in> set (tp_workers p)"
    then obtain i where i: "i < length (tp_workers p)" "tp_workers p ! i = pc" by (auto simp: in_set_conv_nth)
    then have "wake_w pc = pc" using awake [OF n] by (auto simp: awake_def)
    then show "pc = WReturned" using i W [of i] n holder [OF n] tp_inv_w_okD [OF I i(1)] st tp_inv_queue [OF I]
      by (cases pc) (auto simp: worker_step_def split: if_splits)
  qed
  have "\<exists>r. pc = Finished r" if n: "\<not> ?thesis" and pc: "pc \<in> set (tp_clients p)" for pc
  proof -
    obtain c where c: "c < length (tp_clients p)" "tp_clients p ! c = pc" using pc by (auto simp: in_set_conv_nth)
    then have "wake_c pc = pc" using awake [OF n] by (auto simp: awake_def)
    moreover have "tp_workers p ! i = WReturned" if "i < length (tp_workers p)" for i using ret [OF n] that by simp
    moreover have "client_step True pick c p = None"
      using C [OF c(1)] n by (cases "client_step True pick c p") auto
    ultimately show ?thesis using c f holder [OF n] ctor_failed_def [of p]
      by (cases pc) (auto simp: client_step_defs join_step_def split: if_splits)
  qed
  then show ?thesis using assms(2) ret unfolding tp_settled_def by blast
qed

interpretation tpl: settling tp_step tp_spurious tp_stopping tp_settled tp_weight
  by unfold_locales (erule (1) stopping_step stopping_spurious stopping_progress)+





section \<open>Runs as lists of actions\<close>

text \<open>
  An action of a worker, an action of a client with the outcome of a thread creation and the
  choice of \<^verbatim>\<open>notify_one\<close>, and a call.
\<close>

datatype 't tp_act = AW nat | AC nat bool tid | ACall "'t cpc"

fun tp_do :: "'t tp_act \<Rightarrow> 't tpool \<Rightarrow> 't tpool option" where
  "tp_do (AW i) p = (if i < length (tp_workers p) then
     case worker_step i p of Some (Inr p') \<Rightarrow> Some p' | _ \<Rightarrow> None else None)"
| "tp_do (AC c ok pick) p = (if c < length (tp_clients p) \<and> (waits pick p \<or> awake p)
     then client_step ok pick c p else None)"
| "tp_do (ACall pc) p = (if tp_clients p ! 0 = Finished Ret \<and> first_pc pc
     then Some (p\<lparr>tp_clients := tp_clients p @ [pc]\<rparr>) else None)"

fun tp_run :: "'t tp_act list \<Rightarrow> 't tpool \<Rightarrow> 't tpool option" where
  "tp_run [] p = Some p"
| "tp_run (a # as) p = Option.bind (tp_do a p) (tp_run as)"

lemma tp_do_reach:
  assumes "tp_reach n p" "tp_do a p = Some p'"
  shows "tp_reach n p'"
proof (cases a)
  case (AW i)
  then show ?thesis using assms tp_reach.step [OF assms(1) tp_step.worker [of i]]
    by (auto split: if_splits option.splits sum.splits)
next
  case (AC c ok pick)
  then have "waits pick p \<or> (\<forall>x. \<not> waits x p)" using assms(2) waits_awake by (auto split: if_splits)
  then show ?thesis using AC assms(2) tp_reach.step [OF assms(1) tp_step.client [of c _ pick]]
    by (auto split: if_splits)
next
  case (ACall pc)
  then show ?thesis using assms(2) tp_reach.call [OF assms(1) tp_call.call [of p pc]]
    by (auto split: if_splits)
qed

lemma tp_run_reach: "tp_run as p = Some p' \<Longrightarrow> tp_reach n p \<Longrightarrow> tp_reach n p'"
  by (induction as arbitrary: p) (auto simp: Option.bind_eq_Some_conv dest: tp_do_reach)

text \<open>One worker and one call of \<^verbatim>\<open>enqueue\<close> wait when the pool is told to stop.\<close>

definition demo_pool :: "nat tpool" where
  "demo_pool = \<lparr>tp_workers = [WWait], tp_joinable = [True], tp_tasks = [], tp_active = 0, tp_mutex = None,
     tp_stop = True, tp_clients = [Finished Ret, EnqWait 7, StopNotify False], tp_ran = []\<rparr>"

lemma demo_reach: "tp_reach 1 demo_pool"
proof -
  have "tp_run [AC 0 True (Worker 0), AC 0 True (Worker 0), AW 0, AW 0, ACall (EnqLock 7), AW 0,
      AC 1 True (Worker 0), AC 1 True (Worker 0), AC 1 True (Worker 0), ACall (StopLock False), AC 2 True (Worker 0)]
    (projr (new_ThreadPool 1)) = Some demo_pool"
    by code_simp
  moreover have "new_ThreadPool 1 = Inr (projr (new_ThreadPool 1 :: pool_exn + nat tpool))"
    by (simp add: new_ThreadPool_def)
  ultimately show ?thesis using tp_run_reach tp_reach.start by blast
qed



text \<open>
  The handler of the constructor sets \<open>stop\<close> without the mutex.  When the second thread cannot be
  created while the first worker is about to block, the notification is lost: the worker waits,
  the constructor waits for the worker, and no thread can act.
\<close>

theorem ctor_failure_hangs:
  "\<exists>p :: nat tpool. tp_reach 2 p \<and> tp_stop p \<and> tp_workers p = [WWait] \<and> tp_clients p = [CatchJoin 0] \<and>
     \<not> (\<exists>q. tp_step p q)"
proof -
  let ?p = "\<lparr>tp_workers = [WWait], tp_joinable = [True], tp_tasks = [], tp_active = 0, tp_mutex = None,
     tp_stop = True, tp_clients = [CatchJoin 0], tp_ran = []\<rparr> :: nat tpool"
  have "tp_run [AC 0 True (Worker 0), AW 0, AW 0, AC 0 False (Worker 0), AC 0 True (Worker 0),
      AC 0 True (Worker 0), AW 0] (projr (new_ThreadPool 2)) = Some ?p"
    by code_simp
  moreover have "new_ThreadPool 2 = Inr (projr (new_ThreadPool 2 :: pool_exn + nat tpool))"
    by (simp add: new_ThreadPool_def)
  ultimately have "tp_reach 2 ?p" using tp_run_reach tp_reach.start by blast
  moreover have "\<not> tp_step ?p q" for q
    by (auto elim!: tp_step.cases simp: worker_step_def client_step_defs join_step_def)
  ultimately show ?thesis by (intro exI [of _ ?p]) simp
qed

end
