(* ===== verification/Lockfree_Tree.thy ===== *)
theory Lockfree_Tree
  imports AVL_Tree
begin

text \<open>
  \<^verbatim>\<open>avl_lockfree.hpp\<close>: the variant of the balanced tree whose nodes are linked by atomic shared
  pointers and whose operations retry with \<^verbatim>\<open>compare_exchange_weak\<close>.  The nodes are those of
  \<open>AVL_Tree\<close>; the functions are written out again because they differ from the locking ones: the
  rebalancing rotates twice also when the two grandchildren are equally deep, an insertion of a
  key that is present stores the value, and a removal unlinks the successor without
  rebalancing the path to it.

  The model is one thread and a \<^verbatim>\<open>compare_exchange_weak\<close> that does not fail spuriously, so that
  every exchange succeeds at its first attempt.

  The theorem shows that the tree still represents a map after any sequence of operations, and
  that without removals it is node for node the tree of the locking variant, hence balanced; a
  lemma gives a removal that leaves it unbalanced and wrongly measured.
\<close>

section \<open>Nodes and rotations\<close>

definition lf_new_node :: "'k \<Rightarrow> 'v \<Rightarrow> ('k, 'v) avl_node" where
  "lf_new_node k v = AVLNode k v 1 1 Null Null"

fun lf_getDepth :: "('k, 'v) avl_node \<Rightarrow> u32" where
  "lf_getDepth Null = 0"
| "lf_getDepth (AVLNode k v d w l r) = d"

fun lf_getWeight :: "('k, 'v) avl_node \<Rightarrow> u32" where
  "lf_getWeight Null = 0"
| "lf_getWeight (AVLNode k v d w l r) = w"

fun lf_update :: "('k, 'v) avl_node \<Rightarrow> ('k, 'v) avl_node" where
  "lf_update Null = Null"
| "lf_update (AVLNode k v d w l r) =
     AVLNode k v (1 + max (lf_getDepth l) (lf_getDepth r)) (1 + lf_getWeight l + lf_getWeight r) l r"

fun lf_rotateLeft :: "('k, 'v) avl_node \<Rightarrow> ('k, 'v) avl_node" where
  "lf_rotateLeft (AVLNode k v d w l (AVLNode k' v' d' w' l' r')) =
     lf_update (AVLNode k' v' d' w' (lf_update (AVLNode k v d w l l')) r')"
| "lf_rotateLeft t = t"

fun lf_rotateRight :: "('k, 'v) avl_node \<Rightarrow> ('k, 'v) avl_node" where
  "lf_rotateRight (AVLNode k v d w (AVLNode k' v' d' w' l' r') r) =
     lf_update (AVLNode k' v' d' w' l' (lf_update (AVLNode k v d w r' r)))"
| "lf_rotateRight t = t"

fun lf_fixLeft :: "('k, 'v) avl_node \<Rightarrow> ('k, 'v) avl_node" where
  "lf_fixLeft (AVLNode k v d w (AVLNode k' v' d' w' l' r') r) =
     (let leftNode = AVLNode k' v' d' w' l' r';
          newLeft = (if lf_getDepth r' \<ge> lf_getDepth l' then lf_rotateLeft leftNode else leftNode)
      in lf_rotateRight (AVLNode k v d w newLeft r))"
| "lf_fixLeft t = t"

fun lf_fixRight :: "('k, 'v) avl_node \<Rightarrow> ('k, 'v) avl_node" where
  "lf_fixRight (AVLNode k v d w l (AVLNode k' v' d' w' l' r')) =
     (let rightNode = AVLNode k' v' d' w' l' r';
          newRight = (if lf_getDepth l' \<ge> lf_getDepth r' then lf_rotateRight rightNode else rightNode)
      in lf_rotateLeft (AVLNode k v d w l newRight))"
| "lf_fixRight t = t"

definition lf_fix :: "('k, 'v) avl_node \<Rightarrow> ('k, 'v) avl_node" where
  "lf_fix node =
     (if node = Null then Null
      else let node = lf_update node;
               leftDepth = lf_getDepth (node_left node);
               rightDepth = lf_getDepth (node_right node)
           in if leftDepth > rightDepth + 1 then lf_fixLeft node
              else if rightDepth > leftDepth + 1 then lf_fixRight node
              else node)"

section \<open>Operations\<close>

fun lf_insert :: "('k::linorder, 'v) avl_node \<Rightarrow> 'k \<Rightarrow> 'v \<Rightarrow> ('k, 'v) avl_node" where
  "lf_insert Null key val = lf_new_node key val"
| "lf_insert (AVLNode k v d w l r) key val =
     (if key < k then lf_fix (AVLNode k v d w (lf_insert l key val) r)
      else if key > k then lf_fix (AVLNode k v d w l (lf_insert r key val))
      else AVLNode k val d w l r)"

text \<open>The walk to the successor, which is the leftmost node, and the exchange that unlinks it.\<close>

fun successor :: "('k, 'v) avl_node \<Rightarrow> 'k \<times> 'v \<Rightarrow> 'k \<times> 'v" where
  "successor Null kv = kv"
| "successor (AVLNode k v d w l r) kv = successor l (k, v)"

fun unlink_successor :: "('k, 'v) avl_node \<Rightarrow> ('k, 'v) avl_node" where
  "unlink_successor Null = Null"
| "unlink_successor (AVLNode k v d w l r) =
     (if l = Null then r else AVLNode k v d w (unlink_successor l) r)"

fun lf_remove :: "('k::linorder, 'v) avl_node \<Rightarrow> 'k \<Rightarrow> ('k, 'v) avl_node" where
  "lf_remove Null key = Null"
| "lf_remove (AVLNode k v d w l r) key =
     (if key < k then lf_fix (AVLNode k v d w (lf_remove l key) r)
      else if key > k then lf_fix (AVLNode k v d w l (lf_remove r key))
      else if l = Null then r
      else if r = Null then l
      else let (sk, sv) = successor r (k, v)
           in lf_fix (AVLNode sk sv d w l (unlink_successor r)))"

fun lf_search :: "('k::linorder, 'v) avl_node \<Rightarrow> 'k \<Rightarrow> ('k, 'v) avl_node" where
  "lf_search Null key = Null"
| "lf_search (AVLNode k v d w l r) key =
     (if key = k then AVLNode k v d w l r
      else lf_search (if key < k then l else r) key)"

text \<open>The exchange of the value of the node that \<^verbatim>\<open>search\<close> has found.\<close>

fun lf_exchange_value :: "('k::linorder, 'v) avl_node \<Rightarrow> 'k \<Rightarrow> 'v \<Rightarrow> ('k, 'v) avl_node" where
  "lf_exchange_value Null key val = Null"
| "lf_exchange_value (AVLNode k v d w l r) key val =
     (if key = k then AVLNode k val d w l r
      else if key < k then AVLNode k v d w (lf_exchange_value l key val) r
      else AVLNode k v d w l (lf_exchange_value r key val))"

record ('k, 'v) lf_tree =
  lf_root :: "('k, 'v) avl_node"

definition lf_new :: "('k, 'v) lf_tree" where
  "lf_new = \<lparr>lf_root = Null\<rparr>"

definition lf_set :: "'k::linorder \<Rightarrow> 'v \<Rightarrow> ('k, 'v) lf_tree \<Rightarrow> ('k, 'v) lf_tree" where
  "lf_set key val t =
     (if lf_search (lf_root t) key \<noteq> Null then t\<lparr>lf_root := lf_exchange_value (lf_root t) key val\<rparr>
      else t\<lparr>lf_root := lf_insert (lf_root t) key val\<rparr>)"

definition lf_get :: "'k::linorder \<Rightarrow> ('k, 'v) lf_tree \<Rightarrow> 'v option" where
  "lf_get key t = (case lf_search (lf_root t) key of Null \<Rightarrow> None | AVLNode k v d w l r \<Rightarrow> Some v)"

definition lf_del :: "'k::linorder \<Rightarrow> ('k, 'v) lf_tree \<Rightarrow> ('k, 'v) lf_tree" where
  "lf_del key t = (if lf_root t = Null then t else t\<lparr>lf_root := lf_remove (lf_root t) key\<rparr>)"

definition lf_exists :: "'k::linorder \<Rightarrow> ('k, 'v) lf_tree \<Rightarrow> bool" where
  "lf_exists key t \<longleftrightarrow> lf_search (lf_root t) key \<noteq> Null"

section \<open>The parts that agree with the locking tree\<close>

lemma lf_new_node_same [simp]: "lf_new_node k v = new_node k v"
  by (simp add: lf_new_node_def new_node_def)

lemma lf_fields_same [simp]: "lf_getDepth t = getDepth t" "lf_getWeight t = getWeight t"
  by (cases t; simp)+

lemma lf_update_same [simp]: "lf_update t = updateNode t"
  by (cases t) auto

lemma lf_rotate_same [simp]: "lf_rotateLeft t = rotateLeft t" "lf_rotateRight t = rotateRight t"
  by (cases t rule: rotateLeft.cases; simp) (cases t rule: rotateRight.cases; simp)

lemma lf_search_same [simp]: "lf_search t key = avl_search t key"
  by (induction t key rule: avl_search.induct) auto

lemma lf_exchange_same [simp]: "lf_exchange_value t key val = avl_assign t key val"
  by (induction t key val rule: avl_assign.induct) auto

section \<open>Contents\<close>

lemma inorder_lf_fixLeft [simp]: "inorder (lf_fixLeft t) = inorder t"
  by (cases t rule: lf_fixLeft.cases) (auto simp: Let_def simp del: updateNode.simps)

lemma inorder_lf_fixRight [simp]: "inorder (lf_fixRight t) = inorder t"
  by (cases t rule: lf_fixRight.cases) (auto simp: Let_def simp del: updateNode.simps)

lemma inorder_lf_fix [simp]: "inorder (lf_fix t) = inorder t"
  by (simp add: lf_fix_def Let_def)

lemmas lf_fix_contents [simp] =
  inorder_lf_fix [THEN inorder_eq, THEN conjunct1] inorder_lf_fix [THEN inorder_eq, THEN conjunct2]

lemma lf_insert_contents:
  "bst t \<Longrightarrow> key \<notin> fst ` contents t \<Longrightarrow>
    bst (lf_insert t key val) \<and> contents (lf_insert t key val) = insert (key, val) (contents t)"
  by (induction t key val rule: lf_insert.induct) (auto simp: new_node_def image_iff)

lemma successor_inorder: "t \<noteq> Null \<Longrightarrow> inorder t = successor t kv # inorder (unlink_successor t)"
proof (induction t arbitrary: kv)
  case (AVLNode k v d w l r)
  then show ?case by (cases "l = Null") auto
qed simp

lemma bst_hd:
  assumes "bst t" "inorder t = (k, v) # inorder t'"
  shows "bst t'" "contents t = insert (k, v) (contents t')" "\<forall>p \<in> contents t'. k < fst p"
  using assms by (auto simp: bst_def contents_def)

lemma lf_remove_contents:
  "bst t \<Longrightarrow> bst (lf_remove t key) \<and> contents (lf_remove t key) = {p \<in> contents t. fst p \<noteq> key}"
proof (induction t key rule: lf_remove.induct)
  case (2 k v d w l r key)
  note bst = \<open>bst (AVLNode k v d w l r)\<close>
  consider "key < k" | "k < key" | "key = k" "l = Null \<or> r = Null" | "key = k" "l \<noteq> Null" "r \<noteq> Null"
    by force
  then show ?case
  proof cases
    case 1
    then show ?thesis using bst 2(1) by auto
  next
    case 2
    then show ?thesis using bst "2.IH"(2) by auto
  next
    case 3
    then show ?thesis using bst by auto
  next
    case 4
    obtain sk sv where s: "successor r (k, v) = (sk, sv)" by (cases "successor r (k, v)")
    have "inorder r = (sk, sv) # inorder (unlink_successor r)" using successor_inorder [OF 4(3), of "(k, v)"] s by simp
    note u = bst_hd [OF _ this]
    have "bst r" using bst by simp
    moreover have "k < sk" using bst u(2) [OF \<open>bst r\<close>] by auto
    ultimately show ?thesis using 4 s u bst by auto
  qed
qed simp

section \<open>The tree as a map\<close>

definition lf_map :: "('k::linorder, 'v) lf_tree \<Rightarrow> 'k \<rightharpoonup> 'v" where
  "lf_map t = map_of (inorder (lf_root t))"

definition lf_inv :: "('k::linorder, 'v) lf_tree \<Rightarrow> bool" where
  "lf_inv t \<longleftrightarrow> bst (lf_root t)"

lemma lf_get_map:
  assumes "lf_inv t"
  shows "lf_get k t = lf_map t k"
proof -
  have bst: "bst (lf_root t)" using assms by (simp add: lf_inv_def)
  have "lf_get k t = node_val (avl_search (lf_root t) k)"
    by (cases "avl_search (lf_root t) k") (simp_all add: lf_get_def)
  then show ?thesis
    using avl_search_contents [OF bst, of k] map_of_inorder [OF bst, of k]
    by (metis lf_map_def not_Some_eq)
qed

lemma lf_set_map:
  assumes "lf_inv t"
  shows "lf_inv (lf_set k v t) \<and> lf_map (lf_set k v t) = (lf_map t)(k \<mapsto> v)"
proof -
  let ?r = "lf_root t"
  have bst: "bst ?r" using assms by (simp add: lf_inv_def)
  note mem = map_of_inorder [OF bst]
  show ?thesis
  proof (cases "k \<in> fst ` contents ?r")
    case True
    note a = avl_assign_contents [OF bst True, of v]
    have "map_of (inorder (avl_assign ?r k v)) = (map_of (inorder ?r))(k \<mapsto> v)"
      using a mem by (intro map_of_inorder_eqI) auto
    then show ?thesis using True a avl_search_Null [OF bst, of k]
      by (auto simp: lf_set_def lf_inv_def lf_map_def)
  next
    case False
    note a = lf_insert_contents [OF bst False, of v]
    have "map_of (inorder (lf_insert ?r k v)) = (map_of (inorder ?r))(k \<mapsto> v)"
      using a mem False by (intro map_of_inorder_eqI) (auto simp: image_iff)
    then show ?thesis using False a avl_search_Null [OF bst, of k]
      by (auto simp: lf_set_def lf_inv_def lf_map_def)
  qed
qed

lemma lf_del_map:
  assumes "lf_inv t"
  shows "lf_inv (lf_del k t) \<and> lf_map (lf_del k t) = (lf_map t)(k := None)"
proof -
  have bst: "bst (lf_root t)" using assms by (simp add: lf_inv_def)
  note a = lf_remove_contents [OF bst, of k]
  have "map_of (inorder (lf_remove (lf_root t) k)) = (map_of (inorder (lf_root t)))(k := None)"
    using a map_of_inorder [OF bst] by (intro map_of_inorder_eqI) auto
  then show ?thesis using a by (auto simp: lf_del_def lf_inv_def lf_map_def)
qed

interpretation lft: overwriting_map lf_new "\<lambda>k v t. Inr (lf_set k v t)" lf_get "\<lambda>k t. Inr (lf_del k t)"
  "\<lambda>k t. Inr (lf_exists k t)" lf_inv lf_map n for n
proof
  show "lf_inv lf_new \<and> lf_map lf_new = Map.empty" by (simp add: lf_inv_def lf_new_def lf_map_def)
  fix t :: "('k::linorder, 'v) lf_tree" and k
  assume inv: "lf_inv t"
  show "Inr (lf_exists k t) = Inr (k \<in> dom (lf_map t))"
    using inv avl_search_Null [of "lf_root t" k]
    by (auto simp: lf_exists_def lf_inv_def lf_map_def dom_map_of_conv_image_fst contents_def)
  show "finite (dom (lf_map t))" by (simp add: lf_map_def finite_dom_map_of)
qed (auto simp: lf_set_map lf_get_map lf_del_map)

section \<open>Insertions agree with the locking tree\<close>

text \<open>The two ways of rebalancing differ only where the grandchildren are equally deep.\<close>

lemma lf_fix_same:
  assumes "\<not> (getDepth r + 1 < getDepth l \<and> getDepth (node_left l) = getDepth (node_right l))"
    "\<not> (getDepth l + 1 < getDepth r \<and> getDepth (node_left r) = getDepth (node_right r))"
  shows "lf_fix (AVLNode k v d w l r) = avl_fix (AVLNode k v d w l r)"
proof -
  have L: "lf_fixLeft (AVLNode k v d w l r) = fixLeft (AVLNode k v d w l r)"
    if "getDepth (node_left l) \<noteq> getDepth (node_right l)" for d w
    using that by (cases l) (auto simp: Let_def order.order_iff_strict)
  have R: "lf_fixRight (AVLNode k v d w l r) = fixRight (AVLNode k v d w l r)"
    if "getDepth (node_left r) \<noteq> getDepth (node_right r)" for d w
    using that by (cases r) (auto simp: Let_def order.order_iff_strict)
  show ?thesis using assms L R by (auto simp: lf_fix_def avl_fix_def Let_def)
qed

text \<open>An insertion that makes a tree higher leaves its root with subtrees of different heights.\<close>

lemma insert_grown:
  assumes "avl_ok t" "height t < max_height" "t \<noteq> Null" "height (avl_insert t key val) = Suc (height t)"
  shows "height (node_left (avl_insert t key val)) \<noteq> height (node_right (avl_insert t key val))"
  using assms
proof (induction t key val rule: avl_insert.induct)
  case (2 k v d w l r key val)
  have ok: "avl_ok l" "avl_ok r" "height l \<le> Suc (height r)" "height r \<le> Suc (height l)"
      "height l < max_height" "height r < max_height"
    using 2(3,4) by auto
  let ?l = "avl_insert l key val" and ?r = "avl_insert r key val"
  note il = avl_insert_ok [OF ok(1,5), of key val] and ir = avl_insert_ok [OF ok(2,6), of key val]
  have el: "measured ?l" "measured ?r" "balanced ?l" "balanced ?r" "measured l" "measured r" "balanced l" "balanced r"
    using il ir ok by (auto simp: avl_ok_def)
  consider "key < k" | "k < key" | "key = k" by force
  then show ?case
  proof cases
    case 1
    show ?thesis
    proof (cases "height ?l \<le> Suc (height r)")
      case True
      then show ?thesis using 1 2(6) il ok el avl_fix_even [of ?l r k v d w] by auto
    next
      case False
      then have g: "height ?l = height r + 2" "l \<noteq> Null" "height ?l = Suc (height l)"
        using il ok by (auto simp: new_node_def)
      then show ?thesis using 1 2(1,6) il ok el avl_fix_left_heavy [of ?l r k v d w] by auto
    qed
  next
    case c: 2
    then have nk: "\<not> key < k" by simp
    show ?thesis
    proof (cases "height ?r \<le> Suc (height l)")
      case True
      then show ?thesis using c 2(6) ir ok el nk avl_fix_even [of l ?r k v d w] by auto
    next
      case False
      then have g: "height ?r = height l + 2" "r \<noteq> Null" "height ?r = Suc (height r)"
        using ir ok by (auto simp: new_node_def)
      then show ?thesis using c nk 2(6) "2.IH"(2) ir ok el avl_fix_right_heavy [of l ?r k v d w] by auto
    qed
  next
    case 3
    then show ?thesis using 2(6) by simp
  qed
qed simp

lemma deeper:
  assumes "measured a" "measured b" "height a \<le> max_height + 1" "height b \<le> max_height + 1"
  shows "getDepth a + 1 < getDepth b \<longleftrightarrow> Suc (height a) < height b" "getDepth a = getDepth b \<longleftrightarrow> height a = height b"
proof -
  show "getDepth a + 1 < getDepth b \<longleftrightarrow> Suc (height a) < height b"
    using assms depth_less_Suc [of "height a" "height b"] by (simp add: getDepth_measured)
  show "getDepth a = getDepth b \<longleftrightarrow> height a = height b"
    using assms depth_less [of "height a" "height b"] depth_less [of "height b" "height a"]
    by (auto simp: getDepth_measured)
qed

lemma children_measured: "measured t \<Longrightarrow> t \<noteq> Null \<Longrightarrow> measured (node_left t) \<and> measured (node_right t) \<and>
    height (node_left t) < height t \<and> height (node_right t) < height t"
  by (cases t) auto

lemma lf_insert_same:
  "avl_ok t \<Longrightarrow> height t < max_height \<Longrightarrow> key \<notin> fst ` contents t \<Longrightarrow> lf_insert t key val = avl_insert t key val"
proof (induction t key val rule: avl_insert.induct)
  case (2 k v d w l r key val)
  have ok: "avl_ok l" "avl_ok r" "height l \<le> Suc (height r)" "height r \<le> Suc (height l)"
      "height l < max_height" "height r < max_height"
    using 2(3,4) by auto
  let ?l = "avl_insert l key val" and ?r = "avl_insert r key val"
  note il = avl_insert_ok [OF ok(1,5), of key val] and ir = avl_insert_ok [OF ok(2,6), of key val]
  have m: "measured ?l" "measured ?r" "measured l" "measured r"
    using il ir ok by (auto simp: avl_ok_def)
  have nk: "key \<notin> fst ` contents l" "key \<notin> fst ` contents r" using 2(5) by auto
  consider "key < k" | "k < key" using 2(5) by force
  then show ?case
  proof cases
    case 1
    have "getDepth (node_left ?l) \<noteq> getDepth (node_right ?l)" if "getDepth r + 1 < getDepth ?l"
    proof -
      have g: "Suc (height r) < height ?l" using that deeper(1) [OF m(4,1)] il ok by simp
      then have "l \<noteq> Null" "height ?l = Suc (height l)" "?l \<noteq> Null" using il ok by (auto simp: new_node_def)
      then show ?thesis using insert_grown [OF ok(1,5)] children_measured [OF m(1)] il ok
          deeper(2) [of "node_left ?l" "node_right ?l"] by simp
    qed
    moreover have "\<not> getDepth ?l + 1 < getDepth r" using deeper(1) [OF m(1,4)] il ok by simp
    ultimately show ?thesis using 1 2(1) nk ok lf_fix_same [of r ?l k v d w] by auto
  next
    case c: 2
    then have ng: "\<not> key < k" by simp
    have "getDepth (node_left ?r) \<noteq> getDepth (node_right ?r)" if "getDepth l + 1 < getDepth ?r"
    proof -
      have g: "Suc (height l) < height ?r" using that deeper(1) [OF m(3,2)] ir ok by simp
      then have "r \<noteq> Null" "height ?r = Suc (height r)" "?r \<noteq> Null" using ir ok by (auto simp: new_node_def)
      then show ?thesis using insert_grown [OF ok(2,6)] children_measured [OF m(2)] ir ok
          deeper(2) [of "node_left ?r" "node_right ?r"] by simp
    qed
    moreover have "\<not> getDepth ?r + 1 < getDepth l" using deeper(1) [OF m(2,3)] ir ok by simp
    ultimately show ?thesis using c ng "2.IH"(2) nk ok lf_fix_same [of ?r l k v d w] by auto
  qed
qed simp

lemma lf_set_same:
  assumes "avl_inv t"
  shows "avl_set k v t = Inr (t\<lparr>avl_root := lf_root (lf_set k v \<lparr>lf_root = avl_root t\<rparr>)\<rparr>)"
proof -
  have inv: "bst (avl_root t)" "avl_ok (avl_root t)" "tree_mutex t = Unlocked" "height (avl_root t) < max_height"
    using assms small_height by (auto simp: avl_inv_def)
  then have "lf_insert (avl_root t) k v = avl_insert (avl_root t) k v" if "avl_search (avl_root t) k = Null"
    using that lf_insert_same [OF inv(2,4)] avl_search_Null [OF inv(1)] by simp
  then show ?thesis using inv by (auto simp: avl_set_def lf_set_def Let_def)
qed

section \<open>Properties\<close>

definition lf_run :: "('k::linorder \<times> 'v option) list \<Rightarrow> ('k, 'v) lf_tree" where
  "lf_run us = fold (\<lambda>(k, u). case u of Some v \<Rightarrow> lf_set k v | None \<Rightarrow> lf_del k) us lf_new"

lemma lf_run_map: "lf_inv (lf_run us) \<and> lf_map (lf_run us) = fold (\<lambda>(k, u) f. f(k := u)) us Map.empty"
proof (induction us rule: rev_induct)
  case Nil
  then show ?case using lft.new_ok by (simp add: lf_run_def)
next
  case (snoc x us)
  then show ?case using lf_set_map [of "lf_run us"] lf_del_map [of "lf_run us"]
    by (cases x; cases "snd x") (auto simp: lf_run_def)
qed

lemma lf_run_same:
  assumes "length us \<le> 2 ^ 31" "None \<notin> snd ` set us"
  shows "avl_run us = Inr \<lparr>avl_root = lf_root (lf_run us), tree_mutex = Unlocked\<rparr>"
  using assms
proof (induction us rule: rev_induct)
  case Nil
  then show ?case by (simp add: avl_run_def lf_run_def avl_new_def lf_new_def)
next
  case (snoc x us)
  obtain k v where x: "x = (k, Some v)" using snoc.prems(2) by (cases x; cases "snd x") auto
  let ?t = "\<lparr>avl_root = lf_root (lf_run us), tree_mutex = Unlocked\<rparr>"
  have run: "avl_run us = Inr ?t" using snoc by simp
  have "avl_inv (avl_new :: ('a, 'b) avl_tree)" "card (dom (avl_map (avl_new :: ('a, 'b) avl_tree))) + length us \<le> avl_limit"
    using avl.new_ok [where 'a = 'a and 'b = 'b] snoc.prems(1) by (auto simp: avl_limit_def)
  from avl.run_ok [OF this] have "avl_inv ?t" using run by (auto simp: avl_run_def)
  then have "avl_set k v ?t = Inr (?t\<lparr>avl_root := lf_root (lf_set k v (lf_run us))\<rparr>)"
    using lf_set_same [of ?t k v] by (cases "lf_run us") simp
  then show ?case using run x by (simp add: avl_run_def lf_run_def)
qed




text \<open>
  A removal can leave the tree unbalanced: with grandchildren of equal depth the double rotation
  moves the shallow half of the inner one to the deep outer one.  It can also leave a wrong
  weight above the successor that it unlinked.
\<close>

definition lf_sets :: "nat list \<Rightarrow> (nat \<times> unit option) list" where
  "lf_sets ks = map (\<lambda>k. (k, Some ())) ks"

lemma lf_remove_unbalances:
  "balanced (lf_root (lf_run (lf_sets [10, 5, 20, 3, 7, 30, 2, 8]))) \<and>
   \<not> balanced (lf_root (lf_run (lf_sets [10, 5, 20, 3, 7, 30, 2, 8] @ [(30, None)])))"
  by code_simp

lemma lf_remove_wrong_weight:
  "measured (lf_root (lf_run (lf_sets [4, 2, 6, 1, 3, 5, 7]))) \<and>
   getWeight (lf_root (lf_run (lf_sets [4, 2, 6, 1, 3, 5, 7] @ [(4, None)]))) = 7 \<and>
   nodes (lf_root (lf_run (lf_sets [4, 2, 6, 1, 3, 5, 7] @ [(4, None)]))) = 6"
  by code_simp

end
