(* ===== verification/Spec2Isabelle.thy ===== *)
theory Spec2Isabelle
  imports Server Raft_Cluster Linked_List Count_Min_Sketch Visited_List Brute_Force Skip_List Thread_Pool Lockfree_Tree
begin

text \<open>
  This development verifies the in-memory key-value server of this repository, together with
  the Raft consensus library and the data structures that are kept beside it.

  \<^bold>\<open>The program and its parts.\<close>
  \<^verbatim>\<open>src/main.cpp\<close> reads a port and starts a \<^verbatim>\<open>Server\<close> (\<^verbatim>\<open>src/server.hpp\<close>, \<^verbatim>\<open>src/socket.hpp\<close>), which
  accepts connections, polls them and hands the ready ones to \<^verbatim>\<open>Connection\<close>
  (\<^verbatim>\<open>src/connection.hpp\<close>).  A connection cuts the bytes it reads into commands and gives them to the
  \<^verbatim>\<open>CommandProcessor\<close> (\<^verbatim>\<open>src/command_processor.hpp\<close>), which works on the entries of the
  \<^verbatim>\<open>EntryManager\<close> (\<^verbatim>\<open>src/entry_manager.hpp\<close>) and answers through the response serializer.  An entry
  lives in the hash map (\<^verbatim>\<open>src/src/dsa/hashtable.hpp\<close>), may carry a sorted set
  (\<^verbatim>\<open>zset.hpp\<close>: a hash map and a balanced tree, \<^verbatim>\<open>avl_locking.hpp\<close>) and, when it expires, an
  item in the binary heap (\<^verbatim>\<open>heap.hpp\<close>).  Beside the server stand the Raft library
  (\<^verbatim>\<open>src/src/raft/raft.hpp\<close>), an intrusive list (\<^verbatim>\<open>list.hpp\<close>), a thread pool (\<^verbatim>\<open>thread_pool.hpp\<close>), a skip list
  (\<^verbatim>\<open>skiplist.hpp\<close>), a frequency sketch (\<^verbatim>\<open>src/src/cache/CountMinSketch.cpp\<close>) and a vector search library
  (\<^verbatim>\<open>src/src/hnsw/hnsw_scratch\<close>).

  \<^bold>\<open>Theories, in the order of their imports.\<close>
  \<^item> \<open>VDB_Prelude\<close>: machine integers, the failures of C++ code as values, sequencing, mutex
    ownership, vectors, lemmas on lists and words.
  \<^item> \<open>Interfaces\<close>: the contracts between components as locales: a map that stacks bindings,
    a weak order, a minimum queue, an overwriting map, an indexed log, and the simulation of a
    partial specification.  Each is interpreted on the model of its provider.
  \<^item> \<open>Hash_Table\<close> (\<^verbatim>\<open>hash_key\<close>, \<^verbatim>\<open>HTable\<close>, \<^verbatim>\<open>HMap\<close>): progressive resizing refines a stack of values per
    key; the unrolled hash is FNV-1a; migration terminates.
  \<^item> \<open>Binary_Heap\<close> (\<^verbatim>\<open>BinaryHeap\<close>): heap order and the position references are invariants of
    push and update; repeated removal yields the items in order.
  \<^item> \<open>AVL_Tree\<close> (\<^verbatim>\<open>AVLNode\<close>, \<^verbatim>\<open>AVLTree\<close>): set and del keep the tree ordered, balanced and measured and
    refine a map; the height is logarithmic.
  \<^item> \<open>Wire_Format\<close> (\<^verbatim>\<open>request_parser.hpp\<close>, \<^verbatim>\<open>response_serializer.hpp\<close>, \<^verbatim>\<open>common.hpp\<close>): the parser accepts
    exactly the encodings of commands; responses read back.
  \<^item> \<open>ZSet\<close>, \<open>Entry_Manager\<close>, \<open>Command_Processor\<close>: the sorted set, the keyspace with expiry and
    the commands; every sequence of commands answers as a specification by stacks of values, and
    no command leaves memory, throws or fails an assertion.
  \<^item> \<open>Connection\<close>, \<open>Server\<close>: buffers, states, the poll loop, accepting, timers, sockets and \<^verbatim>\<open>main\<close>; the
    responses written are those of the specification for one sequence of commands, no
    descriptor leaks, no byte to send is lost.
  \<^item> \<open>Raft_Log\<close>, \<open>Raft_Server\<close>, \<open>Raft_Safety\<close>, \<open>Raft_Cluster\<close> (\<^verbatim>\<open>raft.hpp\<close>): the circular log refines a
    list; the handlers of a server; committed entries are kept, votes follow the rule, commits need
    a majority; at most one leader per term in every execution of a cluster.
  \<^item> \<open>Linked_List\<close> (\<^verbatim>\<open>list.hpp\<close>): pointer operations in a store refine a sequence; iterators.
  \<^item> \<open>Count_Min_Sketch\<close>: packed counters at 32 bits refine a table of counters up to seven.
  \<^item> \<open>Vector_Space\<close>, \<open>Visited_List\<close> (\<^verbatim>\<open>space_l2.hpp\<close>, \<^verbatim>\<open>space_ip.hpp\<close>, \<^verbatim>\<open>visited_list_pool.hpp\<close>):
    distances are the sums they should be; visited lists are sets for every search.
  \<^item> \<open>Brute_Force\<close> (\<^verbatim>\<open>bruteforce.hpp\<close>, \<^verbatim>\<open>hnswlib.hpp\<close>): the index in a block of bytes; the search is exact,
    saving and loading restore it, removal of the last element breaks it.
  \<^item> \<open>Skip_List\<close> (\<^verbatim>\<open>skiplist.hpp\<close>): operations of one thread refine a set while nodes have one level;
    higher nodes fail.
  \<^item> \<open>Thread_Pool\<close> (\<^verbatim>\<open>thread_pool.hpp\<close>): workers and callers as threads over one mutex and one condition
    variable; a stopped pool comes to rest, tasks are never queued, a failing constructor may hang.
  \<^item> \<open>Lockfree_Tree\<close> (\<^verbatim>\<open>avl_lockfree.hpp\<close>): one thread sees a map, insertions build the same tree as the
    locking variant, removals can unbalance it.

  \<^bold>\<open>How state and failure are modelled.\<close>
  A class is a record, a method a function from the state to a result: \<open>Inr\<close> a value and the new
  state, \<open>Inl\<close> the failure that ends the call (an exception, a failed assertion, an access outside
  an array or through a null or dangling pointer, a mutex that its owner acquires again, signed
  overflow, a loop that never ends).  The server runs all commands on its main thread, so a
  mutex is the ownership by that thread.  Objects that are shared through pointers live in
  stores from addresses to records (lists, heap positions, Raft nodes, visited lists).  The
  operating system is an input: the results of \<^verbatim>\<open>accept\<close>, \<^verbatim>\<open>poll\<close>, \<^verbatim>\<open>read\<close> and \<^verbatim>\<open>write\<close> and the clock are arguments,
  and theorems hold for all of them.  Code outside the repository is a parameter with named
  hypotheses: the tree header that the sorted set includes and the repository does not have,
  \<^verbatim>\<open>std::stod\<close>, random numbers, memory that an allocation leaves uninitialised.

  \<^bold>\<open>Widths, fuel and bounds.\<close>
  Hashes, lengths on the wire, heap positions, tags and packed counters are words of their
  width; sizes of containers are natural numbers and the terms and indices of Raft
  mathematical integers, since the code compares and increments them only.  Loops that always end are recursive
  functions with a measure.  The request loop of a connection and the loops of the hash map that
  need not end are partial functions into \<open>option\<close>, where \<open>None\<close> is not returning; the fuel of
  request handling is the number of iterations that are observed, and the theorems say that the
  loop does not end for any amount.

  \<^bold>\<open>Not modelled.\<close>
  Logging (\<^verbatim>\<open>logging.hpp\<close>) and trace output have no effect on the state.  The pointer arithmetic of
  \<^verbatim>\<open>container_of\<close> in \<^verbatim>\<open>common.hpp\<close> is the identity on the records of the model.  \<^verbatim>\<open>src/src/dsa/hnsw.hpp\<close> is
  commented out from the first line to the last.  The graph search
  of the vector library is not covered yet.
\<close>

end
